(* ===== verification/Prelude.thy ===== *)
theory Prelude
  imports Main "HOL-Library.Word" "HOL-Library.Monad_Syntax" "HOL-Library.Multiset"
begin

unbundle bit_operations_syntax

text \<open>
  Shared vocabulary of the development: the C integer types of \<open>kernel/src/typedef.h\<close>
  as words, the byte store the pointer-level routines work on, little-endian packing,
  block reads and writes on byte lists, and the list and word facts the component
  theories use.  A routine whose C text has no defined behaviour on some input (a read
  past the end of its object, a null dereference, a division by zero, a call that never
  returns) returns \<^const>\<open>None\<close>; every defined outcome is a \<^const>\<open>Some\<close>.
\<close>

section \<open>C integer types\<close>

type_synonym u8 = "8 word"
type_synonym u16 = "16 word"
type_synonym u32 = "32 word"
type_synonym u64 = "64 word"
type_synonym s32 = "32 word"

text \<open>Facts about the word operations the components use.\<close>

named_theorems bits

text \<open>Definitions that a proof unfolds as a group.\<close>

named_theorems kdefs

definition wrap64 :: "nat \<Rightarrow> nat" where
  "wrap64 n = n mod 2 ^ 64"

lemma wrap64_small [simp]: "n < 2 ^ 64 \<Longrightarrow> wrap64 n = n"
  by (simp add: wrap64_def)

lemma wrap64_less: "wrap64 n < 2 ^ 64"
  by (simp add: wrap64_def)

text \<open>C's division and remainder on \<open>int\<close> truncate towards zero.\<close>

definition c_div :: "int \<Rightarrow> int \<Rightarrow> int" where
  "c_div a b = sgn a * sgn b * (\<bar>a\<bar> div \<bar>b\<bar>)"

definition c_mod :: "int \<Rightarrow> int \<Rightarrow> int" where
  "c_mod a b = a - b * c_div a b"

lemma c_div_nonneg: "0 \<le> a \<Longrightarrow> 0 < b \<Longrightarrow> c_div a b = a div b"
  by (cases "a = 0") (simp_all add: c_div_def)

lemma c_mod_nonneg: "0 \<le> a \<Longrightarrow> 0 < b \<Longrightarrow> c_mod a b = a mod b"
  by (simp add: c_mod_def c_div_nonneg minus_mult_div_eq_mod)

text \<open>The value of an \<open>int\<close> expression, wrapped to 32 bits as the compiled code wraps it.\<close>

definition wrap_s32 :: "int \<Rightarrow> int" where
  "wrap_s32 i = signed_take_bit 31 i"

lemma wrap_s32_small [simp]: "- (2 ^ 31) \<le> i \<Longrightarrow> i < 2 ^ 31 \<Longrightarrow> wrap_s32 i = i"
  unfolding wrap_s32_def by (simp add: signed_take_bit_int_eq_self)

section \<open>Word facts\<close>

lemma bit_shift_mask_iff [bits]:
  "bit (push_bit n w) k \<longleftrightarrow> n \<le> k \<and> k < LENGTH('a) \<and> bit w (k - n)" for w :: "'a::len word"
  by (auto simp: bit_simps)

lemma unat_ucast_le: "LENGTH('a) \<le> LENGTH('b) \<Longrightarrow> unat (ucast w :: 'b::len word) = unat w"
  for w :: "'a::len word"
proof -
  assume "LENGTH('a) \<le> LENGTH('b)"
  then have "(2::nat) ^ LENGTH('a) \<le> 2 ^ LENGTH('b)" by (simp add: power_increasing)
  moreover have "unat w < 2 ^ LENGTH('a)" by (rule unsigned_less)
  ultimately have "unat w < 2 ^ LENGTH('b)" by linarith
  then show ?thesis by (simp add: unsigned_ucast_eq take_bit_nat_eq_self)
qed

lemma word_not_xor_self [bits]: "w XOR (NOT w) = - 1" for w :: "'a::len word"
  by (rule bit_word_eqI) (simp add: bit_simps)

section \<open>The byte store\<close>

text \<open>
  Memory as the copying routines of \<open>typedef.c\<close> see it: one byte per address.
  \<open>rd_bytes m p n\<close> are the \<open>n\<close> bytes from \<open>p\<close> on, and \<open>wr_bytes m p bs\<close> stores \<open>bs\<close> there.
\<close>

type_synonym mem = "nat \<Rightarrow> u8"

definition rd_bytes :: "mem \<Rightarrow> nat \<Rightarrow> nat \<Rightarrow> u8 list" where
  "rd_bytes m p n = map (\<lambda>i. m (p + i)) [0..<n]"

definition wr_bytes :: "mem \<Rightarrow> nat \<Rightarrow> u8 list \<Rightarrow> mem" where
  "wr_bytes m p bs = (\<lambda>a. if p \<le> a \<and> a < p + length bs then bs ! (a - p) else m a)"

lemma length_rd_bytes [simp]: "length (rd_bytes m p n) = n"
  by (simp add: rd_bytes_def)

lemma nth_rd_bytes [simp]: "i < n \<Longrightarrow> rd_bytes m p n ! i = m (p + i)"
  by (simp add: rd_bytes_def)

lemma rd_wr_bytes [simp]: "rd_bytes (wr_bytes m p bs) p (length bs) = bs"
  by (rule nth_equalityI) (auto simp: wr_bytes_def)

lemma rd_wr_bytes_other:
  "q + n \<le> p \<or> p + length bs \<le> q \<Longrightarrow> rd_bytes (wr_bytes m p bs) q n = rd_bytes m q n"
  by (rule nth_equalityI) (auto simp: wr_bytes_def)

lemma wr_bytes_outside: "a < p \<or> p + length bs \<le> a \<Longrightarrow> wr_bytes m p bs a = m a"
  by (auto simp: wr_bytes_def)

lemma rd_bytes_0 [simp]: "rd_bytes m p 0 = []"
  by (simp add: rd_bytes_def)

lemma wr_bytes_Nil [simp]: "wr_bytes m p [] = m"
  by (rule ext) (auto simp: wr_bytes_def)

lemma rd_bytes_Suc: "rd_bytes m p (Suc n) = m p # rd_bytes m (Suc p) n"
  by (rule nth_equalityI) (auto simp: nth_Cons split: nat.split)

section \<open>Little-endian packing\<close>

definition le16 :: "u8 \<Rightarrow> u8 \<Rightarrow> u16" where
  "le16 lo hi = ucast lo OR push_bit 8 (ucast hi)"

definition lo8 :: "u16 \<Rightarrow> u8" where "lo8 w = ucast w"
definition hi8 :: "u16 \<Rightarrow> u8" where "hi8 w = ucast (drop_bit 8 w)"

lemma lo8_le16 [simp]: "lo8 (le16 a b) = a"
  by (rule bit_word_eqI) (auto simp: lo8_def le16_def bit_simps)

lemma hi8_le16 [simp]: "hi8 (le16 a b) = b"
  by (rule bit_word_eqI) (auto simp: hi8_def le16_def bit_simps dest: bit_imp_le_length)

lemma le16_lo8_hi8 [simp]: "le16 (lo8 w) (hi8 w) = w"
  by (rule bit_word_eqI) (auto simp: hi8_def lo8_def le16_def bit_simps)

definition le32 :: "u8 \<Rightarrow> u8 \<Rightarrow> u8 \<Rightarrow> u8 \<Rightarrow> u32" where
  "le32 a b c d = ucast a OR push_bit 8 (ucast b) OR push_bit 16 (ucast c) OR push_bit 24 (ucast d)"

definition le32_bytes :: "u32 \<Rightarrow> u8 list" where
  "le32_bytes w = [ucast w, ucast (drop_bit 8 w), ucast (drop_bit 16 w), ucast (drop_bit 24 w)]"

section \<open>Blocks of a list\<close>

text \<open>
  A C array is a list; a read or write past its end is \<^const>\<open>None\<close>.
  \<open>blk_get xs i n\<close> is the block of \<open>n\<close> elements at \<open>i\<close>, \<open>blk_put xs i ys\<close> overwrites it.
\<close>

definition arr_get :: "'a list \<Rightarrow> nat \<Rightarrow> 'a option" where
  "arr_get xs i = (if i < length xs then Some (xs ! i) else None)"

definition arr_put :: "'a list \<Rightarrow> nat \<Rightarrow> 'a \<Rightarrow> 'a list option" where
  "arr_put xs i x = (if i < length xs then Some (xs[i := x]) else None)"

definition blk_get :: "'a list \<Rightarrow> nat \<Rightarrow> nat \<Rightarrow> 'a list option" where
  "blk_get xs i n = (if i + n \<le> length xs then Some (take n (drop i xs)) else None)"

definition blk_put :: "'a list \<Rightarrow> nat \<Rightarrow> 'a list \<Rightarrow> 'a list option" where
  "blk_put xs i ys =
     (if i + length ys \<le> length xs then Some (take i xs @ ys @ drop (i + length ys) xs) else None)"

lemma arr_get_Some [simp]: "i < length xs \<Longrightarrow> arr_get xs i = Some (xs ! i)"
  by (simp add: arr_get_def)

lemma arr_get_None [simp]: "length xs \<le> i \<Longrightarrow> arr_get xs i = None"
  by (simp add: arr_get_def)

lemma arr_put_Some [simp]: "i < length xs \<Longrightarrow> arr_put xs i x = Some (xs[i := x])"
  by (simp add: arr_put_def)

lemma blk_put_length: "blk_put xs i ys = Some zs \<Longrightarrow> length zs = length xs"
  by (auto simp: blk_put_def split: if_splits)

lemma blk_get_put_same: "blk_put xs i ys = Some zs \<Longrightarrow> blk_get zs i (length ys) = Some ys"
  by (auto simp: blk_put_def blk_get_def split: if_splits)

lemma blk_put_nth:
  "blk_put xs i ys = Some zs \<Longrightarrow> k < length xs \<Longrightarrow>
   zs ! k = (if i \<le> k \<and> k < i + length ys then ys ! (k - i) else xs ! k)"
  by (auto simp: blk_put_def nth_append split: if_splits)

lemma blk_get_put_other:
  assumes "blk_put xs i ys = Some zs" and "j + n \<le> i \<or> i + length ys \<le> j"
  shows "blk_get zs j n = blk_get xs j n"
proof -
  have len: "length zs = length xs" using assms(1) by (rule blk_put_length)
  show ?thesis
  proof (cases "j + n \<le> length xs")
    case True
    have "take n (drop j zs) = take n (drop j xs)"
      by (rule nth_equalityI) (use True len assms in \<open>auto simp: blk_put_nth [OF assms(1)]\<close>)
    with True len show ?thesis by (simp add: blk_get_def)
  next
    case False
    with len show ?thesis by (simp add: blk_get_def)
  qed
qed

section \<open>Counted loops\<close>

text \<open>\<open>for_range f i n s\<close>: the body \<open>f\<close> for the \<open>n\<close> indices from \<open>i\<close> on.\<close>

fun for_range :: "(nat \<Rightarrow> 's \<Rightarrow> 's option) \<Rightarrow> nat \<Rightarrow> nat \<Rightarrow> 's \<Rightarrow> 's option" where
  "for_range f i 0 s = Some s"
| "for_range f i (Suc n) s = do { s \<leftarrow> f i s; for_range f (Suc i) n s }"

lemma for_range_inv:
  assumes "P i s" and "\<And>k s. i \<le> k \<Longrightarrow> k < i + n \<Longrightarrow> P k s \<Longrightarrow> \<exists>s'. f k s = Some s' \<and> P (Suc k) s'"
  shows "\<exists>s'. for_range f i n s = Some s' \<and> P (i + n) s'"
  using assms
proof (induction n arbitrary: i s)
  case (Suc n)
  then obtain s' where s': "f i s = Some s'" "P (Suc i) s'" by fastforce
  have "\<exists>s''. for_range f (Suc i) n s' = Some s'' \<and> P (Suc i + n) s''"
    by (rule Suc.IH [OF s'(2)]) (use Suc.prems in simp)
  with s' show ?case by simp
qed simp

end
