(* ===== verification/MemPrims.thy ===== *)
theory MemPrims
  imports Prelude
begin

text \<open>
  The freestanding memory routines of \<open>kernel/src/typedef.c\<close>: \<open>memset\<close>, \<open>memcpy\<close>,
  \<open>memmove\<close>, \<open>memcmp\<close>, the unrolled \<open>wmemset\<close> and \<open>intset\<close>, and \<open>crc32b\<close>.
  Memory is the byte store of the prelude, and pointers are addresses in it.  The lemmas
  say what each routine leaves in memory, that the unrolled fills equal the plain ones,
  that \<open>memmove\<close> copies overlapping blocks as if through a buffer, and that \<open>crc32b\<close>
  satisfies the CRC residue law.
\<close>

section \<open>memset, memcpy, memmove, memcmp\<close>

text \<open>\<open>while (len-- > 0) *ptr++ = val\<close>\<close>

fun memset_loop :: "mem \<Rightarrow> nat \<Rightarrow> u8 \<Rightarrow> nat \<Rightarrow> mem" where
  "memset_loop m ptr v 0 = m"
| "memset_loop m ptr v (Suc len) = memset_loop (m(ptr := v)) (Suc ptr) v len"

definition memset :: "mem \<Rightarrow> nat \<Rightarrow> s32 \<Rightarrow> nat \<Rightarrow> mem" where
  "memset m dest val len = memset_loop m dest (ucast val) len"

text \<open>\<open>while (len--) *d++ = *s++\<close>\<close>

fun memcpy :: "mem \<Rightarrow> nat \<Rightarrow> nat \<Rightarrow> nat \<Rightarrow> mem" where
  "memcpy m d s 0 = m"
| "memcpy m d s (Suc len) = memcpy (m(d := m s)) (Suc d) (Suc s) len"

text \<open>\<open>while (n-- > 0) *--t = *--f\<close> with \<open>t = dest + n\<close>, \<open>f = src + n\<close>\<close>

fun memmove_down :: "mem \<Rightarrow> nat \<Rightarrow> nat \<Rightarrow> nat \<Rightarrow> mem" where
  "memmove_down m dest src 0 = m"
| "memmove_down m dest src (Suc n) = memmove_down (m(dest + n := m (src + n))) dest src n"

text \<open>\<open>while (n-- > 0) *t++ = *f++\<close>\<close>

fun memmove_up :: "mem \<Rightarrow> nat \<Rightarrow> nat \<Rightarrow> nat \<Rightarrow> mem" where
  "memmove_up m t f 0 = m"
| "memmove_up m t f (Suc n) = memmove_up (m(t := m f)) (Suc t) (Suc f) n"

definition memmove :: "mem \<Rightarrow> nat \<Rightarrow> nat \<Rightarrow> nat \<Rightarrow> mem" where
  "memmove m dest src n = (if src < dest then memmove_down m dest src n else memmove_up m dest src n)"

fun memcmp :: "mem \<Rightarrow> nat \<Rightarrow> nat \<Rightarrow> nat \<Rightarrow> int" where
  "memcmp m s1 s2 0 = 0"
| "memcmp m s1 s2 (Suc n) =
     (if m s1 \<noteq> m s2 then (if m s1 < m s2 then - 1 else 1)
      else memcmp m (Suc s1) (Suc s2) n)"

lemma memset_loop_apply:
  "memset_loop m p v n a = (if p \<le> a \<and> a < p + n then v else m a)"
  by (induction n arbitrary: m p) auto

lemma memset_eq_wr_bytes: "memset m d v n = wr_bytes m d (replicate n (ucast v))"
  by (rule ext) (auto simp: memset_def memset_loop_apply wr_bytes_def)

lemma memmove_down_apply:
  "src < dest \<Longrightarrow>
   memmove_down m dest src n a = (if dest \<le> a \<and> a < dest + n then m (src + (a - dest)) else m a)"
  by (induction n arbitrary: m) (auto simp: less_Suc_eq)

lemma memmove_up_apply:
  "t \<le> f \<Longrightarrow>
   memmove_up m t f n a = (if t \<le> a \<and> a < t + n then m (f + (a - t)) else m a)"
proof (induction n arbitrary: m t f)
  case (Suc n)
  consider "a \<le> t" | k where "a = Suc t + k"
    by (metis less_eq_Suc_le not_le_imp_less le_Suc_ex)
  then show ?case using Suc by cases auto
qed auto

lemma memcpy_eq_memmove_up: "memcpy m d s n = memmove_up m d s n"
  by (induction n arbitrary: m d s) auto

lemma memmove_correct: "memmove m d s n = wr_bytes m d (rd_bytes m s n)"
  by (rule ext) (auto simp: memmove_def memmove_down_apply memmove_up_apply wr_bytes_def)

lemma memmove_up_disjoint:
  "d + n \<le> s \<or> s + n \<le> d \<Longrightarrow> memmove_up m d s n = wr_bytes m d (rd_bytes m s n)"
proof (induction n arbitrary: m d s)
  case 0
  then show ?case by simp
next
  case (Suc n)
  from Suc.prems have "Suc d + n \<le> Suc s \<or> Suc s + n \<le> Suc d" by auto
  then have IH: "memmove_up (m(d := m s)) (Suc d) (Suc s) n =
      wr_bytes (m(d := m s)) (Suc d) (rd_bytes (m(d := m s)) (Suc s) n)"
    by (rule Suc.IH)
  have "rd_bytes (m(d := m s)) (Suc s) n = rd_bytes m (Suc s) n"
    by (rule nth_equalityI) (use Suc.prems in auto)
  with IH have eq: "memmove_up m d s (Suc n) = wr_bytes (m(d := m s)) (Suc d) (rd_bytes m (Suc s) n)"
    by simp
  show ?case
  proof
    fix x
    consider "x \<le> d" | k where "x = Suc d + k"
      by (metis less_eq_Suc_le not_le_imp_less le_Suc_ex)
    then show "memmove_up m d s (Suc n) x = wr_bytes m d (rd_bytes m s (Suc n)) x"
      unfolding eq by cases (auto simp: rd_bytes_Suc wr_bytes_def)
  qed
qed

lemma memcpy_correct:
  "d \<le> s \<or> s + n \<le> d \<Longrightarrow> memcpy m d s n = wr_bytes m d (rd_bytes m s n)"
  using memmove_correct [of m d s n] memmove_up_disjoint [of d n s m]
  by (cases "d \<le> s") (auto simp: memcpy_eq_memmove_up memmove_def)

lemma memcmp_eq_0_iff: "memcmp m p q n = 0 \<longleftrightarrow> rd_bytes m p n = rd_bytes m q n"
  by (induction m p q n rule: memcmp.induct) (auto simp: rd_bytes_Suc)

text \<open>The sign is the unsigned order of the first bytes that differ.\<close>

lemma memcmp_first_diff:
  "k < n \<Longrightarrow> rd_bytes m p k = rd_bytes m q k \<Longrightarrow> m (p + k) \<noteq> m (q + k) \<Longrightarrow>
   memcmp m p q n = (if m (p + k) < m (q + k) then - 1 else 1)"
proof (induction m p q n arbitrary: k rule: memcmp.induct)
  case (2 m p q n)
  then show ?case by (cases k) (auto simp: rd_bytes_Suc rd_bytes_def [of _ _ 0])
qed simp

section \<open>wmemset and intset\<close>

text \<open>
  The two wide fills work on an array of \<open>wchar\<close> (16 bits) or \<open>uint32_t\<close> elements; the
  index counts elements from the pointer.  Both are unrolled; the plain fill is
  \<open>fill_ref\<close>.
\<close>

definition fill_ref :: "(nat \<Rightarrow> 'a) \<Rightarrow> nat \<Rightarrow> 'a \<Rightarrow> nat \<Rightarrow> (nat \<Rightarrow> 'a)" where
  "fill_ref m wp c n = (\<lambda>i. if wp \<le> i \<and> i < wp + n then c else m i)"

function wmemset :: "(nat \<Rightarrow> u16) \<Rightarrow> nat \<Rightarrow> u16 \<Rightarrow> nat \<Rightarrow> (nat \<Rightarrow> u16)" where
  "wmemset m wp c n =
     (if n \<ge> 4 then
        wmemset (m(wp := c, wp + 1 := c, wp + 2 := c, wp + 3 := c)) (wp + 4) c (n - 4)
      else if n > 0 then
        (let m1 = m(wp := c) in
         if n > 1 then
           (let m2 = m1(wp + 1 := c) in if n > 2 then m2(wp + 2 := c) else m2)
         else m1)
      else m)"
  by pat_completeness auto
termination
  by (relation "measure (\<lambda>(m, wp, c, n). n)") auto

function intset :: "(nat \<Rightarrow> u32) \<Rightarrow> nat \<Rightarrow> u32 \<Rightarrow> nat \<Rightarrow> (nat \<Rightarrow> u32)" where
  "intset m wp c n =
     (if n \<ge> 2 then intset (m(wp := c, wp + 1 := c)) (wp + 2) c (n - 2)
      else if n > 0 then m(wp := c)
      else m)"
  by pat_completeness auto
termination
  by (relation "measure (\<lambda>(m, wp, c, n). n)") auto

declare wmemset.simps [simp del] intset.simps [simp del]

lemma wmemset_eq_fill: "wmemset m wp c n = fill_ref m wp c n"
proof (induction n arbitrary: m wp rule: less_induct)
  case (less n)
  show ?case
  proof (cases "n \<ge> 4")
    case True
    with less [of "n - 4"] show ?thesis
      by (subst wmemset.simps) (auto simp: fill_ref_def fun_eq_iff)
  next
    case False
    then consider "n = 0" | "n = 1" | "n = 2" | "n = 3" by linarith
    then show ?thesis
      by cases (subst wmemset.simps, auto simp: fill_ref_def fun_eq_iff)+
  qed
qed

lemma intset_eq_fill: "intset m wp c n = fill_ref m wp c n"
proof (induction n arbitrary: m wp rule: less_induct)
  case (less n)
  show ?case
  proof (cases "n \<ge> 2")
    case True
    with less [of "n - 2"] show ?thesis
      by (subst intset.simps) (auto simp: fill_ref_def fun_eq_iff)
  next
    case False
    then consider "n = 0" | "n = 1" by linarith
    then show ?thesis
      by cases (subst intset.simps, auto simp: fill_ref_def fun_eq_iff)+
  qed
qed

section \<open>crc32b\<close>

definition Polynomial :: u32 where
  "Polynomial = 0xEDB88320"

definition crc_bit :: "u32 \<Rightarrow> u32" where
  "crc_bit crc = (if crc AND 1 \<noteq> 0 then drop_bit 1 crc XOR Polynomial else drop_bit 1 crc)"

text \<open>The inner loop \<open>for (j = 0; j < 8; j++)\<close> and the byte loop.\<close>

fun crc_bits :: "nat \<Rightarrow> u32 \<Rightarrow> u32" where
  "crc_bits 0 crc = crc"
| "crc_bits (Suc j) crc = crc_bits j (crc_bit crc)"

fun crc_loop :: "u32 \<Rightarrow> u8 list \<Rightarrow> u32" where
  "crc_loop crc [] = crc"
| "crc_loop crc (b # bs) = crc_loop (crc_bits 8 (crc XOR ucast b)) bs"

definition crc32b :: "u8 list \<Rightarrow> u32" where
  "crc32b data = NOT (crc_loop (NOT 0) data)"

lemma crc_bit_xor: "crc_bit (a XOR b) = crc_bit a XOR crc_bit b"
proof -
  have [simp]: "w AND 1 \<noteq> 0 \<longleftrightarrow> bit w 0" for w :: u32
    by (metis and_zero_eq bit_0 one_and_eq and.commute odd_one parity_cases even_iff_mod_2_eq_zero
        mod_2_eq_odd of_bool_eq(1) of_bool_eq(2) zero_neq_one)
  show ?thesis
    by (rule bit_word_eqI) (auto simp: crc_bit_def bit_simps)
qed

lemma crc_bits_xor: "crc_bits n (a XOR b) = crc_bits n a XOR crc_bits n b"
  by (induction n arbitrary: a b) (simp_all add: crc_bit_xor)

lemma crc_bits_add: "crc_bits (m + n) x = crc_bits n (crc_bits m x)"
  by (induction m arbitrary: x) simp_all

lemma crc_loop_append: "crc_loop c (xs @ ys) = crc_loop (crc_loop c xs) ys"
  by (induction xs arbitrary: c) simp_all

lemma crc_bits_low_zero: "take_bit n x = 0 \<Longrightarrow> crc_bits n x = drop_bit n x"
proof (induction n arbitrary: x)
  case (Suc n)
  have b: "\<not> bit x k" if "k \<le> n" for k
    using Suc.prems that by (metis bit_take_bit_iff le_imp_less_Suc bit_0_eq bot_apply bot_bool_def)
  from b [of 0] have "x AND 1 = 0"
    by (intro bit_word_eqI) (auto simp: bit_simps intro: gr0I)
  then have c: "crc_bit x = drop_bit 1 x" by (simp add: crc_bit_def)
  have "take_bit n (drop_bit 1 x) = 0"
    by (rule bit_word_eqI) (use b in \<open>auto simp: bit_simps\<close>)
  then show ?case using Suc.IH c by (simp add: drop_bit_drop_bit)
qed simp

text \<open>Feeding the bytes of a word one at a time is feeding the word at once.\<close>

lemma crc_loop_le32_bytes: "crc_loop s (le32_bytes w) = crc_bits 32 (s XOR w)"
proof -
  let ?b = "\<lambda>k. ucast (ucast (drop_bit (8 * k) w) :: u8) :: u32"
  have sh: "crc_bits (8 * k) (push_bit (8 * k) (?b k)) = ?b k" if "k < 4" for k
  proof -
    have "take_bit (8 * k) (push_bit (8 * k) (?b k)) = 0"
      by (rule bit_word_eqI) (simp add: bit_simps)
    moreover have "drop_bit (8 * k) (push_bit (8 * k) (?b k)) = ?b k"
      using that by (intro bit_word_eqI) (auto simp: bit_simps)
    ultimately show ?thesis by (simp add: crc_bits_low_zero)
  qed
  have w: "w = ?b 0 XOR push_bit 8 (?b 1) XOR push_bit 16 (?b 2) XOR push_bit 24 (?b 3)"
  proof (rule bit_word_eqI)
    fix n assume "n < LENGTH(32)"
    then consider "n < 8" | "8 \<le> n \<and> n < 16" | "16 \<le> n \<and> n < 24" | "24 \<le> n \<and> n < 32"
      by fastforce
    then show "bit w n \<longleftrightarrow>
        bit (?b 0 XOR push_bit 8 (?b 1) XOR push_bit 16 (?b 2) XOR push_bit 24 (?b 3)) n"
      by cases (auto simp: bit_simps)
  qed
  have "crc_bits 32 (s XOR w) = crc_bits 8 (crc_bits 8 (crc_bits 8 (crc_bits 8 (s XOR w))))"
    using crc_bits_add [of 8 24] crc_bits_add [of 8 16] crc_bits_add [of 8 8] by simp
  also have "\<dots> = crc_bits 8 (crc_bits 8 (crc_bits 8 (crc_bits 8 (s XOR ?b 0) XOR ?b 1) XOR ?b 2) XOR ?b 3)"
    using sh [of 1] sh [of 2] sh [of 3] crc_bits_add [of 8 8] crc_bits_add [of 8 16]
    by (subst w) (simp add: crc_bits_xor xor.assoc)
  finally show ?thesis by (simp add: le32_bytes_def)
qed

lemma crc_bits_ones: "crc_bits 32 (- 1) = 0xDEBB20E3"
  by code_simp

text \<open>The published check value of CRC-32.\<close>

lemma crc32b_check: "crc32b (map of_nat [49, 50, 51, 52, 53, 54, 55, 56, 57]) = 0xCBF43926"
  by code_simp

section \<open>Properties\<close>

text \<open>
  C27. \<open>memmove\<close> leaves at the destination exactly the bytes the source held before the call,
  however the two blocks overlap, and no other byte of memory changes.
\<close>

theorem memmove_simultaneous:
  "memmove m dest src n = wr_bytes m dest (rd_bytes m src n)"
  by (rule memmove_correct)

text \<open>
  The unrolled \<open>wmemset\<close> and \<open>intset\<close> fill exactly the \<open>n\<close> elements from the pointer on,
  for every \<open>n\<close>, the remainders of the unrolling included.
\<close>

theorem unrolled_fills_correct:
  "wmemset m wp c n = fill_ref m wp c n \<and> intset m' wp' c' n' = fill_ref m' wp' c' n'"
  by (simp add: wmemset_eq_fill intset_eq_fill)

text \<open>
  A message followed by its own \<open>crc32b\<close> in little-endian order always has the checksum
  \<open>0x2144DF1C\<close>, the CRC-32 residue: a receiver can check a frame without splitting it.
\<close>

theorem crc32b_residue:
  "crc32b (data @ le32_bytes (crc32b data)) = 0x2144DF1C"
proof -
  let ?s = "crc_loop (NOT 0) data"
  have "crc_loop (NOT 0) (data @ le32_bytes (crc32b data)) = crc_bits 32 (?s XOR NOT ?s)"
    by (simp add: crc_loop_append crc_loop_le32_bytes crc32b_def)
  also have "\<dots> = 0xDEBB20E3" by (simp add: word_not_xor_self crc_bits_ones)
  finally show ?thesis by (simp add: crc32b_def [of "data @ _"])
qed

end
