(* ===== verification/CString.thy ===== *)
theory CString
  imports Prelude "HOL-Library.Sublist" "HOL-Library.List_Lexorder"
begin

text \<open>
  The string routines of \<open>kernel/src/string.c\<close> and the character classes of
  \<open>kernel/src/ctype.h\<close>.  A \<open>char*\<close> argument is the list of bytes from the pointer to the
  end of its object; a read past that end is \<^const>\<open>None\<close>.  A returned pointer is an offset
  from the argument, and NULL is the inner \<^const>\<open>None\<close>.  The lemmas give each routine's
  result on terminated strings: the order \<open>strcmp\<close> computes, what \<open>strcasecmp\<close> really
  compares, what \<open>strncpy\<close> writes, and that \<open>split_string_by_char\<close> cuts a string into
  its components.  The positions \<open>split_string_by_char\<close> keeps in an \<open>int\<close> are natural numbers
  here, which is the code's arithmetic for every string below 2 GiB.
\<close>

text \<open>A terminated string: its characters, the NUL, and whatever follows in the object.\<close>

definition cstr :: "u8 list \<Rightarrow> bool" where
  "cstr s \<longleftrightarrow> 0 \<notin> set s"

definition cstr_at :: "u8 list \<Rightarrow> nat \<Rightarrow> u8 list" where
  "cstr_at buf off = takeWhile (\<lambda>c. c \<noteq> 0) (drop off buf)"

definition of_str :: "string \<Rightarrow> u8 list" where
  "of_str s = map (\<lambda>c. of_nat (of_char c)) s"

lemma cstr_Cons [simp]: "cstr (c # s) \<longleftrightarrow> c \<noteq> 0 \<and> cstr s"
  by (auto simp: cstr_def)

lemma cstr_Nil [simp]: "cstr []"
  by (simp add: cstr_def)

lemma cstr_append [simp]: "cstr (s @ t) \<longleftrightarrow> cstr s \<and> cstr t"
  by (auto simp: cstr_def)

section \<open>ctype.h\<close>

definition isupper :: "s32 \<Rightarrow> bool" where
  "isupper c = (c - 65 < 26)"

definition islower :: "s32 \<Rightarrow> bool" where
  "islower c = (c - 97 < 26)"

definition isalpha :: "s32 \<Rightarrow> bool" where
  "isalpha c = ((c OR 32) - 97 < 26)"

definition isprint :: "s32 \<Rightarrow> bool" where
  "isprint c = (0x20 \<le> sint c \<and> sint c \<le> 0x7e)"

definition isdigit :: "s32 \<Rightarrow> bool" where
  "isdigit c = (48 \<le> sint c \<and> sint c \<le> 57)"

section \<open>Searching\<close>

text \<open>\<open>for (;*s; ++s) if (*s == c) return s; return NULL\<close>: the character is sign-extended.\<close>

fun strchr :: "u8 list \<Rightarrow> s32 \<Rightarrow> nat option option" where
  "strchr [] c = None"
| "strchr (s # ss) c =
     (if s = 0 then Some None
      else if scast s = c then Some (Some 0)
      else map_option (map_option Suc) (strchr ss c))"

fun strrchr_loop :: "u8 list \<Rightarrow> u8 \<Rightarrow> nat \<Rightarrow> nat option \<Rightarrow> nat option option" where
  "strrchr_loop [] ch i found = None"
| "strrchr_loop (s # ss) ch i found =
     (if s = 0 then Some found
      else strrchr_loop ss ch (Suc i) (if s = ch then Some i else found))"

definition strrchr :: "u8 list \<Rightarrow> s32 \<Rightarrow> nat option option" where
  "strrchr s c = strrchr_loop s (ucast c) 0 None"

text \<open>The inner \<open>while (1)\<close> of \<open>strstr\<close>: true when the needle's NUL is reached.\<close>

fun strstr_match :: "u8 list \<Rightarrow> u8 list \<Rightarrow> bool option" where
  "strstr_match a [] = None"
| "strstr_match a (b # bs) =
     (if b = 0 then Some True
      else (case a of [] \<Rightarrow> None
            | x # xs \<Rightarrow> if x \<noteq> b then Some False else strstr_match xs bs))"

fun strstr_from :: "u8 list \<Rightarrow> u8 list \<Rightarrow> nat option option" where
  "strstr_from [] sub = None"
| "strstr_from (c # cs) sub =
     (if c = 0 then Some None
      else if c \<noteq> hd sub then map_option (map_option Suc) (strstr_from cs sub)
      else (case strstr_match (c # cs) sub of
              None \<Rightarrow> None
            | Some True \<Rightarrow> Some (Some 0)
            | Some False \<Rightarrow> map_option (map_option Suc) (strstr_from cs sub)))"

definition strstr :: "u8 list \<Rightarrow> u8 list \<Rightarrow> nat option option" where
  "strstr string substring =
     (case substring of [] \<Rightarrow> None
      | b # _ \<Rightarrow> if b = 0 then Some (Some 0) else strstr_from string substring)"

text \<open>
  The \<open>for (;;)\<close> of \<open>strrstr\<close>; \<open>off\<close> is how far \<open>haystack\<close> has advanced.  It is entered with a
  non-empty needle, for which \<open>strstr\<close> on an exhausted object reads past its end.
\<close>

function strrstr_loop :: "u8 list \<Rightarrow> u8 list \<Rightarrow> nat \<Rightarrow> nat option \<Rightarrow> nat option option" where
  "strrstr_loop haystack needle off result =
     (if haystack = [] then None
      else case strstr haystack needle of
             None \<Rightarrow> None
           | Some None \<Rightarrow> Some result
           | Some (Some p) \<Rightarrow>
               strrstr_loop (drop (Suc p) haystack) needle (off + Suc p) (Some (off + p)))"
  by pat_completeness auto
termination
  by (relation "measure (\<lambda>(h, n, off, r). length h)") auto

declare strrstr_loop.simps [simp del]

definition strrstr :: "u8 list \<Rightarrow> u8 list \<Rightarrow> nat option option" where
  "strrstr haystack needle =
     (case needle of [] \<Rightarrow> None
      | b # _ \<Rightarrow> if b = 0 then Some (Some 0) else strrstr_loop haystack needle 0 None)"

section \<open>Comparing, measuring, copying\<close>

fun strcmp :: "u8 list \<Rightarrow> u8 list \<Rightarrow> int option" where
  "strcmp (a # as) (b # bs) =
     (if a = b \<and> a \<noteq> 0 then strcmp as bs else Some (sint a - sint b))"
| "strcmp _ _ = None"

fun strcasecmp :: "u8 list \<Rightarrow> u8 list \<Rightarrow> int option" where
  "strcasecmp (a # as) (b # bs) =
     (if a OR 32 = b OR 32 \<and> a \<noteq> 0 then strcasecmp as bs else Some (sint a - sint b))"
| "strcasecmp _ _ = None"

fun strlen :: "u8 list \<Rightarrow> nat option" where
  "strlen [] = None"
| "strlen (c # cs) = (if c = 0 then Some 0 else map_option Suc (strlen cs))"

fun strcpy_loop :: "u8 list \<Rightarrow> nat \<Rightarrow> u8 list \<Rightarrow> u8 list option" where
  "strcpy_loop dest i [] = None"
| "strcpy_loop dest i (c # src) =
     (if c = 0 then arr_put dest i 0
      else do { dest' \<leftarrow> arr_put dest i c; strcpy_loop dest' (Suc i) src })"

definition strcpy :: "u8 list \<Rightarrow> u8 list \<Rightarrow> u8 list option" where
  "strcpy dest src = strcpy_loop dest 0 src"

text \<open>
  \<open>while (--n) *d++ = 0\<close>, with \<open>n\<close> a \<open>size_t\<close>: entered with 0 it wraps and writes on until it
  leaves the object.
\<close>

function strncpy_pad :: "u8 list \<Rightarrow> nat \<Rightarrow> nat \<Rightarrow> u8 list option" where
  "strncpy_pad dest i n =
     (let n' = (n + (2 ^ 64 - 1)) mod 2 ^ 64 in
      if n' = 0 then Some dest
      else if i < length dest then strncpy_pad (dest[i := 0]) (Suc i) n'
      else None)"
  by pat_completeness auto
termination
  by (relation "measure (\<lambda>(dest, i, n). length dest - i)") auto

declare strncpy_pad.simps [simp del]

text \<open>
  \<open>while (n-- > 0) if ((*d++ = *src++) == 0) while (--n) *d++ = 0;\<close>: after the padding loop
  \<open>n\<close> is 0 and the outer loop ends.
\<close>

fun strncpy_loop :: "u8 list \<Rightarrow> nat \<Rightarrow> u8 list \<Rightarrow> nat \<Rightarrow> u8 list option" where
  "strncpy_loop dest i src 0 = Some dest"
| "strncpy_loop dest i [] (Suc n) = None"
| "strncpy_loop dest i (c # src) (Suc n) =
     do { dest' \<leftarrow> arr_put dest i c;
          if c = 0 then strncpy_pad dest' (Suc i) n else strncpy_loop dest' (Suc i) src n }"

definition strncpy :: "u8 list \<Rightarrow> u8 list \<Rightarrow> nat \<Rightarrow> u8 list option" where
  "strncpy dest src n = strncpy_loop dest 0 src n"

section \<open>split\_string\_by\_char\<close>

text \<open>First pass: the separators before the NUL, and whether \<open>str[0]\<close> is one.\<close>

fun count_sep :: "u8 list \<Rightarrow> u8 \<Rightarrow> nat option" where
  "count_sep [] sep = None"
| "count_sep (c # cs) sep =
     (if c = 0 then Some 0
      else map_option (\<lambda>k. if c = sep then Suc k else k) (count_sep cs sep))"

text \<open>
  Second pass from \<open>index\<close> on: copy, turn separators into NULs, record where sections start.
  \<open>sections\<close> are offsets into \<open>start\<close>, newest last.
\<close>

fun split_loop :: "u8 list \<Rightarrow> u8 \<Rightarrow> nat \<Rightarrow> u8 list \<Rightarrow> nat list \<Rightarrow> (nat list \<times> u8 list) option" where
  "split_loop [] sep index start sections = None"
| "split_loop (c # cs) sep index start sections =
     (if c = 0 then Some (sections, start)
      else do { start' \<leftarrow> arr_put start index (if c = sep then 0 else c);
                split_loop cs sep (Suc index) start'
                  (if c = sep then sections @ [Suc index] else sections) })"

text \<open>The result: \<open>*section_count\<close>, the section offsets and the zeroed copy buffer.\<close>

definition split_string_by_char :: "u8 list \<Rightarrow> u8 \<Rightarrow> (nat \<times> nat list \<times> u8 list) option" where
  "split_string_by_char str sep =
     do { k \<leftarrow> count_sep str sep;
          c0 \<leftarrow> arr_get str 0;
          len \<leftarrow> strlen str;
          let index = (if c0 \<noteq> sep then 0 else 1);
          let n_count = (if c0 \<noteq> sep then Suc k else k);
          (secs, start) \<leftarrow> split_loop (drop index str) sep index (replicate (Suc len) 0) [index];
          Some (n_count, secs, start) }"

section \<open>Lengths and searches on terminated strings\<close>

lemma strlen_cstr: "cstr s \<Longrightarrow> strlen (s @ 0 # r) = Some (length s)"
  by (induction s) auto

lemma strlen_None: "strlen s = None \<longleftrightarrow> 0 \<notin> set s"
  by (induction s) auto

definition occurs_at :: "u8 list \<Rightarrow> u8 list \<Rightarrow> nat \<Rightarrow> bool" where
  "occurs_at n h i \<longleftrightarrow> prefix n (drop i h)"

fun first_occ :: "u8 list \<Rightarrow> u8 list \<Rightarrow> nat option" where
  "first_occ n [] = None"
| "first_occ n (c # cs) = (if prefix n (c # cs) then Some 0 else map_option Suc (first_occ n cs))"

fun last_occ :: "u8 list \<Rightarrow> u8 list \<Rightarrow> nat option" where
  "last_occ n [] = None"
| "last_occ n (c # cs) =
     (case last_occ n cs of Some i \<Rightarrow> Some (Suc i)
      | None \<Rightarrow> if prefix n (c # cs) then Some 0 else None)"

lemma occurs_at_Cons_Suc [simp]: "occurs_at n (c # cs) (Suc i) \<longleftrightarrow> occurs_at n cs i"
  by (simp add: occurs_at_def)

lemma occurs_at_0 [simp]: "occurs_at n h 0 \<longleftrightarrow> prefix n h"
  by (simp add: occurs_at_def)

lemma occurs_at_Nil [simp]: "n \<noteq> [] \<Longrightarrow> \<not> occurs_at n [] i"
  by (simp add: occurs_at_def)

lemma first_occ_None: "n \<noteq> [] \<Longrightarrow> first_occ n h = None \<longleftrightarrow> (\<forall>i. \<not> occurs_at n h i)"
proof (induction h)
  case (Cons c h)
  have "(\<forall>i. \<not> occurs_at n (c # h) i) \<longleftrightarrow> \<not> prefix n (c # h) \<and> (\<forall>i. \<not> occurs_at n h i)"
    by (metis occurs_at_0 occurs_at_Cons_Suc not0_implies_Suc)
  with Cons show ?case by auto
qed simp

lemma first_occ_Some:
  "n \<noteq> [] \<Longrightarrow> first_occ n h = Some i \<Longrightarrow> occurs_at n h i \<and> (\<forall>j < i. \<not> occurs_at n h j)"
proof (induction h arbitrary: i)
  case (Cons c h)
  show ?case
  proof (cases "prefix n (c # h)")
    case False
    with Cons.prems obtain k where k: "first_occ n h = Some k" "i = Suc k" by auto
    from Cons.IH [OF Cons.prems(1) k(1)] k(2) False show ?thesis
      by (auto simp: less_Suc_eq_0_disj)
  qed (use Cons.prems in auto)
qed simp

lemma last_occ_None: "n \<noteq> [] \<Longrightarrow> last_occ n h = None \<longleftrightarrow> (\<forall>i. \<not> occurs_at n h i)"
proof (induction h)
  case (Cons c h)
  have "(\<forall>i. \<not> occurs_at n (c # h) i) \<longleftrightarrow> \<not> prefix n (c # h) \<and> (\<forall>i. \<not> occurs_at n h i)"
    by (metis occurs_at_0 occurs_at_Cons_Suc not0_implies_Suc)
  with Cons show ?case by (auto split: option.splits)
qed simp

lemma last_occ_Some:
  "n \<noteq> [] \<Longrightarrow> last_occ n h = Some i \<Longrightarrow> occurs_at n h i \<and> (\<forall>j > i. \<not> occurs_at n h j)"
proof (induction h arbitrary: i)
  case (Cons c h)
  show ?case
  proof (cases "last_occ n h")
    case None
    with Cons.prems have "prefix n (c # h)" "i = 0" by (auto split: if_splits)
    moreover have "\<forall>j. \<not> occurs_at n h j" using None Cons.prems(1) by (simp add: last_occ_None)
    ultimately show ?thesis by (auto simp: gr0_conv_Suc)
  next
    case (Some k)
    with Cons.IH [OF Cons.prems(1) Some] Cons.prems show ?thesis
      by (auto simp: Suc_less_eq2)
  qed
qed simp

lemma strstr_match_cstr: "cstr n \<Longrightarrow> strstr_match (a @ 0 # r) (n @ 0 # r') = Some (prefix n a)"
proof (induction n arbitrary: a)
  case (Cons b bs)
  then show ?case by (cases a) auto
qed simp

lemma strstr_from_cstr:
  "cstr h \<Longrightarrow> cstr n \<Longrightarrow> n \<noteq> [] \<Longrightarrow> strstr_from (h @ 0 # r) (n @ 0 # r') = Some (first_occ n h)"
proof (induction h)
  case (Cons c h)
  have m: "strstr_match (c # h @ 0 # r) (n @ 0 # r') = Some (prefix n (c # h))"
    using strstr_match_cstr [of n "c # h"] Cons.prems by simp
  obtain b n' where n: "n = b # n'" using Cons.prems by (cases n) auto
  have IH: "strstr_from (h @ 0 # r) (n @ 0 # r') = Some (first_occ n h)"
    using Cons by simp
  show ?case
  proof (cases "c = b")
    case True
    with m IH Cons.prems n show ?thesis by (cases "prefix n (c # h)") simp_all
  next
    case False
    with IH Cons.prems n show ?thesis by simp
  qed
qed simp

lemma strstr_cstr:
  "cstr h \<Longrightarrow> cstr n \<Longrightarrow> n \<noteq> [] \<Longrightarrow> strstr (h @ 0 # r) (n @ 0 # r') = Some (first_occ n h)"
  using strstr_from_cstr [of h n r r'] by (cases n) (simp_all add: strstr_def)

lemma first_occ_le: "first_occ n h = Some p \<Longrightarrow> p < length h"
  by (induction h arbitrary: p) (auto split: if_splits)

lemma last_occ_after_first:
  "first_occ n h = Some p \<Longrightarrow>
   last_occ n h = (case last_occ n (drop (Suc p) h) of None \<Rightarrow> Some p | Some i \<Rightarrow> Some (Suc p + i))"
proof (induction h arbitrary: p)
  case (Cons c h)
  then show ?case by (cases "prefix n (c # h)") (auto split: option.splits)
qed simp

lemma last_occ_first_None: "first_occ n h = None \<Longrightarrow> last_occ n h = None"
  by (induction h) (auto split: if_splits)

lemma strrstr_loop_cstr:
  assumes "cstr h" "cstr n" "n \<noteq> []"
  shows "strrstr_loop (h @ 0 # r) (n @ 0 # r') off res =
     Some (case last_occ n h of None \<Rightarrow> res | Some i \<Rightarrow> Some (off + i))"
  using assms(1)
proof (induction "length h" arbitrary: h off res rule: less_induct)
  case less
  have s: "strstr (h @ 0 # r) (n @ 0 # r') = Some (first_occ n h)"
    using less.prems assms by (simp add: strstr_cstr)
  show ?case
  proof (cases "first_occ n h")
    case None
    with s show ?thesis by (subst strrstr_loop.simps) (simp add: last_occ_first_None)
  next
    case (Some p)
    have p: "p < length h" using Some by (rule first_occ_le)
    have "cstr (drop (Suc p) h)"
      using less.prems by (metis append_take_drop_id cstr_append)
    then have "strrstr_loop (drop (Suc p) h @ 0 # r) (n @ 0 # r') (off + Suc p) (Some (off + p)) =
        Some (case last_occ n (drop (Suc p) h) of None \<Rightarrow> Some (off + p)
              | Some i \<Rightarrow> Some (off + Suc p + i))"
      using p by (intro less.hyps) auto
    with s Some p last_occ_after_first [OF Some] show ?thesis
      by (subst strrstr_loop.simps) (auto split: option.splits)
  qed
qed

section \<open>The order of strcmp\<close>

text \<open>
  \<open>char\<close> is signed, so \<open>strcmp\<close> orders strings by the signed values of their characters, the
  terminating NUL included.
\<close>

definition strkey :: "u8 list \<Rightarrow> int list" where
  "strkey s = map sint s @ [0]"

lemma sint_eq_iff: "sint a = sint b \<longleftrightarrow> a = b" for a b :: "'a::len word"
  by (auto intro: signed_word_eqI)

lemma strkey_inj: "strkey s = strkey t \<longleftrightarrow> s = t"
  by (auto simp: strkey_def inj_map_eq_map inj_def sint_eq_iff)

lemma strcmp_cstr:
  assumes "cstr s" "cstr t"
  shows "\<exists>k. strcmp (s @ 0 # r) (t @ 0 # r') = Some k \<and>
    (k = 0 \<longleftrightarrow> s = t) \<and> (k < 0 \<longleftrightarrow> strkey s < strkey t)"
  using assms
proof (induction s arbitrary: t)
  case Nil
  show ?case
  proof (cases t)
    case (Cons b bs)
    with Nil show ?thesis using sint_eq_iff [of b 0] by (auto simp: strkey_def)
  qed (simp add: strkey_def)
next
  case (Cons a s)
  show ?case
  proof (cases t)
    case Nil
    with Cons.prems show ?thesis using sint_eq_iff [of a 0] by (auto simp: strkey_def)
  next
    case (Cons b bs)
    then show ?thesis
      using Cons.IH [of bs] Cons.prems sint_eq_iff [of a b] \<open>t = b # bs\<close>
      by (cases "a = b") (auto simp: strkey_def)
  qed
qed

lemma or_32_eq: "a OR 32 = 32 \<Longrightarrow> a = 0 \<or> a = 32" for a :: u8
proof -
  assume "a OR 32 = 32"
  then have "a = a AND 32" by (metis word_ao_absorbs(3))
  then have e: "a = a AND push_bit 5 1" by simp
  define m :: u8 where "m = push_bit 5 1"
  have m: "bit m n \<longleftrightarrow> n = 5" for n
    unfolding m_def bit_push_bit_iff bit_1_iff by (auto simp: possible_bit_word)
  have "a = (if bit a 5 then m else 0)"
  proof (rule bit_word_eqI)
    fix n assume "n < LENGTH(8)"
    have "bit a n = (bit a n \<and> n = 5)"
      using e m by (metis bit_and_iff m_def)
    then show "bit a n = bit (if bit a 5 then m else 0) n"
      by (auto simp: m)
  qed
  then show ?thesis by (auto simp: m_def split: if_splits)
qed

lemma strcasecmp_cstr:
  assumes "cstr s" "cstr t" "0x20 \<notin> set s"
  shows "\<exists>k. strcasecmp (s @ 0 # r) (t @ 0 # r') = Some k \<and>
    (k = 0 \<longleftrightarrow> map (\<lambda>c. c OR 32) s = map (\<lambda>c. c OR 32) t)"
  using assms
proof (induction s arbitrary: t)
  case Nil
  show ?case
  proof (cases t)
    case (Cons b bs)
    with Nil show ?thesis using sint_eq_iff [of b 0] by auto
  qed simp
next
  case (Cons a s)
  have a32: "a OR 32 \<noteq> 0 OR 32"
    using or_32_eq [of a] Cons.prems by auto
  show ?case
  proof (cases t)
    case Nil
    with Cons.prems a32 show ?thesis using sint_eq_iff [of a 0] by auto
  next
    case (Cons b bs)
    then show ?thesis
      using Cons.IH [of bs] Cons.prems sint_eq_iff [of a b] \<open>t = b # bs\<close>
      by (cases "a OR 32 = b OR 32") auto
  qed
qed

section \<open>What the copies write\<close>

lemma strcpy_loop_cstr:
  assumes "cstr s" "i + length s < length dest"
  shows "strcpy_loop dest i (s @ 0 # r) =
    Some (take i dest @ s @ 0 # drop (Suc (i + length s)) dest)"
  using assms
proof (induction s arbitrary: dest i)
  case Nil
  then show ?case by (simp add: upd_conv_take_nth_drop)
next
  case (Cons c s)
  have "take (Suc i) (dest[i := c]) = take i dest @ [c]"
    using Cons.prems by (simp add: take_Suc_conv_app_nth)
  with Cons show ?case by (simp add: drop_update_cancel)
qed

lemma strncpy_pad_zeros:
  assumes "0 < n" "n < 2 ^ 64" "i + (n - 1) \<le> length dest"
  shows "strncpy_pad dest i n = Some (take i dest @ replicate (n - 1) 0 @ drop (i + (n - 1)) dest)"
  using assms
proof (induction "n - 1" arbitrary: dest i n)
  case 0
  then have "n = 1" by simp
  then show ?case by (subst strncpy_pad.simps) simp
next
  case (Suc k)
  then have n: "n = Suc (Suc k)" by simp
  have m: "(n + (2 ^ 64 - 1)) mod 2 ^ 64 = Suc k"
  proof -
    have "n + (2 ^ 64 - 1) = Suc k + 2 ^ 64" using n by simp
    then have "(n + (2 ^ 64 - 1)) mod 2 ^ 64 = Suc k mod 2 ^ 64" by (simp only: mod_add_self2)
    then show ?thesis using Suc.prems n by simp
  qed
  have "strncpy_pad (dest[i := 0]) (Suc i) (Suc k) =
      Some (take (Suc i) (dest[i := 0]) @ replicate k 0 @ drop (Suc i + k) (dest[i := 0]))"
    using Suc.hyps(1) [of "Suc k" "Suc i" "dest[i := 0]"] Suc.prems n by simp
  moreover have "take (Suc i) (dest[i := 0]) = take i dest @ [0]"
    using Suc.prems n by (simp add: take_Suc_conv_app_nth)
  ultimately show ?case
    using Suc.prems m n by (subst strncpy_pad.simps) (simp add: drop_update_cancel)
qed

text \<open>Entered with \<open>n = 0\<close> the padding loop runs off every object shorter than 16 EiB.\<close>

lemma strncpy_pad_short: "length dest - i < n - 1 \<Longrightarrow> 0 < n \<Longrightarrow> n < 2 ^ 64 \<Longrightarrow> strncpy_pad dest i n = None"
proof (induction "length dest - i" arbitrary: dest i n)
  case 0
  then have "(n + (2 ^ 64 - 1)) mod 2 ^ 64 \<noteq> 0" by (simp add: mod_if)
  with 0 show ?case by (subst strncpy_pad.simps) simp
next
  case (Suc k)
  then obtain m where n: "n = Suc (Suc m)" by (metis Suc_diff_1 less_nat_zero_code not0_implies_Suc diff_Suc_1)
  have m: "(n + (2 ^ 64 - 1)) mod 2 ^ 64 = Suc m"
  proof -
    have "n + (2 ^ 64 - 1) = Suc m + 2 ^ 64" using n by simp
    then have "(n + (2 ^ 64 - 1)) mod 2 ^ 64 = Suc m mod 2 ^ 64" by (simp only: mod_add_self2)
    then show ?thesis using Suc.prems n by simp
  qed
  have "strncpy_pad (dest[i := 0]) (Suc i) (Suc m) = None"
    using Suc.hyps Suc.prems n by (intro Suc.hyps(1)) auto
  then show ?case using m by (subst strncpy_pad.simps) simp
qed

lemma strncpy_pad_wraps:
  assumes "length dest < 2 ^ 64 - 1"
  shows "strncpy_pad dest i 0 = None"
proof (cases "i < length dest")
  case True
  have "strncpy_pad (dest[i := 0]) (Suc i) (2 ^ 64 - 1) = None"
    using assms True by (intro strncpy_pad_short) auto
  then show ?thesis by (subst strncpy_pad.simps) simp
next
  case False
  then show ?thesis by (subst strncpy_pad.simps) simp
qed

lemma take_Suc_update: "i < length xs \<Longrightarrow> take (Suc i) (xs[i := x]) = take i xs @ [x]"
  by (simp add: take_Suc_conv_app_nth)

lemma strncpy_loop_long:
  "cstr s \<Longrightarrow> n \<le> length s \<Longrightarrow> i + n \<le> length dest \<Longrightarrow>
   strncpy_loop dest i (s @ 0 # r) n = Some (take i dest @ take n s @ drop (i + n) dest)"
proof (induction n arbitrary: dest i s)
  case (Suc n)
  then obtain c s' where s: "s = c # s'" by (cases s) auto
  with Suc show ?case by (simp add: take_Suc_update drop_update_cancel)
qed simp

lemma strncpy_loop_short:
  "cstr s \<Longrightarrow> length s < n \<Longrightarrow> i + length s < length dest \<Longrightarrow>
   strncpy_loop dest i (s @ 0 # r) n =
     strncpy_pad (take i dest @ s @ 0 # drop (Suc (i + length s)) dest)
       (Suc (i + length s)) (n - Suc (length s))"
proof (induction s arbitrary: dest i n)
  case Nil
  then obtain k where "n = Suc k" by (cases n) auto
  with Nil show ?case by (simp add: upd_conv_take_nth_drop)
next
  case (Cons c s)
  then obtain k where "n = Suc k" by (cases n) auto
  with Cons show ?case by (simp add: take_Suc_update drop_update_cancel)
qed

text \<open>A bounded copy that stops before a terminator or any other byte.\<close>

lemma strncpy_loop_exact:
  "cstr s \<Longrightarrow> i + length s \<le> length dest \<Longrightarrow>
   strncpy_loop dest i (s @ t) (length s) = Some (take i dest @ s @ drop (i + length s) dest)"
proof (induction s arbitrary: i dest)
  case (Cons c s)
  then show ?case by (simp add: take_Suc_update drop_update_cancel)
qed simp

lemma strncpy_loop_at:
  assumes "cstr s" "length s + 1 < n" "i + (n - 1) \<le> length dest" "n < 2 ^ 64"
  shows "strncpy_loop dest i (s @ 0 # r) n =
    Some (take i dest @ s @ replicate (n - 1 - length s) 0 @ drop (i + (n - 1)) dest)"
proof -
  let ?d = "take i dest @ s @ 0 # drop (Suc (i + length s)) dest"
  let ?k = "n - Suc (length s)" and ?m = "Suc (i + length s)"
  have len: "length ?d = length dest" using assms by simp
  have "strncpy_loop dest i (s @ 0 # r) n = strncpy_pad ?d ?m ?k"
    by (rule strncpy_loop_short) (use assms in auto)
  also have "\<dots> = Some (take ?m ?d @ replicate (?k - 1) 0 @ drop (?m + (?k - 1)) ?d)"
    by (rule strncpy_pad_zeros) (use assms len in auto)
  also have "take ?m ?d = take i dest @ s @ [0]" using assms by simp
  also have "drop (?m + (?k - 1)) ?d = drop (i + (n - 1)) dest"
  proof -
    have "drop (length (take i dest @ s @ [0]) + j) ((take i dest @ s @ [0]) @ drop ?m dest) = drop (?m + j) dest" for j
      using assms by (simp add: add.commute)
    from this [of "?k - 1"] have "drop (?m + (?k - 1)) ?d = drop (?m + (?k - 1)) dest"
      using assms by (simp add: min_def)
    moreover have "?m + (?k - 1) = i + (n - 1)" using assms by simp
    ultimately show ?thesis by (simp only:)
  qed
  finally have eq: "strncpy_loop dest i (s @ 0 # r) n =
    Some (take i dest @ s @ (0 # replicate (?k - 1) 0) @ drop (i + (n - 1)) dest)" by simp
  have "n - 1 - length s = Suc (?k - 1)" using assms by simp
  then have "replicate (n - 1 - length s) (0 :: u8) = 0 # replicate (?k - 1) 0" by (simp only: replicate_Suc)
  then show ?thesis unfolding eq by (simp only:)
qed

section \<open>split\_string\_by\_char cuts into components\<close>

fun components :: "u8 \<Rightarrow> u8 list \<Rightarrow> u8 list list" where
  "components sep [] = [[]]"
| "components sep (c # cs) =
     (if c = sep then [] # components sep cs
      else (c # hd (components sep cs)) # tl (components sep cs))"

fun sep_offs :: "u8 \<Rightarrow> nat \<Rightarrow> u8 list \<Rightarrow> nat list" where
  "sep_offs sep i [] = []"
| "sep_offs sep i (c # cs) = (if c = sep then [Suc i] else []) @ sep_offs sep (Suc i) cs"

abbreviation zap :: "u8 \<Rightarrow> u8 list \<Rightarrow> u8 list" where
  "zap sep \<equiv> map (\<lambda>c. if c = sep then 0 else c)"

lemma components_ne: "components sep s \<noteq> []"
  by (induction s) auto

lemma components_single: "sep \<notin> set p \<Longrightarrow> components sep p = [p]"
  by (induction p) auto

lemma components_split: "sep \<notin> set p \<Longrightarrow> components sep (p @ sep # s) = p # components sep s"
  by (induction p) auto

lemma length_sep_offs: "length (sep_offs sep i s) = count_list s sep"
  by (induction s arbitrary: i) auto

lemma count_sep_cstr: "cstr s \<Longrightarrow> sep \<noteq> 0 \<Longrightarrow> count_sep (s @ 0 # r) sep = Some (count_list s sep)"
  by (induction s) auto

lemma split_loop_cstr:
  "cstr s \<Longrightarrow> sep \<noteq> 0 \<Longrightarrow> i + length s \<le> length start \<Longrightarrow>
   split_loop (s @ 0 # r) sep i start secs =
     Some (secs @ sep_offs sep i s, take i start @ zap sep s @ drop (i + length s) start)"
proof (induction s arbitrary: i start secs)
  case (Cons c s)
  then show ?case by (simp add: take_Suc_update drop_update_cancel)
qed simp

lemma cstr_at_zap:
  assumes "cstr s" "sep \<noteq> 0"
  shows "map (cstr_at (pre @ zap sep s @ 0 # r)) (length pre # sep_offs sep (length pre) s)
       = components sep s"
  using assms
proof (induction s arbitrary: pre)
  case Nil
  then show ?case by (simp add: cstr_at_def)
next
  case (Cons c s)
  let ?c = "if c = sep then 0 else c"
  have IH: "map (cstr_at ((pre @ [?c]) @ zap sep s @ 0 # r))
      (length (pre @ [?c]) # sep_offs sep (length (pre @ [?c])) s) = components sep s"
    by (rule Cons.IH) (use Cons.prems in auto)
  then have tl: "map (cstr_at (pre @ zap sep (c # s) @ 0 # r)) (sep_offs sep (Suc (length pre)) s)
      = tl (components sep s)"
    and hd: "cstr_at (pre @ zap sep (c # s) @ 0 # r) (Suc (length pre)) = hd (components sep s)"
    by (auto simp: components_ne dest: arg_cong [of _ _ tl] arg_cong [of _ _ hd])
  have "cstr_at (pre @ zap sep (c # s) @ 0 # r) (length pre) =
      (if c = sep then [] else c # cstr_at (pre @ zap sep (c # s) @ 0 # r) (Suc (length pre)))"
    using Cons.prems by (auto simp: cstr_at_def)
  with tl hd show ?case by (cases "c = sep") (simp_all add: components_ne)
qed

lemma sep_offs_le: "k \<in> set (sep_offs sep i s) \<Longrightarrow> k \<le> i + length s"
  by (induction s arbitrary: i) (fastforce split: if_splits)+

lemma drop_section: "k \<le> length X \<Longrightarrow> \<exists>q. drop k (X @ [0]) = cstr_at (X @ [0]) k @ 0 # q"
proof -
  have "\<exists>q. Y @ [0] = takeWhile (\<lambda>c. c \<noteq> 0) (Y @ [0]) @ 0 # q" for Y :: "u8 list"
    by (induction Y) auto
  moreover assume "k \<le> length X"
  ultimately show ?thesis by (simp add: cstr_at_def)
qed

lemma split_string_paths:
  assumes "cstr s" "sep \<noteq> 0"
  defines "s' \<equiv> (if s \<noteq> [] \<and> hd s = sep then tl s else s)"
  shows "\<exists>secs start. split_string_by_char (s @ 0 # r) sep = Some (length secs, secs, start) \<and>
    map (cstr_at start) secs = components sep s' \<and>
    (\<forall>k \<in> set secs. \<exists>q. drop k start = cstr_at start k @ 0 # q)"
proof (cases "s \<noteq> [] \<and> hd s = sep")
  case True
  then obtain t where s: "s = sep # t" by (cases s) auto
  have sp: "split_loop (t @ 0 # r) sep 1 (replicate (Suc (length s)) 0) [1] =
      Some (1 # sep_offs sep 1 t, [0] @ zap sep t @ 0 # [])"
    using split_loop_cstr [of t sep 1 "replicate (Suc (length s)) 0" r "[1]"] assms s
    by (simp add: drop_Cons' replicate_app_Cons_same flip: replicate_Suc) simp
  have "map (cstr_at ([0] @ zap sep t @ 0 # [])) (1 # sep_offs sep 1 t) = components sep t"
    using cstr_at_zap [of t sep "[0]" "[]"] assms s by simp
  moreover have "split_string_by_char (s @ 0 # r) sep =
      Some (Suc (count_list t sep), 1 # sep_offs sep 1 t, [0] @ zap sep t @ 0 # [])"
    using assms s sp strlen_cstr [of s r] count_sep_cstr [of s sep r]
    by (simp add: split_string_by_char_def)
  moreover have "\<forall>k \<in> set (1 # sep_offs sep 1 t).
      \<exists>q. drop k ([0] @ zap sep t @ [0]) = cstr_at ([0] @ zap sep t @ [0]) k @ 0 # q"
    using sep_offs_le [of _ sep 1 t] drop_section [of _ "[0] @ zap sep t"] by force
  ultimately show ?thesis
    using s assms by (auto simp: length_sep_offs s'_def)
next
  case False
  have sp: "split_loop (s @ 0 # r) sep 0 (replicate (Suc (length s)) 0) [0] =
      Some (0 # sep_offs sep 0 s, zap sep s @ 0 # [])"
    using split_loop_cstr [of s sep 0 "replicate (Suc (length s)) 0" r "[0]"] assms
    by (simp add: drop_Cons' replicate_app_Cons_same flip: replicate_Suc) simp
  have "map (cstr_at (zap sep s @ 0 # [])) (0 # sep_offs sep 0 s) = components sep s"
    using cstr_at_zap [of s sep "[]" "[]"] assms by simp
  moreover have "split_string_by_char (s @ 0 # r) sep =
      Some (Suc (count_list s sep), 0 # sep_offs sep 0 s, zap sep s @ 0 # [])"
    using assms False sp strlen_cstr [of s r] count_sep_cstr [of s sep r]
    by (cases s) (auto simp: split_string_by_char_def)
  moreover have "\<forall>k \<in> set (0 # sep_offs sep 0 s).
      \<exists>q. drop k (zap sep s @ [0]) = cstr_at (zap sep s @ [0]) k @ 0 # q"
    using sep_offs_le [of _ sep 0 s] drop_section [of _ "zap sep s"] by force
  ultimately show ?thesis
    using False by (auto simp: length_sep_offs s'_def)
qed

lemma split_string_by_char_cstr:
  assumes "cstr s" "sep \<noteq> 0"
  shows "\<exists>secs start. split_string_by_char (s @ 0 # r) sep = Some (length secs, secs, start) \<and>
    map (cstr_at start) secs =
      components sep (if s \<noteq> [] \<and> hd s = sep then tl s else s)"
  using split_string_paths [OF assms, of r] by blast

section \<open>Properties\<close>

text \<open>
  \<open>strstr\<close> returns the first place the needle occurs and \<open>strrstr\<close> the last, and both return
  NULL exactly when it occurs nowhere; neither reads past the terminators.
\<close>

theorem strstr_first_strrstr_last:
  assumes "cstr h" and "cstr n" and "n \<noteq> []"
  shows "\<exists>p q. strstr (h @ 0 # r) (n @ 0 # r') = Some p \<and> strrstr (h @ 0 # r) (n @ 0 # r') = Some q \<and>
    (case p of None \<Rightarrow> q = None \<and> (\<forall>i. \<not> occurs_at n h i)
     | Some i \<Rightarrow> occurs_at n h i \<and> (\<forall>j < i. \<not> occurs_at n h j) \<and>
         (\<exists>l. q = Some l \<and> occurs_at n h l \<and> (\<forall>j > l. \<not> occurs_at n h j)))"
proof -
  have s: "strstr (h @ 0 # r) (n @ 0 # r') = Some (first_occ n h)"
    using assms by (rule strstr_cstr)
  have t: "strrstr (h @ 0 # r) (n @ 0 # r') = Some (last_occ n h)"
    using strrstr_loop_cstr [OF assms, of r r' 0 None] assms
    by (cases n) (auto simp: strrstr_def split: option.splits)
  show ?thesis
  proof (cases "first_occ n h")
    case None
    then show ?thesis
      using s t first_occ_None [OF assms(3), of h] by (simp add: last_occ_first_None)
  next
    case (Some i)
    then obtain l where l: "last_occ n h = Some l"
      using last_occ_None [OF assms(3)] first_occ_Some [OF assms(3) Some] by blast
    show ?thesis
      using s t Some l first_occ_Some [OF assms(3) Some] last_occ_Some [OF assms(3) l] by auto
  qed
qed

theorem strstr_first_strrstr_last_witness:
  "cstr (of_str ''abcabc'') \<and> (\<exists>p q. strstr (of_str ''abcabc'' @ [0]) (of_str ''bc'' @ [0]) = Some p \<and>
     strrstr (of_str ''abcabc'' @ [0]) (of_str ''bc'' @ [0]) = Some q)"
proof -
  have h: "cstr (of_str ''abcabc'')" "cstr (of_str ''bc'')" "of_str ''bc'' \<noteq> []" by code_simp+
  show ?thesis using h(1) strstr_first_strrstr_last [OF h, of "[]" "[]"] by blast
qed

text \<open>
  \<open>strcmp\<close> on terminated strings is a three-way comparison for a linear order: the result is 0
  exactly on equal strings and negative exactly when the first comes before the second in
  the order by signed characters (the NUL included).
\<close>

theorem strcmp_linear_order:
  assumes "cstr s" and "cstr t"
  shows "\<exists>k. strcmp (s @ 0 # r) (t @ 0 # r') = Some k \<and>
    (k = 0 \<longleftrightarrow> s = t) \<and> (k < 0 \<longleftrightarrow> strkey s < strkey t)"
  using assms by (rule strcmp_cstr)

theorem strcmp_linear_order_witness:
  "cstr (of_str ''dev'') \<and> (\<exists>k. strcmp (of_str ''dev'' @ [0]) (of_str ''proc'' @ [0]) = Some k \<and>
     (k < 0 \<longleftrightarrow> strkey (of_str ''dev'') < strkey (of_str ''proc'')))"
proof -
  have h: "cstr (of_str ''dev'')" "cstr (of_str ''proc'')" by code_simp+
  show ?thesis using h(1) strcmp_linear_order [OF h, of "[]" "[]"] by blast
qed

text \<open>
  \<open>strcasecmp\<close> returns 0 exactly when the strings agree up to bit 5 of every character,
  provided the first holds no space: a space is equal to NUL up to bit 5, and with one the
  comparison runs past the terminator of the shorter string (as on \<open>"a "\<close> against \<open>"a"\<close>).
\<close>

theorem strcasecmp_up_to_bit5:
  assumes "cstr s" and "cstr t" and "0x20 \<notin> set s"
  shows "\<exists>k. strcasecmp (s @ 0 # r) (t @ 0 # r') = Some k \<and>
    (k = 0 \<longleftrightarrow> map (\<lambda>c. c OR 32) s = map (\<lambda>c. c OR 32) t)"
  using assms by (rule strcasecmp_cstr)

theorem strcasecmp_up_to_bit5_witness:
  "(\<exists>k. strcasecmp (of_str ''Readme'' @ [0]) (of_str ''README'' @ [0]) = Some k \<and> k = 0) \<and>
   strcasecmp (of_str ''a '' @ [0]) (of_str ''a'' @ [0]) = None"
proof -
  have h: "cstr (of_str ''Readme'')" "cstr (of_str ''README'')" "0x20 \<notin> set (of_str ''Readme'')"
    by code_simp+
  have "map (\<lambda>c. c OR 32) (of_str ''Readme'') = map (\<lambda>c. c OR 32) (of_str ''README'')"
    by code_simp
  moreover have "strcasecmp (of_str ''a '' @ [0]) (of_str ''a'' @ [0]) = None"
    by code_simp
  ultimately show ?thesis
    using strcasecmp_up_to_bit5 [OF h, of "[]" "[]"] by auto
qed

text \<open>
  What \<open>strncpy\<close> does with \<open>n\<close> bytes, on every branch.  A source of \<open>n\<close> or more characters
  is cut to \<open>n\<close> (no NUL is written).  A source shorter than \<open>n - 1\<close> is copied with its NUL
  and padded with zeros up to byte \<open>n - 2\<close>: byte \<open>n - 1\<close> keeps its old value.  A source of
  exactly \<open>n - 1\<close> characters makes the padding counter wrap, and the call writes on past the
  end of every destination.
\<close>

theorem strncpy_all_branches:
  assumes "cstr s" and "n \<le> length dest" and "length dest < 2 ^ 64 - 1"
  shows "strncpy dest (s @ 0 # r) n =
    (if n \<le> length s then Some (take n s @ drop n dest)
     else if length s + 1 < n then Some (s @ replicate (n - 1 - length s) 0 @ drop (n - 1) dest)
     else None)"
proof -
  have a: "strncpy dest (s @ 0 # r) n = Some (take n s @ drop n dest)" if "n \<le> length s"
    using strncpy_loop_long [of s n 0 dest r] assms that by (simp add: strncpy_def)
  let ?d = "s @ 0 # drop (Suc (length s)) dest"
  have short: "strncpy dest (s @ 0 # r) n = strncpy_pad ?d (Suc (length s)) (n - Suc (length s))"
    if "length s < n"
    using strncpy_loop_short [of s n 0 dest r] assms that by (simp add: strncpy_def)
  have b: "strncpy dest (s @ 0 # r) n = Some (s @ replicate (n - 1 - length s) 0 @ drop (n - 1) dest)"
    if "length s + 1 < n"
    using strncpy_loop_at [of s n 0 dest r] assms that by (simp add: strncpy_def)
  have c: "strncpy dest (s @ 0 # r) n = None" if "length s + 1 = n"
    using short that assms strncpy_pad_wraps [of ?d] by simp
  from a b c show ?thesis by auto
qed

theorem strncpy_all_branches_witness:
  "strncpy [9, 9, 9, 9, 9] (of_str ''ab'' @ [0]) 5 = Some (of_str ''ab'' @ [0, 0, 9]) \<and>
   strncpy [9, 9, 9, 9, 9] (of_str ''ab'' @ [0]) 3 = None"
proof -
  have h: "cstr (of_str ''ab'')" by code_simp
  have l: "length (of_str ''ab'') = 2" by code_simp
  let ?d = "[9, 9, 9, 9, 9] :: u8 list"
  have d: "length ?d < 2 ^ 64 - 1" "5 \<le> length ?d" "3 \<le> length ?d" by simp_all
  have e: "replicate (5 - 1 - 2) (0 :: u8) = [0, 0]" "drop (5 - 1) ?d = [9]" by code_simp+
  show ?thesis
    using strncpy_all_branches [OF h d(2) d(1), of "[]"]
      strncpy_all_branches [OF h d(3) d(1), of "[]"] unfolding l e by simp
qed

text \<open>
  C28. \<open>split_string_by_char\<close> on a terminated string reports as many sections as it returns, and
  section \<open>k\<close>, read as a string from the copy buffer, is the \<open>k\<close>-th component between the
  separators (a leading separator starts no empty component).
\<close>

theorem split_string_by_char_components:
  assumes "cstr s" and "sep \<noteq> 0"
  shows "\<exists>secs start. split_string_by_char (s @ 0 # r) sep = Some (length secs, secs, start) \<and>
    map (cstr_at start) secs =
      components sep (if s \<noteq> [] \<and> hd s = sep then tl s else s)"
  using assms by (rule split_string_by_char_cstr)

theorem split_string_by_char_components_witness:
  "\<exists>secs start. split_string_by_char (of_str ''/a/bc'' @ [0]) 47 = Some (length secs, secs, start) \<and>
     map (cstr_at start) secs = [of_str ''a'', of_str ''bc'']"
proof -
  have h: "cstr (of_str ''/a/bc'')" "(47 :: u8) \<noteq> 0" by code_simp+
  have "components 47 (if of_str ''/a/bc'' \<noteq> [] \<and> hd (of_str ''/a/bc'') = 47
      then tl (of_str ''/a/bc'') else of_str ''/a/bc'') = [of_str ''a'', of_str ''bc'']"
    by code_simp
  then show ?thesis using split_string_by_char_components [OF h, of "[]"] by simp
qed

end
