(* ===== verification/Heap.thy ===== *)
theory Heap
  imports Prelude MemPrims
begin

text \<open>
  The kernel heap of \<open>kernel/src/memory.c\<close>: a doubly linked list of segment headers laid out in
  one contiguous region, first-fit \<open>kmalloc\<close>, coalescing \<open>free\<close>.  Headers are kept in a map from
  addresses to \<open>HEAP_SEG_HEADER\<close> records (an access to an address that holds no header is
  \<^const>\<open>None\<close>), payload bytes in the byte store of \<open>MemPrims\<close>; NULL is address 0 and all
  \<open>uint64_t\<close> arithmetic wraps.  The page allocator is an argument of the operations that grow
  the heap.  The heap is refined to a list of segments, and the list to the set of live blocks,
  which is the contract (\<open>block_allocator\<close>) that users of the heap rely on.
\<close>

section \<open>State\<close>

record HEAP_SEG_HEADER =
  previous_hdr :: nat
  next_hdr :: nat
  seg_len :: nat
  seg_free :: bool

record heap =
  hdrs :: "nat \<Rightarrow> HEAP_SEG_HEADER option"
  last_hdr :: nat
  heap_start :: nat
  heap_end :: nat
  hmem :: mem

text \<open>\<open>sizeof(HEAP_SEG_HEADER)\<close>: two pointers, a \<open>uint64_t\<close> and a padded \<open>bool\<close>.\<close>

definition hdr_size :: nat where "hdr_size = 32"

definition sub64 :: "nat \<Rightarrow> nat \<Rightarrow> nat" where
  "sub64 a b = (if b \<le> a then a - b else wrap64 (a + (2 ^ 64 - b)))"

definition upd_hdr :: "nat \<Rightarrow> (HEAP_SEG_HEADER \<Rightarrow> HEAP_SEG_HEADER) \<Rightarrow> heap \<Rightarrow> heap option" where
  "upd_hdr a f h = do { s \<leftarrow> hdrs h a; Some (h\<lparr>hdrs := (hdrs h)(a \<mapsto> f s)\<rparr>) }"

section \<open>Operations\<close>

definition SPLIT_HEAP_SEGMENT :: "nat \<Rightarrow> nat \<Rightarrow> heap \<Rightarrow> heap option" where
  "SPLIT_HEAP_SEGMENT seg len h = do {
     s \<leftarrow> hdrs h seg;
     let n_hdr = wrap64 (seg + hdr_size + len);
     let n = \<lparr>previous_hdr = seg, next_hdr = next_hdr s,
              seg_len = sub64 (sub64 (seg_len s) len) hdr_size, seg_free = True\<rparr>;
     let h = h\<lparr>hdrs := (hdrs h)(n_hdr \<mapsto> n)\<rparr>;
     h \<leftarrow> upd_hdr seg (\<lambda>s. s\<lparr>next_hdr := n_hdr, seg_len := len\<rparr>) h;
     n \<leftarrow> hdrs h n_hdr;
     h \<leftarrow> (if next_hdr n \<noteq> 0 then upd_hdr (next_hdr n) (\<lambda>x. x\<lparr>previous_hdr := n_hdr\<rparr>) h else Some h);
     Some (if seg = last_hdr h then h\<lparr>last_hdr := n_hdr\<rparr> else h) }"

definition JOIN_HEAP_NEXT_SEGMENT :: "nat \<Rightarrow> heap \<Rightarrow> heap option" where
  "JOIN_HEAP_NEXT_SEGMENT seg h = do {
     s \<leftarrow> hdrs h seg;
     n \<leftarrow> hdrs h (next_hdr s);
     h \<leftarrow> (if next_hdr n \<noteq> 0 then upd_hdr (next_hdr n) (\<lambda>x. x\<lparr>previous_hdr := seg\<rparr>) h else Some h);
     h \<leftarrow> upd_hdr seg (\<lambda>s. s\<lparr>next_hdr := next_hdr n,
             seg_len := wrap64 (seg_len s + (seg_len n + hdr_size))\<rparr>) h;
     Some (if next_hdr n = 0 then h\<lparr>last_hdr := seg\<rparr> else h) }"

text \<open>
  The loop of \<open>EXPAND_HEAP\<close>: a fresh page at \<open>heap_end + 0x1000 * i\<close> for each \<open>i\<close>.  \<open>i\<close> is an
  \<open>int\<close>, so the offset is an \<open>int\<close> product.  \<open>mp a\<close> is \<open>map_mem(a, REQUEST_PAGE())\<close>.
\<close>

fun expand_pages :: "(nat \<Rightarrow> 'p \<Rightarrow> 'p option) \<Rightarrow> nat \<Rightarrow> nat \<Rightarrow> nat \<Rightarrow> 'p \<Rightarrow> 'p option" where
  "expand_pages mp base i 0 p = Some p"
| "expand_pages mp base i (Suc k) p = do {
     p \<leftarrow> mp (nat ((int base + wrap_s32 (4096 * int i)) mod 2 ^ 64)) p;
     expand_pages mp base (Suc i) k p }"

definition EXPAND_HEAP :: "(nat \<Rightarrow> 'p \<Rightarrow> 'p option) \<Rightarrow> nat \<Rightarrow> heap \<Rightarrow> 'p \<Rightarrow> (heap \<times> 'p) option" where
  "EXPAND_HEAP mp sz h p = do {
     let pages = sz div 4096;
     p \<leftarrow> expand_pages mp (heap_end h) 0 pages p;
     l \<leftarrow> hdrs h (last_hdr h);
     h \<leftarrow> (if seg_free l
           then upd_hdr (last_hdr h) (\<lambda>s. s\<lparr>seg_len := wrap64 (seg_len s + 4096 * pages)\<rparr>) h
           else Some h);
     Some (h\<lparr>heap_end := wrap64 (heap_end h + 4096 * pages)\<rparr>, p) }"

definition INIT_HEAP ::
  "(nat \<Rightarrow> nat \<Rightarrow> 'p \<Rightarrow> 'p option) \<Rightarrow> nat \<Rightarrow> nat \<Rightarrow> heap \<Rightarrow> 'p \<Rightarrow> (heap \<times> 'p) option" where
  "INIT_HEAP request_mapped adr pages h p = do {
     p \<leftarrow> request_mapped adr (wrap64 (4096 * pages)) p;
     Some (h\<lparr>heap_start := adr, heap_end := wrap64 (adr + 4096 * pages), last_hdr := adr,
             hdrs := (hdrs h)(adr \<mapsto> \<lparr>previous_hdr = 0, next_hdr = 0,
                               seg_len = sub64 (wrap64 (4096 * pages)) hdr_size, seg_free = True\<rparr>)\<rparr>, p) }"

text \<open>The \<open>while (true)\<close> of \<open>kmalloc\<close>: the first free header whose segment is long enough.\<close>

partial_function (option) kmalloc_scan :: "heap \<Rightarrow> nat \<Rightarrow> nat \<Rightarrow> nat option option" where
  "kmalloc_scan h sz cur = do {
     c \<leftarrow> hdrs h cur;
     if seg_free c \<and> wrap64 (sz + hdr_size) < seg_len c then Some (Some cur)
     else if next_hdr c = 0 then Some None
     else kmalloc_scan h sz (next_hdr c) }"

partial_function (option) kmalloc ::
  "(nat \<Rightarrow> 'p \<Rightarrow> 'p option) \<Rightarrow> nat \<Rightarrow> heap \<Rightarrow> 'p \<Rightarrow> (nat \<times> heap \<times> 'p) option" where
  "kmalloc mp sz h p =
     (if sz = 0 then Some (0, h, p)
      else do {
        found \<leftarrow> kmalloc_scan h sz (heap_start h);
        case found of
          Some cur \<Rightarrow> do {
            h \<leftarrow> SPLIT_HEAP_SEGMENT cur sz h;
            h \<leftarrow> upd_hdr cur (\<lambda>s. s\<lparr>seg_free := False\<rparr>) h;
            Some (wrap64 (cur + hdr_size), h, p) }
        | None \<Rightarrow> do {
            r \<leftarrow> EXPAND_HEAP mp sz h p;
            kmalloc mp sz (fst r) (snd r) } })"

definition kcalloc ::
  "(nat \<Rightarrow> 'p \<Rightarrow> 'p option) \<Rightarrow> nat \<Rightarrow> heap \<Rightarrow> 'p \<Rightarrow> (nat \<times> heap \<times> 'p) option" where
  "kcalloc mp sz h p = do {
     (adr, h, p) \<leftarrow> kmalloc mp sz h p;
     Some (adr, h\<lparr>hmem := memset (hmem h) adr 0 sz\<rparr>, p) }"

partial_function (option) free_forward :: "nat \<Rightarrow> heap \<Rightarrow> heap option" where
  "free_forward cur h = do {
     c \<leftarrow> hdrs h cur;
     if next_hdr c = 0 then Some h
     else do {
       n \<leftarrow> hdrs h (next_hdr c);
       if seg_free n then do { h \<leftarrow> JOIN_HEAP_NEXT_SEGMENT cur h; free_forward cur h }
       else Some h } }"

partial_function (option) free_backward :: "nat \<Rightarrow> heap \<Rightarrow> heap option" where
  "free_backward cur h = do {
     c \<leftarrow> hdrs h cur;
     if previous_hdr c = 0 then Some h
     else do {
       n \<leftarrow> hdrs h (previous_hdr c);
       if seg_free n
       then do { h \<leftarrow> JOIN_HEAP_NEXT_SEGMENT (previous_hdr c) h; free_backward (previous_hdr c) h }
       else Some h } }"

definition free :: "nat \<Rightarrow> heap \<Rightarrow> heap option" where
  "free adr h = do {
     let cur = sub64 adr hdr_size;
     h \<leftarrow> upd_hdr cur (\<lambda>s. s\<lparr>seg_free := True\<rparr>) h;
     h \<leftarrow> free_forward cur h;
     free_backward cur h }"

definition krealloc ::
  "(nat \<Rightarrow> 'p \<Rightarrow> 'p option) \<Rightarrow> nat \<Rightarrow> nat \<Rightarrow> heap \<Rightarrow> 'p \<Rightarrow> (nat \<times> heap \<times> 'p) option" where
  "krealloc mp adr sz h p = do {
     (loc, h, p) \<leftarrow> kcalloc mp sz h p;
     cur \<leftarrow> hdrs h (sub64 adr hdr_size);
     let h = h\<lparr>hmem := memcpy (hmem h) loc adr (min sz (seg_len cur))\<rparr>;
     h \<leftarrow> free adr h;
     Some (loc, h, p) }"

section \<open>The segment list a heap represents\<close>

type_synonym seg = "nat \<times> bool"

text \<open>
  \<open>chain H p a segs e\<close>: from address \<open>a\<close> on, with predecessor \<open>p\<close>, the headers describe \<open>segs\<close>
  laid out one after the other, and the last one's \<open>next_hdr\<close> is \<open>e\<close>.
\<close>

fun chain :: "(nat \<Rightarrow> HEAP_SEG_HEADER option) \<Rightarrow> nat \<Rightarrow> nat \<Rightarrow> seg list \<Rightarrow> nat \<Rightarrow> bool" where
  "chain H p a [] e \<longleftrightarrow> True"
| "chain H p a ((l, f) # ss) e \<longleftrightarrow>
     H a = Some \<lparr>previous_hdr = p, next_hdr = (if ss = [] then e else a + hdr_size + l),
                 seg_len = l, seg_free = f\<rparr> \<and>
     chain H a (a + hdr_size + l) ss e"

fun span :: "seg list \<Rightarrow> nat" where
  "span [] = 0"
| "span ((l, f) # ss) = hdr_size + l + span ss"

fun last_addr :: "nat \<Rightarrow> nat \<Rightarrow> seg list \<Rightarrow> nat" where
  "last_addr p a [] = p"
| "last_addr p a ((l, f) # ss) = last_addr a (a + hdr_size + l) ss"

fun blocks :: "nat \<Rightarrow> seg list \<Rightarrow> (nat \<times> nat) list" where
  "blocks a [] = []"
| "blocks a ((l, f) # ss) =
     (if f then [] else [(a + hdr_size, l)]) @ blocks (a + hdr_size + l) ss"

fun no_adjacent_free :: "seg list \<Rightarrow> bool" where
  "no_adjacent_free (x # y # ss) \<longleftrightarrow> \<not> (snd x \<and> snd y) \<and> no_adjacent_free (y # ss)"
| "no_adjacent_free _ \<longleftrightarrow> True"

definition heap_inv :: "heap \<Rightarrow> seg list \<Rightarrow> bool" where
  "heap_inv h segs \<longleftrightarrow>
     segs \<noteq> [] \<and> 0 < heap_start h \<and> heap_end h < 2 ^ 64 \<and>
     chain (hdrs h) 0 (heap_start h) segs 0 \<and>
     last_hdr h = last_addr 0 (heap_start h) segs \<and>
     heap_end h = heap_start h + span segs \<and>
     snd (last segs) \<and> no_adjacent_free segs"

section \<open>Fragments of the chain\<close>

lemma hdr_size_pos [simp]: "0 < hdr_size"
  by (simp add: hdr_size_def)

lemma hdr_size_ne [simp]: "hdr_size \<noteq> 0"
  by (simp add: hdr_size_def)

lemma sub64_le [simp]: "b \<le> a \<Longrightarrow> sub64 a b = a - b"
  by (simp add: sub64_def)

lemma span_append [simp]: "span (xs @ ys) = span xs + span ys"
  by (induction xs) auto

lemma last_addr_append [simp]: "last_addr p a (xs @ ys) = last_addr (last_addr p a xs) (a + span xs) ys"
  by (induction xs arbitrary: p a) (auto simp: add_ac)

lemma blocks_append [simp]: "blocks a (xs @ ys) = blocks a xs @ blocks (a + span xs) ys"
  by (induction xs arbitrary: a) (auto simp: add_ac)

lemma chain_append:
  "chain H p a (xs @ ys) e \<longleftrightarrow>
     chain H p a xs (if ys = [] then e else a + span xs) \<and> chain H (last_addr p a xs) (a + span xs) ys e"
  by (induction xs arbitrary: p a) (auto simp: add_ac)

lemma chain_frame:
  assumes "chain H p a segs e" and "\<And>b. a \<le> b \<Longrightarrow> b < a + span segs \<Longrightarrow> H' b = H b"
  shows "chain H' p a segs e"
  using assms
proof (induction segs arbitrary: p a)
  case (Cons x ss)
  obtain l f where x: "x = (l, f)" by (cases x)
  have "H' a = H a" using Cons.prems(2) [of a] x by simp
  moreover have "chain H' a (a + hdr_size + l) ss e"
    using Cons.prems x by (intro Cons.IH) auto
  ultimately show ?case using Cons.prems(1) x by simp
qed simp

lemma chain_upd_below:
  "chain H p a segs e \<Longrightarrow> b < a \<Longrightarrow> chain (H(b \<mapsto> r)) p a segs e"
  by (erule chain_frame) auto

lemma chain_upd_above:
  "chain H p a segs e \<Longrightarrow> a + span segs \<le> b \<Longrightarrow> chain (H(b \<mapsto> r)) p a segs e"
  by (erule chain_frame) auto

lemma last_addr_ge: "segs \<noteq> [] \<Longrightarrow> a \<le> last_addr p a segs"
proof (induction segs arbitrary: p a)
  case (Cons x ss)
  obtain l f where x: "x = (l, f)" by (cases x)
  have "ss \<noteq> [] \<Longrightarrow> a + hdr_size + l \<le> last_addr a (a + hdr_size + l) ss"
    by (rule Cons.IH)
  then show ?case using x by (cases ss) auto
qed simp

lemma last_addr_less: "p < a \<Longrightarrow> last_addr p a segs < a + span segs"
  by (induction p a segs rule: last_addr.induct) (auto simp: add_ac)

text \<open>The first header of a fragment, with another predecessor.\<close>

lemma chain_reprev:
  "chain H p a (s # ss) e \<Longrightarrow>
   chain (H(a \<mapsto> (the (H a))\<lparr>previous_hdr := q\<rparr>)) q a (s # ss) e"
  by (cases s) (auto intro: chain_upd_below)

lemma no_adjacent_free_append:
  "no_adjacent_free (xs @ ys) \<longleftrightarrow> no_adjacent_free xs \<and> no_adjacent_free ys \<and>
     (xs = [] \<or> ys = [] \<or> \<not> (snd (last xs) \<and> snd (hd ys)))"
  by (induction xs rule: no_adjacent_free.induct; cases ys; auto)

section \<open>Splitting and joining\<close>

text \<open>A heap whose chain is \<open>xs @ (l, f) # ys\<close>, seen from the segment in the middle.\<close>

definition zoom :: "heap \<Rightarrow> seg list \<Rightarrow> nat \<Rightarrow> bool \<Rightarrow> seg list \<Rightarrow> bool" where
  "zoom h xs l f ys \<longleftrightarrow>
     0 < heap_start h \<and> heap_start h + span (xs @ (l, f) # ys) < 2 ^ 64 \<and>
     chain (hdrs h) 0 (heap_start h) (xs @ (l, f) # ys) 0 \<and>
     last_hdr h = last_addr 0 (heap_start h) (xs @ (l, f) # ys)"

definition at_seg :: "heap \<Rightarrow> seg list \<Rightarrow> nat" where
  "at_seg h xs = heap_start h + span xs"

lemma zoom_hdr:
  "zoom h xs l f ys \<Longrightarrow> hdrs h (at_seg h xs) =
     Some \<lparr>previous_hdr = last_addr 0 (heap_start h) xs,
           next_hdr = (if ys = [] then 0 else at_seg h xs + hdr_size + l), seg_len = l, seg_free = f\<rparr>"
  by (simp add: zoom_def at_seg_def chain_append)

lemma zoom_next:
  "zoom h xs l f ((m, g) # ys) \<Longrightarrow> zoom h (xs @ [(l, f)]) m g ys"
  by (simp add: zoom_def)

lemma zoom_set_free:
  assumes "zoom h xs l f ys"
  shows "\<exists>h'. upd_hdr (at_seg h xs) (\<lambda>s. s\<lparr>seg_free := g\<rparr>) h = Some h' \<and> zoom h' xs l g ys \<and>
    heap_start h' = heap_start h \<and> heap_end h' = heap_end h \<and> hmem h' = hmem h"
  using assms zoom_hdr [OF assms]
  by (auto simp: upd_hdr_def zoom_def chain_append at_seg_def intro: chain_upd_below chain_upd_above)

lemma zoom_split:
  assumes z: "zoom h xs l f ys" and len: "n + hdr_size < l"
  shows "\<exists>h'. SPLIT_HEAP_SEGMENT (at_seg h xs) n h = Some h' \<and>
    zoom h' xs n f ((l - n - hdr_size, True) # ys) \<and>
    heap_start h' = heap_start h \<and> heap_end h' = heap_end h \<and> hmem h' = hmem h"
proof -
  let ?c = "at_seg h xs"
  let ?n = "?c + hdr_size + n"
  let ?e = "?c + hdr_size + l"
  have w: "wrap64 ?n = ?n"
    using z len by (intro wrap64_small) (auto simp: zoom_def at_seg_def)
  have s: "sub64 (sub64 l n) hdr_size = l - n - hdr_size" using len by simp
  have ch: "chain (hdrs h) 0 (heap_start h) xs ?c" "chain (hdrs h) ?c ?e ys 0"
    using z by (auto simp: zoom_def chain_append at_seg_def)
  show ?thesis
  proof (cases ys)
    case Nil
    with zoom_hdr [OF z] z len ch show ?thesis
      unfolding SPLIT_HEAP_SEGMENT_def
      by (auto simp: w s upd_hdr_def zoom_def chain_append at_seg_def Let_def
               intro!: chain_upd_above)
  next
    case (Cons y ys')
    obtain m g where y: "y = (m, g)" by (cases y)
    have e: "hdrs h ?e = Some \<lparr>previous_hdr = ?c, next_hdr = (if ys' = [] then 0 else ?e + hdr_size + m),
        seg_len = m, seg_free = g\<rparr>" using ch(2) Cons y by simp
    have lt: "?c < ?n" "?n < ?e" "?e \<noteq> 0" using len by auto
    have ne: "?n + hdr_size + (l - n - hdr_size) = ?e" using len by simp
    have l: "last_hdr h \<noteq> ?c"
    proof -
      have "?e \<le> last_addr ?c ?e (y # ys')" by (rule last_addr_ge) simp
      then show ?thesis using lt Cons z by (simp add: at_seg_def add_ac zoom_def)
    qed
    let ?C = "\<lparr>previous_hdr = last_addr 0 (heap_start h) xs, next_hdr = ?n, seg_len = n, seg_free = f\<rparr>"
    let ?N = "\<lparr>previous_hdr = ?c, next_hdr = ?e, seg_len = l - n - hdr_size, seg_free = True\<rparr>"
    let ?H = "(hdrs h)(?n \<mapsto> ?N, ?c \<mapsto> ?C, ?e \<mapsto> (the (hdrs h ?e))\<lparr>previous_hdr := ?n\<rparr>)"
    have "SPLIT_HEAP_SEGMENT ?c n h = Some (h\<lparr>hdrs := ?H\<rparr>)"
      using zoom_hdr [OF z] e lt l len Cons unfolding SPLIT_HEAP_SEGMENT_def
      by (simp add: w s upd_hdr_def Let_def)
    moreover have B: "chain ?H ?n ?e ys 0"
    proof -
      have "chain ((hdrs h)(?e \<mapsto> (the (hdrs h ?e))\<lparr>previous_hdr := ?n\<rparr>)) ?n ?e ys 0"
        using ch(2) unfolding Cons by (rule chain_reprev)
      then show ?thesis by (rule chain_frame) (use lt in auto)
    qed
    moreover have C: "chain ?H 0 (heap_start h) xs ?c"
      using ch(1) lt by (intro chain_upd_above) (auto simp: at_seg_def)
    moreover have D: "last_addr ?n ?e ys = last_addr ?c ?e ys" using Cons by (cases y) simp
    moreover have "zoom (h\<lparr>hdrs := ?H\<rparr>) xs n f ((l - n - hdr_size, True) # ys)"
    proof -
      let ?zs = "(n, f) # (l - n - hdr_size, True) # ys"
      have "chain ?H (last_addr 0 (heap_start h) xs) ?c ?zs 0"
        using B lt Cons by (simp add: ne del: diff_diff_left)
      then have ch': "chain ?H 0 (heap_start h) (xs @ ?zs) 0"
        using C by (subst chain_append) (simp add: at_seg_def del: chain.simps diff_diff_left)
      have la: "last_addr 0 (heap_start h) (xs @ ?zs) = last_addr ?n ?e ys"
        by (simp add: ne [unfolded at_seg_def] at_seg_def del: diff_diff_left)
      have "last_hdr h = last_addr 0 (heap_start h) (xs @ ?zs)"
        unfolding la D using z by (simp add: zoom_def at_seg_def)
      moreover have "span (xs @ ?zs) = span (xs @ (l, f) # ys)" using len by simp
      ultimately show ?thesis
        using z ch' unfolding zoom_def by (simp del: chain.simps diff_diff_left last_addr.simps span_append)
    qed
    ultimately show ?thesis by auto
  qed
qed

lemma zoom_join:
  assumes z: "zoom h xs l f ((m, g) # ys)"
  shows "\<exists>h'. JOIN_HEAP_NEXT_SEGMENT (at_seg h xs) h = Some h' \<and>
    zoom h' xs (l + hdr_size + m) f ys \<and>
    heap_start h' = heap_start h \<and> heap_end h' = heap_end h \<and> hmem h' = hmem h"
proof -
  let ?c = "at_seg h xs"
  let ?n = "?c + hdr_size + l"
  let ?e = "?n + hdr_size + m"
  let ?l = "l + (m + hdr_size)"
  have w: "wrap64 ?l = ?l"
    using z by (intro wrap64_small) (auto simp: zoom_def at_seg_def)
  have ch: "chain (hdrs h) 0 (heap_start h) xs ?c" "chain (hdrs h) ?n ?e ys 0"
    using z by (auto simp: zoom_def chain_append at_seg_def add_ac)
  have c: "hdrs h ?c = Some \<lparr>previous_hdr = last_addr 0 (heap_start h) xs, next_hdr = ?n,
      seg_len = l, seg_free = f\<rparr>"
    using zoom_hdr [OF z] by simp
  have n: "hdrs h ?n = Some \<lparr>previous_hdr = ?c, next_hdr = (if ys = [] then 0 else ?e),
      seg_len = m, seg_free = g\<rparr>"
    using z by (auto simp: zoom_def chain_append at_seg_def)
  have lt: "?c < ?n" "?n < ?e" "?n \<noteq> 0" "?e \<noteq> 0" by auto
  have e': "?c + hdr_size + ?l = ?e" by simp
  show ?thesis
  proof (cases ys)
    case Nil
    let ?H = "(hdrs h)(?c \<mapsto> \<lparr>previous_hdr = last_addr 0 (heap_start h) xs, next_hdr = 0,
      seg_len = ?l, seg_free = f\<rparr>)"
    have "JOIN_HEAP_NEXT_SEGMENT ?c h = Some (h\<lparr>hdrs := ?H, last_hdr := ?c\<rparr>)"
      using c n Nil by (simp add: JOIN_HEAP_NEXT_SEGMENT_def upd_hdr_def w)
    moreover have "chain ?H 0 (heap_start h) xs ?c"
      using ch(1) by (intro chain_upd_above) (auto simp: at_seg_def)
    ultimately show ?thesis using z Nil by (auto simp: zoom_def chain_append at_seg_def)
  next
    case (Cons y ys')
    obtain k b where y: "y = (k, b)" by (cases y)
    have e: "hdrs h ?e = Some \<lparr>previous_hdr = ?n, next_hdr = (if ys' = [] then 0 else ?e + hdr_size + k),
        seg_len = k, seg_free = b\<rparr>" using ch(2) Cons y by simp
    let ?E = "(the (hdrs h ?e))\<lparr>previous_hdr := ?c\<rparr>"
    let ?H = "(hdrs h)(?e \<mapsto> ?E, ?c \<mapsto> \<lparr>previous_hdr = last_addr 0 (heap_start h) xs, next_hdr = ?e,
      seg_len = ?l, seg_free = f\<rparr>)"
    have "JOIN_HEAP_NEXT_SEGMENT ?c h = Some (h\<lparr>hdrs := ?H\<rparr>)"
      using c n e lt Cons by (simp add: JOIN_HEAP_NEXT_SEGMENT_def upd_hdr_def w)
    moreover have "chain ?H 0 (heap_start h) xs ?c"
      using ch(1) by (intro chain_upd_above) (auto simp: at_seg_def)
    moreover have "chain ?H ?c ?e ys 0"
    proof -
      have "chain ((hdrs h)(?e \<mapsto> ?E)) ?c ?e ys 0"
        using ch(2) unfolding Cons by (rule chain_reprev)
      then show ?thesis by (rule chain_upd_below) (use lt in auto)
    qed
    moreover have "last_addr ?c ?e ys = last_addr ?n ?e ys" using Cons by (cases y) simp
    ultimately show ?thesis
      using z lt e' Cons by (auto simp: zoom_def chain_append at_seg_def add_ac)
  qed
qed

section \<open>kmalloc on a well-formed heap\<close>

fun fits :: "nat \<Rightarrow> seg \<Rightarrow> bool" where
  "fits n (l, f) \<longleftrightarrow> f \<and> n + hdr_size < l"

fun first_fit :: "nat \<Rightarrow> nat \<Rightarrow> seg list \<Rightarrow> nat option" where
  "first_fit n a [] = None"
| "first_fit n a ((l, f) # ss) = (if fits n (l, f) then Some a else first_fit n (a + hdr_size + l) ss)"

lemma heap_inv_zoom:
  "heap_inv h (xs @ (l, f) # ys) \<longleftrightarrow> zoom h xs l f ys \<and>
     heap_end h = heap_start h + span (xs @ (l, f) # ys) \<and>
     snd (last (xs @ (l, f) # ys)) \<and> no_adjacent_free (xs @ (l, f) # ys)"
  by (auto simp: heap_inv_def zoom_def)

lemma first_fit_None: "first_fit n a segs = None \<longleftrightarrow> (\<forall>s \<in> set segs. \<not> fits n s)"
  by (induction n a segs rule: first_fit.induct) auto

lemma first_fit_Some:
  assumes "first_fit n a segs = Some c"
  shows "\<exists>xs l ys. segs = xs @ (l, True) # ys \<and> n + hdr_size < l \<and> c = a + span xs \<and>
    (\<forall>s \<in> set xs. \<not> fits n s)"
  using assms
proof (induction n a segs rule: first_fit.induct)
  case (2 n a l f ss)
  show ?case
  proof (cases "fits n (l, f)")
    case True
    with 2 show ?thesis by (intro exI [of _ "[]"]) auto
  next
    case False
    with 2 obtain xs m ys where "ss = xs @ (m, True) # ys" "n + hdr_size < m"
      "c = a + hdr_size + l + span xs" "\<forall>s \<in> set xs. \<not> fits n s" by auto
    with False show ?thesis by (intro exI [of _ "(l, f) # xs"]) auto
  qed
qed simp

lemma kmalloc_scan_zoom:
  assumes "zoom h xs l f ys" and "n + hdr_size < 2 ^ 64"
  shows "kmalloc_scan h n (at_seg h xs) = Some (first_fit n (at_seg h xs) ((l, f) # ys))"
  using assms
proof (induction ys arbitrary: xs l f)
  case Nil
  then show ?case by (subst kmalloc_scan.simps) (simp add: zoom_hdr)
next
  case (Cons y ys)
  obtain m g where y: "y = (m, g)" by (cases y)
  have z: "zoom h (xs @ [(l, f)]) m g ys" using Cons.prems y by (simp add: zoom_next)
  have a: "at_seg h (xs @ [(l, f)]) = at_seg h xs + hdr_size + l" by (simp add: at_seg_def)
  show ?case
    using Cons.IH [OF z Cons.prems(2)] Cons.prems y unfolding a
    by (subst kmalloc_scan.simps) (simp add: zoom_hdr)
qed

lemma heap_inv_cases:
  assumes "heap_inv h segs"
  obtains l f ys where "segs = (l, f) # ys" "zoom h [] l f ys"
proof -
  from assms obtain s ys where s: "segs = s # ys" by (cases segs) (auto simp: heap_inv_def)
  obtain l f where "s = (l, f)" by (cases s)
  with s assms heap_inv_zoom [of h "[]" l f ys] show thesis by (auto intro: that)
qed

lemma kmalloc_scan_heap:
  assumes "heap_inv h segs" and "n + hdr_size < 2 ^ 64"
  shows "kmalloc_scan h n (heap_start h) = Some (first_fit n (heap_start h) segs)"
proof -
  from assms(1) obtain l f ys where "segs = (l, f) # ys" "zoom h [] l f ys" by (rule heap_inv_cases)
  with kmalloc_scan_zoom [of h "[]" l f ys n] assms(2) show ?thesis by (simp add: at_seg_def)
qed

lemma kmalloc_fit:
  assumes inv: "heap_inv h (xs @ (l, True) # ys)" and n: "0 < n" "n + hdr_size < l"
    and first: "\<forall>s \<in> set xs. \<not> fits n s"
  shows "\<exists>h'. kmalloc mp n h p = Some (heap_start h + span xs + hdr_size, h', p) \<and>
    heap_inv h' (xs @ (n, False) # (l - n - hdr_size, True) # ys) \<and>
    heap_start h' = heap_start h \<and> heap_end h' = heap_end h \<and> hmem h' = hmem h"
proof -
  have z: "zoom h xs l True ys" using inv by (simp add: heap_inv_zoom)
  have small: "at_seg h xs + hdr_size + l < 2 ^ 64" using z by (simp add: zoom_def at_seg_def)
  have ff: "first_fit n (heap_start h) (xs @ (l, True) # ys) = Some (at_seg h xs)"
  proof -
    have "first_fit n a (xs @ (l, True) # ys) = Some (a + span xs)" for a
      using first n by (induction xs arbitrary: a) (auto simp: add_ac)
    then show ?thesis by (simp add: at_seg_def)
  qed
  obtain h1 where h1: "SPLIT_HEAP_SEGMENT (at_seg h xs) n h = Some h1"
    "zoom h1 xs n True ((l - n - hdr_size, True) # ys)"
    "heap_start h1 = heap_start h" "heap_end h1 = heap_end h" "hmem h1 = hmem h"
    using zoom_split [OF z n(2)] by auto
  obtain h2 where h2: "upd_hdr (at_seg h xs) (\<lambda>s. s\<lparr>seg_free := False\<rparr>) h1 = Some h2"
    "zoom h2 xs n False ((l - n - hdr_size, True) # ys)"
    "heap_start h2 = heap_start h" "heap_end h2 = heap_end h" "hmem h2 = hmem h"
    using zoom_set_free [OF h1(2), of False] h1 by (auto simp: at_seg_def)
  have "kmalloc mp n h p = Some (at_seg h xs + hdr_size, h2, p)"
    using kmalloc_scan_heap [OF inv, of n] ff n small h1(1) h2(1)
    by (subst kmalloc.simps) simp
  moreover have "heap_inv h2 (xs @ (n, False) # (l - n - hdr_size, True) # ys)"
    unfolding heap_inv_zoom
    using h2 inv n by (auto simp: heap_inv_zoom no_adjacent_free_append neq_Nil_conv split: if_splits)
  ultimately show ?thesis using h2 by (auto simp: at_seg_def)
qed

section \<open>Growing the heap\<close>

lemma expand_pages_total:
  "(\<And>a p. ok p \<Longrightarrow> \<exists>p'. mp a p = Some p' \<and> ok p') \<Longrightarrow> ok p \<Longrightarrow>
   \<exists>p'. expand_pages mp base i k p = Some p' \<and> ok p'"
proof (induction k arbitrary: i p)
  case (Suc k)
  let ?a = "nat ((int base + wrap_s32 (4096 * int i)) mod 2 ^ 64)"
  obtain q where q: "mp ?a p = Some q" "ok q" using Suc.prems by blast
  obtain q' where "expand_pages mp base (Suc i) k q = Some q'" "ok q'"
    using Suc.IH [OF Suc.prems(1) q(2)] by blast
  with q show ?case by auto
qed simp

lemma EXPAND_HEAP_grows:
  assumes inv: "heap_inv h (xs @ [(l, True)])" and grow: "heap_end h + 4096 * (n div 4096) < 2 ^ 64"
    and mp: "expand_pages mp (heap_end h) 0 (n div 4096) p = Some p'"
  shows "\<exists>h'. EXPAND_HEAP mp n h p = Some (h', p') \<and>
    heap_inv h' (xs @ [(l + 4096 * (n div 4096), True)]) \<and> heap_start h' = heap_start h \<and>
    heap_end h' = heap_end h + 4096 * (n div 4096) \<and> hmem h' = hmem h"
proof -
  let ?g = "4096 * (n div 4096)"
  have z: "zoom h xs l True []" using inv by (simp add: heap_inv_zoom)
  have e: "heap_end h = at_seg h xs + hdr_size + l"
    using inv by (simp add: heap_inv_zoom at_seg_def)
  have la: "last_hdr h = at_seg h xs" using z by (simp add: zoom_def at_seg_def)
  have w: "wrap64 (l + ?g) = l + ?g" "wrap64 (heap_end h + ?g) = heap_end h + ?g"
    using grow e by (auto intro!: wrap64_small)
  let ?h = "h\<lparr>hdrs := (hdrs h)(at_seg h xs \<mapsto> \<lparr>previous_hdr = last_addr 0 (heap_start h) xs,
     next_hdr = 0, seg_len = l + ?g, seg_free = True\<rparr>), heap_end := heap_end h + ?g\<rparr>"
  have "EXPAND_HEAP mp n h p = Some (?h, p')"
    using mp zoom_hdr [OF z] la w by (simp add: EXPAND_HEAP_def upd_hdr_def Let_def)
  moreover have "zoom ?h xs (l + ?g) True []"
    using z grow e by (auto simp: zoom_def chain_append at_seg_def intro: chain_upd_above)
  then have "heap_inv ?h (xs @ [(l + ?g, True)])"
    using inv e by (auto simp: heap_inv_zoom at_seg_def no_adjacent_free_append)
  ultimately show ?thesis by auto
qed

lemma heap_inv_last:
  assumes "heap_inv h segs" obtains xs l where "segs = xs @ [(l, True)]"
proof -
  from assms have "segs \<noteq> []" "snd (last segs)" by (auto simp: heap_inv_def)
  then have "segs = butlast segs @ [(fst (last segs), True)]"
    by (metis append_butlast_last_id prod.collapse)
  then show thesis by (rule that)
qed

lemma blocks_fit:
  assumes "segs = xs @ (l, True) # ys" and "n + hdr_size < l"
  shows "\<exists>us vs. blocks a segs = us @ vs \<and>
    blocks a (xs @ (n, False) # (l - n - hdr_size, True) # ys) = us @ (a + span xs + hdr_size, n) # vs"
proof -
  have e: "a + span xs + hdr_size + n + hdr_size + (l - n - hdr_size) = a + span xs + hdr_size + l"
    using assms(2) by simp
  show ?thesis
    by (intro exI [of _ "blocks a xs"] exI [of _ "blocks (a + span xs + hdr_size + l) ys"])
      (simp add: assms(1) e del: diff_diff_left)
qed

text \<open>
  The rounds of \<open>kmalloc\<close>.  \<open>ok k e p\<close> says of the page source's state that it can extend a heap
  that ends at \<open>e\<close> by \<open>k\<close> more rounds; \<open>k\<close> rounds are enough when they make the last segment long
  enough.
\<close>

lemma kmalloc_rounds:
  fixes ok :: "nat \<Rightarrow> nat \<Rightarrow> 'p \<Rightarrow> bool" and n :: nat
  defines "g \<equiv> 4096 * (n div 4096)"
  assumes "heap_inv h segs" and n: "0 < n" "n + hdr_size < 2 ^ 64"
    and mp: "\<And>k e p. ok (Suc k) e p \<Longrightarrow> e + g < 2 ^ 64 \<Longrightarrow>
      \<exists>p'. expand_pages mp e 0 (n div 4096) p = Some p' \<and> ok k (e + g) p'"
    and "ok k (heap_end h) p" and "heap_end h + k * g < 2 ^ 64"
    and "(\<exists>s \<in> set segs. fits n s) \<or> n + hdr_size < fst (last segs) + k * g"
  shows "\<exists>a h' p' segs' j. kmalloc mp n h p = Some (a, h', p') \<and> heap_inv h' segs' \<and>
    ok j (heap_end h') p' \<and> heap_start h' = heap_start h \<and> hmem h' = hmem h \<and>
    (\<exists>us vs. blocks (heap_start h) segs = us @ vs \<and> blocks (heap_start h) segs' = us @ (a, n) # vs)"
  using assms(2,6-)
proof (induction k arbitrary: h segs p)
  case (0 h segs p)
  obtain xs l where s: "segs = xs @ [(l, True)]" using 0(1) by (rule heap_inv_last)
  then have "\<exists>s \<in> set segs. fits n s" using 0(4) by auto
  then obtain c where "first_fit n (heap_start h) segs = Some c" using first_fit_None by (metis option.exhaust)
  from first_fit_Some [OF this] obtain xs l ys where
    s: "segs = xs @ (l, True) # ys" "n + hdr_size < l" "\<forall>s \<in> set xs. \<not> fits n s" by blast
  from kmalloc_fit [OF 0(1) [unfolded s(1)] n(1) s(2,3), of mp p] 0(2) blocks_fit [OF s(1,2), of "heap_start h"]
  show ?case by fastforce
next
  case (Suc k h segs p)
  show ?case
  proof (cases "first_fit n (heap_start h) segs")
    case (Some c)
    from first_fit_Some [OF this] obtain xs l ys where
      s: "segs = xs @ (l, True) # ys" "n + hdr_size < l" "\<forall>s \<in> set xs. \<not> fits n s" by blast
    from kmalloc_fit [OF Suc.prems(1) [unfolded s(1)] n(1) s(2,3), of mp p] Suc.prems(2)
      blocks_fit [OF s(1,2), of "heap_start h"]
    show ?thesis by fastforce
  next
    case None
    then have nf: "\<forall>s \<in> set segs. \<not> fits n s" by (simp add: first_fit_None)
    obtain xs l where s: "segs = xs @ [(l, True)]" using Suc.prems(1) by (rule heap_inv_last)
    have sp: "heap_end h + g + k * g < 2 ^ 64" using Suc.prems(3) by (simp add: add_ac)
    then obtain q where q: "expand_pages mp (heap_end h) 0 (n div 4096) p = Some q" "ok k (heap_end h + g) q"
      using mp [OF Suc.prems(2)] by auto
    from EXPAND_HEAP_grows [OF Suc.prems(1) [unfolded s] _ q(1)] sp obtain h1 where
      h1: "EXPAND_HEAP mp n h p = Some (h1, q)" "heap_inv h1 (xs @ [(l + g, True)])"
      "heap_start h1 = heap_start h" "heap_end h1 = heap_end h + g" "hmem h1 = hmem h"
      unfolding g_def by auto
    have unf: "kmalloc mp n h p = kmalloc mp n h1 q"
      using kmalloc_scan_heap [OF Suc.prems(1) n(2)] None n(1) h1(1)
      by (subst kmalloc.simps) simp
    let ?s = "xs @ [(l + g, True)]"
    have "(\<exists>s \<in> set ?s. fits n s) \<or> n + hdr_size < fst (last ?s) + k * g"
      using Suc.prems(4) nf by (auto simp: s)
    from Suc.IH [OF h1(2) _ _ this, of q] q(2) sp h1(4) obtain a h' p' segs' j us vs where
      "kmalloc mp n h1 q = Some (a, h', p')" "heap_inv h' segs'" "ok j (heap_end h') p'"
      "heap_start h' = heap_start h1" "hmem h' = hmem h1"
      "blocks (heap_start h1) ?s = us @ vs" "blocks (heap_start h1) segs' = us @ (a, n) # vs" by auto
    moreover have "blocks (heap_start h) ?s = blocks (heap_start h) segs" by (simp add: s)
    ultimately show ?thesis unfolding unf h1(3,5) by metis
  qed
qed

text \<open>
  A request of at least a page is always served: each round of \<open>EXPAND_HEAP\<close> lengthens the
  last segment, which is free, by at least half the request.
\<close>

lemma rounds_enough:
  fixes n l :: nat
  defines "g \<equiv> 4096 * (n div 4096)"
  assumes "4096 \<le> n"
  shows "\<exists>k. n + hdr_size < l + k * g \<and> k * g \<le> n + hdr_size + 1 - l + n \<and> k \<le> 3"
proof -
  have "1 \<le> n div 4096" "n < 4096 * (n div 4096) + 4096" "4096 * (n div 4096) \<le> n" using assms(2) by simp_all
  then have g: "4096 \<le> g" "g \<le> n" "n < 2 * g" unfolding g_def by linarith+
  consider "n + hdr_size < l" | "l \<le> n + hdr_size" "n + hdr_size < l + g"
    | "l + g \<le> n + hdr_size" "n + hdr_size < l + 2 * g" | "l + 2 * g \<le> n + hdr_size" by linarith
  then show ?thesis
  proof cases
    case 1
    then show ?thesis by (intro exI [of _ 0]) simp
  next
    case 2
    with g show ?thesis by (intro exI [of _ 1]) simp
  next
    case 3
    with g show ?thesis by (intro exI [of _ 2]) simp
  next
    case 4
    with g show ?thesis by (intro exI [of _ 3]) (simp add: hdr_size_def)
  qed
qed

lemma kmalloc_returns:
  assumes inv: "heap_inv h segs" and n: "0 < n" and mp: "\<And>a p. ok p \<Longrightarrow> \<exists>p'. mp a p = Some p' \<and> ok p'"
    and ok: "ok p" and big: "4096 \<le> n \<or> (\<exists>s \<in> set segs. fits n s)"
    and space: "heap_end h + (n + hdr_size + 1 - fst (last segs)) + n < 2 ^ 64"
  shows "\<exists>a h' p' segs'. kmalloc mp n h p = Some (a, h', p') \<and> heap_inv h' segs' \<and>
    ok p' \<and> heap_start h' = heap_start h \<and> hmem h' = hmem h \<and>
    (\<exists>us vs. blocks (heap_start h) segs = us @ vs \<and> blocks (heap_start h) segs' = us @ (a, n) # vs)"
proof -
  let ?g = "4096 * (n div 4096)"
  obtain k where k: "(\<exists>s \<in> set segs. fits n s) \<or> n + hdr_size < fst (last segs) + k * ?g"
    "k * ?g \<le> n + hdr_size + 1 - fst (last segs) + n"
    using big rounds_enough [of n "fst (last segs)"] by (metis le0 mult_0)
  obtain xs l where s: "segs = xs @ [(l, True)]" using inv by (rule heap_inv_last)
  have "l \<le> heap_end h" using inv s by (simp add: heap_inv_def)
  then have lim: "n + hdr_size < 2 ^ 64" "heap_end h + k * ?g < 2 ^ 64" using space k(2) by (auto simp: s)
  have "\<exists>p'. expand_pages mp e 0 (n div 4096) p = Some p' \<and> ok p'" if "ok p" for e p
    using expand_pages_total [of ok mp, OF mp that] .
  from kmalloc_rounds [where ok = "\<lambda>_ _. ok" and k = k and mp = mp and p = p, OF inv n lim(1) this ok lim(2) k(1)]
  show ?thesis by blast
qed

lemma kmalloc_small_stuck:
  assumes "kmalloc mp n h p = Some y" and "heap_inv h segs"
    and "\<forall>s \<in> set segs. \<not> fits n s" and "0 < n" and "n < 4096"
  shows False
proof -
  have "heap_inv h segs \<longrightarrow> (\<forall>s \<in> set segs. \<not> fits n s) \<longrightarrow> 0 < n \<longrightarrow> n < 4096 \<longrightarrow> False"
    using assms(1)
  proof (rule kmalloc.raw_induct [rotated], intro impI)
    fix km mp n h p y
    assume IH: "\<And>mp n h p y. km mp n h p = Some y \<Longrightarrow>
        heap_inv h segs \<longrightarrow> (\<forall>s \<in> set segs. \<not> fits n s) \<longrightarrow> 0 < n \<longrightarrow> n < 4096 \<longrightarrow> False"
      and b: "(if n = 0 then Some (0, h, p) else do {
        found \<leftarrow> kmalloc_scan h n (heap_start h);
        case found of
          Some cur \<Rightarrow> do {
            h \<leftarrow> SPLIT_HEAP_SEGMENT cur n h;
            h \<leftarrow> upd_hdr cur (\<lambda>s. s\<lparr>seg_free := False\<rparr>) h;
            Some (wrap64 (cur + hdr_size), h, p) }
        | None \<Rightarrow> do { r \<leftarrow> EXPAND_HEAP mp n h p; km mp n (fst r) (snd r) } }) = Some y"
      and inv: "heap_inv h segs" and nf: "\<forall>s \<in> set segs. \<not> fits n s" and n: "0 < n" "n < 4096"
    obtain xs l where s: "segs = xs @ [(l, True)]" using inv by (rule heap_inv_last)
    have n': "n + hdr_size < 2 ^ 64" using n by (simp add: hdr_size_def)
    have q: "expand_pages mp (heap_end h) 0 (n div 4096) p = Some p" using n by simp
    have e: "heap_end h + 4096 * (n div 4096) < 2 ^ 64" using inv n by (simp add: heap_inv_def)
    from EXPAND_HEAP_grows [OF inv [unfolded s] e q] n
    obtain h' where h': "EXPAND_HEAP mp n h p = Some (h', p)" "heap_inv h' segs" by (auto simp: s)
    have "first_fit n (heap_start h) segs = None" using nf by (simp add: first_fit_None)
    with b n h' kmalloc_scan_heap [OF inv n'] have "km mp n h' p = Some y" by simp
    from IH [OF this] h' nf n show False by blast
  qed
  with assms(2-) show False by blast
qed

section \<open>Freeing\<close>

lemma free_forward_zoom:
  assumes z: "zoom h xs l True ys" and na: "no_adjacent_free ys"
  shows "\<exists>h' l' ys'. free_forward (at_seg h xs) h = Some h' \<and> zoom h' xs l' True ys' \<and>
    (ys' = [] \<or> \<not> snd (hd ys')) \<and> no_adjacent_free ys' \<and>
    (ys' = [] \<or> last ys' = last ys) \<and> l' + span ys' = l + span ys \<and>
    blocks (at_seg h xs + hdr_size + l') ys' = blocks (at_seg h xs + hdr_size + l) ys \<and>
    heap_start h' = heap_start h \<and> heap_end h' = heap_end h \<and> hmem h' = hmem h"
proof -
  have stop: "free_forward (at_seg h xs) h = Some h"
    if "zoom h xs l True ys" "ys = [] \<or> \<not> snd (hd ys)" for h l ys
  proof (cases ys)
    case Nil
    with zoom_hdr [OF that(1)] show ?thesis by (subst free_forward.simps) simp
  next
    case (Cons y ys')
    obtain m g where y: "y = (m, g)" by (cases y)
    have "hdrs h (at_seg h xs + hdr_size + l) = Some \<lparr>previous_hdr = at_seg h xs,
        next_hdr = (if ys' = [] then 0 else at_seg h xs + hdr_size + l + hdr_size + m),
        seg_len = m, seg_free = g\<rparr>"
      using that(1) Cons y by (simp add: zoom_def chain_append at_seg_def)
    with zoom_hdr [OF that(1)] Cons y that(2) show ?thesis by (subst free_forward.simps) simp
  qed
  show ?thesis
  proof (cases "ys = [] \<or> \<not> snd (hd ys)")
    case True
    with stop [OF z] z na show ?thesis by blast
  next
    case False
    then obtain m ys' where ys: "ys = (m, True) # ys'" by (cases ys) auto
    obtain h1 where h1: "JOIN_HEAP_NEXT_SEGMENT (at_seg h xs) h = Some h1"
      "zoom h1 xs (l + hdr_size + m) True ys'" "heap_start h1 = heap_start h"
      "heap_end h1 = heap_end h" "hmem h1 = hmem h"
      using zoom_join [OF z [unfolded ys]] by auto
    have na': "ys' = [] \<or> \<not> snd (hd ys')" "no_adjacent_free ys'"
      using na ys by (cases ys'; simp)+
    have n: "hdrs h (at_seg h xs + hdr_size + l) = Some \<lparr>previous_hdr = at_seg h xs,
        next_hdr = (if ys' = [] then 0 else at_seg h xs + hdr_size + l + hdr_size + m),
        seg_len = m, seg_free = True\<rparr>"
      using z ys by (simp add: zoom_def chain_append at_seg_def)
    have a: "at_seg h1 xs = at_seg h xs" using h1 by (simp add: at_seg_def)
    have "free_forward (at_seg h xs) h = Some h1"
      using zoom_hdr [OF z] n ys h1(1) stop [OF h1(2) na'(1)] a
      by (subst free_forward.simps) simp
    then show ?thesis
      using h1 na' ys by (intro exI [of _ h1] exI [of _ "l + hdr_size + m"] exI [of _ ys']) (auto simp: add_ac)
  qed
qed

lemma free_backward_zoom:
  assumes z: "zoom h xs l True ys" and na: "no_adjacent_free xs"
  shows "\<exists>h' l' xs'. free_backward (at_seg h xs) h = Some h' \<and> zoom h' xs' l' True ys \<and>
    (xs' = [] \<or> \<not> snd (last xs')) \<and> no_adjacent_free xs' \<and> span xs' + l' = span xs + l \<and>
    blocks (heap_start h) xs' = blocks (heap_start h) xs \<and>
    heap_start h' = heap_start h \<and> heap_end h' = heap_end h \<and> hmem h' = hmem h"
proof -
  have prev: "hdrs h (at_seg h zs) = Some \<lparr>previous_hdr = last_addr 0 (heap_start h) zs,
      next_hdr = at_seg h zs + hdr_size + m, seg_len = m, seg_free = f\<rparr>"
    if "zoom h (zs @ [(m, f)]) l True ys" for h zs m f l
    using that by (simp add: zoom_def chain_append at_seg_def)
  have pos: "heap_start h \<noteq> 0" if "zoom h xs l True ys" for h xs l
    using that by (simp add: zoom_def)
  have stop: "free_backward (at_seg h xs) h = Some h"
    if z: "zoom h xs l True ys" and "xs = [] \<or> \<not> snd (last xs)" for h l xs
  proof (cases xs rule: rev_cases)
    case Nil
    with zoom_hdr [OF z] show ?thesis by (subst free_backward.simps) simp
  next
    case (snoc zs y)
    obtain m g where y: "y = (m, g)" by (cases y)
    from zoom_hdr [OF z] prev [of h zs m g l] pos [OF z] snoc y that
    show ?thesis by (subst free_backward.simps) (simp add: at_seg_def)
  qed
  show ?thesis
  proof (cases "xs = [] \<or> \<not> snd (last xs)")
    case True
    with stop [OF z] z na show ?thesis by blast
  next
    case False
    then obtain zs m where xs: "xs = zs @ [(m, True)]"
      by (metis append_butlast_last_id prod.collapse)
    have z': "zoom h zs m True ((l, True) # ys)" using z xs by (simp add: zoom_def)
    obtain h1 where h1: "JOIN_HEAP_NEXT_SEGMENT (at_seg h zs) h = Some h1"
      "zoom h1 zs (m + hdr_size + l) True ys" "heap_start h1 = heap_start h"
      "heap_end h1 = heap_end h" "hmem h1 = hmem h"
      using zoom_join [OF z'] by auto
    have na': "zs = [] \<or> \<not> snd (last zs)" "no_adjacent_free zs"
      using na xs by (auto simp: no_adjacent_free_append)
    have a: "at_seg h1 zs = at_seg h zs" using h1 by (simp add: at_seg_def)
    have "free_backward (at_seg h xs) h = Some h1"
      using zoom_hdr [OF z] prev [OF z [unfolded xs]] xs h1(1) stop [OF h1(2) na'(1)] a pos [OF z]
      by (subst free_backward.simps) (simp add: at_seg_def)
    then show ?thesis
      using h1 na' xs by (intro exI [of _ h1] exI [of _ "m + hdr_size + l"] exI [of _ zs]) (auto simp: add_ac)
  qed
qed

lemma free_segment:
  assumes inv: "heap_inv h (xs @ (l, False) # ys)"
  shows "\<exists>h' segs'. free (heap_start h + span xs + hdr_size) h = Some h' \<and> heap_inv h' segs' \<and>
    blocks (heap_start h) segs' =
      blocks (heap_start h) xs @ blocks (heap_start h + span xs + hdr_size + l) ys \<and>
    heap_start h' = heap_start h \<and> heap_end h' = heap_end h \<and> hmem h' = hmem h"
proof -
  have z: "zoom h xs l False ys" using inv by (simp add: heap_inv_zoom)
  have na: "no_adjacent_free xs" "no_adjacent_free ys" and la: "ys \<noteq> []" "snd (last ys)"
    and e: "heap_end h = heap_start h + span xs + hdr_size + l + span ys"
    using inv by (cases ys; auto simp: heap_inv_zoom no_adjacent_free_append)+
  obtain h1 where h1: "upd_hdr (at_seg h xs) (\<lambda>s. s\<lparr>seg_free := True\<rparr>) h = Some h1"
    "zoom h1 xs l True ys" "heap_start h1 = heap_start h" "heap_end h1 = heap_end h" "hmem h1 = hmem h"
    using zoom_set_free [OF z, of True] by auto
  have a1: "at_seg h1 xs = at_seg h xs" using h1 by (simp add: at_seg_def)
  obtain h2 l2 ys2 where h2: "free_forward (at_seg h xs) h1 = Some h2" "zoom h2 xs l2 True ys2"
    "ys2 = [] \<or> \<not> snd (hd ys2)" "no_adjacent_free ys2" "ys2 = [] \<or> last ys2 = last ys"
    "l2 + span ys2 = l + span ys"
    "blocks (at_seg h xs + hdr_size + l2) ys2 = blocks (at_seg h xs + hdr_size + l) ys"
    "heap_start h2 = heap_start h" "heap_end h2 = heap_end h" "hmem h2 = hmem h"
    using free_forward_zoom [OF h1(2) na(2)] h1 a1 by auto
  have a2: "at_seg h2 xs = at_seg h xs" using h2 by (simp add: at_seg_def)
  obtain h3 l3 xs3 where h3: "free_backward (at_seg h xs) h2 = Some h3" "zoom h3 xs3 l3 True ys2"
    "xs3 = [] \<or> \<not> snd (last xs3)" "no_adjacent_free xs3" "span xs3 + l3 = span xs + l2"
    "blocks (heap_start h) xs3 = blocks (heap_start h) xs"
    "heap_start h3 = heap_start h" "heap_end h3 = heap_end h" "hmem h3 = hmem h"
    using free_backward_zoom [OF h2(2) na(1)] h2 a2 by auto
  have "free (at_seg h xs + hdr_size) h = Some h3"
    using h1(1) h2(1) h3(1) by (simp add: free_def Let_def)
  moreover have "heap_inv h3 (xs3 @ (l3, True) # ys2)"
    unfolding heap_inv_zoom
    using h2 h3 la e by (auto simp: no_adjacent_free_append neq_Nil_conv split: if_splits)
  moreover have a3: "heap_start h + span xs3 + hdr_size + l3 = heap_start h + span xs + hdr_size + l2"
    using h3(5) by simp
  have "blocks (heap_start h) (xs3 @ (l3, True) # ys2) =
      blocks (heap_start h) xs @ blocks (heap_start h + span xs + hdr_size + l) ys"
    using h2(7) h3(6) by (simp add: at_seg_def a3)
  ultimately show ?thesis using h3 by (auto simp: at_seg_def)
qed

section \<open>The contract: live blocks\<close>

text \<open>
  \<open>heap_rep h L\<close>: the heap is well formed and its allocated segments are exactly the pairs
  (payload address, length) of \<open>L\<close>.
\<close>

definition heap_rep :: "heap \<Rightarrow> (nat \<times> nat) set \<Rightarrow> bool" where
  "heap_rep h L \<longleftrightarrow> (\<exists>segs. heap_inv h segs \<and> L = set (blocks (heap_start h) segs))"

definition apart :: "nat \<times> nat \<Rightarrow> nat \<times> nat \<Rightarrow> bool" where
  "apart x y \<longleftrightarrow> fst x + snd x \<le> fst y \<or> fst y + snd y \<le> fst x"

lemma blocks_range:
  "(b, m) \<in> set (blocks a segs) \<Longrightarrow> a + hdr_size \<le> b \<and> b + m \<le> a + span segs"
proof (induction a segs rule: blocks.induct)
  case (2 a l f ss)
  then show ?case by (auto split: if_splits)
qed simp

lemma blocks_split:
  "(b, m) \<in> set (blocks a segs) \<Longrightarrow> \<exists>xs ys. segs = xs @ (m, False) # ys \<and> b = a + span xs + hdr_size"
proof (induction a segs rule: blocks.induct)
  case (2 a l f ss)
  show ?case
  proof (cases "(b, m) = (a + hdr_size, l) \<and> \<not> f")
    case True
    then have "(l, f) # ss = [] @ (m, False) # ss \<and> b = a + span [] + hdr_size" by simp
    then show ?thesis by blast
  next
    case False
    with 2 obtain xs ys where "ss = xs @ (m, False) # ys" "b = a + hdr_size + l + span xs + hdr_size"
      by (auto split: if_splits)
    then have "(l, f) # ss = ((l, f) # xs) @ (m, False) # ys \<and> b = a + span ((l, f) # xs) + hdr_size"
      by simp
    then show ?thesis by blast
  qed
qed simp

lemma blocks_sorted: "sorted_wrt (\<lambda>x y. fst x + snd x + hdr_size \<le> fst y) (blocks a segs)"
  by (induction a segs rule: blocks.induct) (auto dest: blocks_range)

lemma sorted_wrt_apart:
  "sorted_wrt (\<lambda>x y. fst x + snd x + hdr_size \<le> fst y) bs \<Longrightarrow> x \<in> set bs \<Longrightarrow> y \<in> set bs \<Longrightarrow> x \<noteq> y \<Longrightarrow>
   fst x + snd x + hdr_size \<le> fst y \<or> fst y + snd y + hdr_size \<le> fst x"
  by (induction bs) auto

lemma blocks_distinct: "distinct (blocks a segs)"
proof (induction a segs rule: blocks.induct)
  case (2 a l f ss)
  then show ?case by (auto dest: blocks_range)
qed simp

lemma heap_rep_apart: "heap_rep h L \<Longrightarrow> x \<in> L \<Longrightarrow> y \<in> L \<Longrightarrow> x \<noteq> y \<Longrightarrow> apart x y"
  using sorted_wrt_apart [OF blocks_sorted] unfolding heap_rep_def apart_def by fastforce

definition kmalloc_serves :: "nat \<Rightarrow> heap \<Rightarrow> bool" where
  "kmalloc_serves n h \<longleftrightarrow> 0 < n \<and> heap_end h + 2 * n + 2 * hdr_size < 2 ^ 64 \<and>
     (4096 \<le> n \<or> (\<exists>c. kmalloc_scan h n (heap_start h) = Some (Some c)))"

lemma heap_rep_kmalloc:
  assumes rep: "heap_rep h L" and mp: "\<And>a p. ok p \<Longrightarrow> \<exists>p'. mp a p = Some p' \<and> ok p'" and okp: "ok p"
    and ok: "kmalloc_serves n h"
  shows "\<exists>a h' p'. kmalloc mp n h p = Some (a, h', p') \<and> (a, n) \<notin> L \<and>
    heap_rep h' (insert (a, n) L) \<and> hmem h' = hmem h \<and> ok p'"
proof -
  obtain segs where inv: "heap_inv h segs" and L: "L = set (blocks (heap_start h) segs)"
    using rep by (auto simp: heap_rep_def)
  have n: "0 < n" "heap_end h + 2 * n + 2 * hdr_size < 2 ^ 64" using ok by (auto simp: kmalloc_serves_def)
  have "n + hdr_size < 2 ^ 64" using n by linarith
  then have big: "4096 \<le> n \<or> (\<exists>s \<in> set segs. fits n s)"
    using ok kmalloc_scan_heap [OF inv, of n] first_fit_None [of n "heap_start h" segs]
    by (auto simp: kmalloc_serves_def)
  have "heap_end h + (n + hdr_size + 1 - fst (last segs)) + n < 2 ^ 64"
    using n(2) hdr_size_pos by linarith
  from kmalloc_returns [of h segs n ok mp p, OF inv n(1) mp okp big this]
  obtain a h' p' segs' us vs where r: "kmalloc mp n h p = Some (a, h', p')" "heap_inv h' segs'"
    "heap_start h' = heap_start h" "hmem h' = hmem h"
    "blocks (heap_start h) segs = us @ vs" "blocks (heap_start h) segs' = us @ (a, n) # vs" "ok p'"
    by blast
  have "(a, n) \<notin> L" using blocks_distinct [of "heap_start h" segs'] r L by auto
  moreover have "heap_rep h' (insert (a, n) L)"
    unfolding heap_rep_def using r L by (intro exI [of _ segs']) auto
  ultimately show ?thesis using r by blast
qed

lemma heap_rep_free_frame:
  assumes rep: "heap_rep h L" and b: "(a, n) \<in> L"
  shows "\<exists>h'. free a h = Some h' \<and> heap_rep h' (L - {(a, n)}) \<and> hmem h' = hmem h \<and>
    heap_start h' = heap_start h \<and> heap_end h' = heap_end h"
proof -
  obtain segs where inv: "heap_inv h segs" and L: "L = set (blocks (heap_start h) segs)"
    using rep by (auto simp: heap_rep_def)
  obtain xs ys where s: "segs = xs @ (n, False) # ys" "a = heap_start h + span xs + hdr_size"
    using blocks_split b unfolding L by blast
  from free_segment [OF inv [unfolded s(1)]]
  obtain h' segs' where h': "free a h = Some h'" "heap_inv h' segs'"
    "blocks (heap_start h) segs' = blocks (heap_start h) xs @ blocks (heap_start h + span xs + hdr_size + n) ys"
    "heap_start h' = heap_start h" "heap_end h' = heap_end h" "hmem h' = hmem h" unfolding s(2) by blast
  have bl: "blocks (heap_start h) segs =
      blocks (heap_start h) xs @ (a, n) # blocks (heap_start h + span xs + hdr_size + n) ys"
    using s by simp
  have "set (blocks (heap_start h) segs') = L - {(a, n)}"
    using blocks_distinct [of "heap_start h" segs] unfolding L bl h'(3) by auto
  then have "heap_rep h' (L - {(a, n)})"
    unfolding heap_rep_def using h' by (intro exI [of _ segs']) simp
  with h' show ?thesis by blast
qed

lemma heap_rep_free:
  assumes "heap_rep h L" and "(a, n) \<in> L"
  shows "\<exists>h'. free a h = Some h' \<and> heap_rep h' (L - {(a, n)}) \<and> hmem h' = hmem h"
  using heap_rep_free_frame [OF assms] by blast

text \<open>The header in front of a live block, which \<open>krealloc\<close> reads.\<close>

lemma heap_rep_header:
  assumes "heap_rep h L" and "(a, n) \<in> L"
  shows "\<exists>s. hdrs h (sub64 a hdr_size) = Some s \<and> seg_len s = n"
proof -
  obtain segs where inv: "heap_inv h segs" and L: "L = set (blocks (heap_start h) segs)"
    using assms(1) by (auto simp: heap_rep_def)
  obtain xs ys where s: "segs = xs @ (n, False) # ys" "a = heap_start h + span xs + hdr_size"
    using blocks_split assms(2) unfolding L by blast
  have "zoom h xs n False ys" using inv s by (simp add: heap_inv_zoom)
  from zoom_hdr [OF this] s show ?thesis by (simp add: at_seg_def)
qed

lemma heap_rep_hmem [simp]: "heap_rep (h\<lparr>hmem := m\<rparr>) L \<longleftrightarrow> heap_rep h L"
  by (simp add: heap_rep_def heap_inv_def)

text \<open>
  What a user of a block allocator may rely on: \<open>rep s L\<close> says that the live blocks of state \<open>s\<close>
  are \<open>L\<close>, \<open>serves\<close> when a request is answered.
\<close>

locale block_allocator =
  fixes rep :: "'s \<Rightarrow> (nat \<times> nat) set \<Rightarrow> bool"
    and alloc :: "nat \<Rightarrow> 's \<Rightarrow> (nat \<times> 's) option"
    and release :: "nat \<Rightarrow> 's \<Rightarrow> 's option"
    and serves :: "nat \<Rightarrow> 's \<Rightarrow> bool"
  assumes alloc_rep: "rep s L \<Longrightarrow> serves n s \<Longrightarrow>
      \<exists>a s'. alloc n s = Some (a, s') \<and> (a, n) \<notin> L \<and> rep s' (insert (a, n) L)"
    and release_rep: "rep s L \<Longrightarrow> (a, n) \<in> L \<Longrightarrow> \<exists>s'. release a s = Some s' \<and> rep s' (L - {(a, n)})"
    and rep_apart: "rep s L \<Longrightarrow> x \<in> L \<Longrightarrow> y \<in> L \<Longrightarrow> x \<noteq> y \<Longrightarrow> apart x y"
begin

lemma alloc_apart:
  assumes "rep s L" and "serves n s"
  shows "\<exists>a s'. alloc n s = Some (a, s') \<and> rep s' (insert (a, n) L) \<and> (\<forall>x \<in> L. apart x (a, n))"
proof -
  from alloc_rep [OF assms] obtain a s' where
    *: "alloc n s = Some (a, s')" "(a, n) \<notin> L" "rep s' (insert (a, n) L)" by blast
  then have "\<forall>x \<in> L. apart x (a, n)" using rep_apart [OF *(3)] by blast
  with * show ?thesis by blast
qed

lemma alloc_release:
  assumes "rep s L" and "serves n s"
  shows "\<exists>a s' s''. alloc n s = Some (a, s') \<and> release a s' = Some s'' \<and> rep s'' L"
proof -
  from alloc_rep [OF assms] obtain a s' where
    *: "alloc n s = Some (a, s')" "(a, n) \<notin> L" "rep s' (insert (a, n) L)" by blast
  moreover from release_rep [OF *(3), of a n] obtain s'' where
    "release a s' = Some s''" "rep s'' (insert (a, n) L - {(a, n)})" by blast
  ultimately show ?thesis by auto
qed

text \<open>Moving a block: allocate, then release the old one.\<close>

lemma alloc_then_release:
  assumes "rep s L" and "serves n s" and "(b, m) \<in> L"
  shows "\<exists>a s' s''. alloc n s = Some (a, s') \<and> rep s' (insert (a, n) L) \<and> (\<forall>x \<in> L. apart x (a, n)) \<and>
    release b s' = Some s'' \<and> rep s'' (insert (a, n) L - {(b, m)})"
  using alloc_apart [OF assms(1,2)] release_rep [of _ "insert _ L" b m] assms(3) by blast

end

text \<open>
  The heap as such an allocator.  The page source \<open>mp\<close> and its state are part of the state; \<open>ok\<close>
  is a predicate under which \<open>mp\<close> always maps a page.
\<close>

interpretation kheap: block_allocator
  "\<lambda>(mp, h, p) L. heap_rep h L \<and> ok p \<and> (\<forall>a q. ok q \<longrightarrow> (\<exists>q'. mp a q = Some q' \<and> ok q'))"
  "\<lambda>n (mp, h, p). map_option (\<lambda>(a, h', p'). (a, mp, h', p')) (kmalloc mp n h p)"
  "\<lambda>a (mp, h, p). map_option (\<lambda>h'. (mp, h', p)) (free a h)"
  "\<lambda>n (mp, h, p). kmalloc_serves n h" for ok
proof (unfold_locales, goal_cases)
  case (1 s L n)
  obtain mp h p where s: "s = (mp, h, p)" by (cases s)
  from 1 heap_rep_kmalloc [of h L ok mp p n] show ?case unfolding s by auto
next
  case (2 s L a n)
  obtain mp h p where s: "s = (mp, h, p)" by (cases s)
  from 2 heap_rep_free [of h L a n] show ?case unfolding s by auto
next
  case (3 s L x y)
  then show ?case using heap_rep_apart by (cases s) blast
qed

lemma INIT_HEAP_rep:
  assumes "0 < adr" and "0 < pages" and "adr + 4096 * pages < 2 ^ 64"
    and "rm adr (4096 * pages) p = Some p'"
  shows "\<exists>h'. INIT_HEAP rm adr pages h p = Some (h', p') \<and> heap_inv h' [(4096 * pages - hdr_size, True)] \<and>
    heap_start h' = adr \<and> heap_end h' = adr + 4096 * pages"
  using assms by (auto simp: INIT_HEAP_def heap_inv_def hdr_size_def)

lemma apart_bytes:
  assumes "apart (b, m) (d, length bs)" shows "rd_bytes (wr_bytes mm d bs) b m = rd_bytes mm b m"
  using assms by (intro rd_wr_bytes_other) (auto simp: apart_def)

lemma krealloc_moves_fresh:
  assumes rep: "heap_rep h L" and b: "(a, l) \<in> L" and ok: "kmalloc_serves n h"
    and mp: "\<And>a p. gd p \<Longrightarrow> \<exists>p'. mp a p = Some p' \<and> gd p'" and gd: "gd p"
  shows "\<exists>loc h' p'. krealloc mp a n h p = Some (loc, h', p') \<and> (loc, n) \<notin> L \<and>
    heap_rep h' (insert (loc, n) (L - {(a, l)})) \<and>
    rd_bytes (hmem h') loc n = rd_bytes (hmem h) a (min n l) @ replicate (n - l) 0 \<and>
    (\<forall>(c, m) \<in> L - {(a, l)}. rd_bytes (hmem h') c m = rd_bytes (hmem h) c m)"
proof -
  obtain loc h1 p' where km: "kmalloc mp n h p = Some (loc, h1, p')" "(loc, n) \<notin> L"
    "heap_rep h1 (insert (loc, n) L)" "hmem h1 = hmem h"
    using heap_rep_kmalloc [of h L gd mp p n, OF rep mp gd ok] by blast
  have ap: "apart x (loc, n)" if "x \<in> L" for x
    using heap_rep_apart [OF km(3)] that km(2) by blast
  let ?z = "wr_bytes (hmem h) loc (replicate n 0)"
  let ?k = "min n l"
  let ?src = "rd_bytes (hmem h) a ?k"
  have z: "rd_bytes ?z a ?k = ?src"
    by (rule apart_bytes) (use ap [OF b] in \<open>auto simp: apart_def\<close>)
  have "loc \<le> a \<or> a + ?k \<le> loc" using ap [OF b] by (auto simp: apart_def min_def)
  then have cp: "memcpy ?z loc a ?k = wr_bytes ?z loc ?src"
    using memcpy_correct [of loc a ?k ?z] unfolding z by blast
  obtain s where s: "hdrs h1 (sub64 a hdr_size) = Some s" "seg_len s = l"
    using heap_rep_header [OF km(3)] b by blast
  let ?m = "wr_bytes ?z loc ?src"
  obtain h2 where h2: "free a (h1\<lparr>hmem := ?m\<rparr>) = Some h2"
    "heap_rep h2 (insert (loc, n) L - {(a, l)})" "hmem h2 = ?m"
    using heap_rep_free [of "h1\<lparr>hmem := ?m\<rparr>" "insert (loc, n) L" a l] km(3) b by auto
  have "krealloc mp a n h p = Some (loc, h2, p')"
    using km(1) s h2(1) cp by (simp add: krealloc_def kcalloc_def memset_eq_wr_bytes km(4) Let_def)
  moreover have "insert (loc, n) L - {(a, l)} = insert (loc, n) (L - {(a, l)})"
    using km(2) b by auto
  moreover have "rd_bytes ?m loc n = ?src @ replicate (n - l) 0"
    by (rule nth_equalityI) (auto simp: wr_bytes_def nth_append)
  moreover have "rd_bytes ?m c m = rd_bytes (hmem h) c m" if "(c, m) \<in> L - {(a, l)}" for c m
  proof -
    have "apart (c, m) (loc, n)" using ap that by blast
    then have "rd_bytes ?z c m = rd_bytes (hmem h) c m" "rd_bytes ?m c m = rd_bytes ?z c m"
      by (auto intro!: apart_bytes simp: apart_def)
    then show ?thesis by simp
  qed
  ultimately show ?thesis using h2 km(2) by auto
qed

lemma krealloc_moves:
  assumes rep: "heap_rep h L" and b: "(a, l) \<in> L" and ok: "kmalloc_serves n h"
    and mp: "\<And>a p. gd p \<Longrightarrow> \<exists>p'. mp a p = Some p' \<and> gd p'" and gd: "gd p"
  shows "\<exists>loc h' p'. krealloc mp a n h p = Some (loc, h', p') \<and>
    heap_rep h' (insert (loc, n) (L - {(a, l)})) \<and>
    rd_bytes (hmem h') loc n = rd_bytes (hmem h) a (min n l) @ replicate (n - l) 0 \<and>
    (\<forall>(c, m) \<in> L - {(a, l)}. rd_bytes (hmem h') c m = rd_bytes (hmem h) c m)"
  using krealloc_moves_fresh [where mp = mp and gd = gd, OF rep b ok mp gd] by blast

section \<open>Properties\<close>

text \<open>
  C1. A request that some free segment satisfies, or of at least a page, is served (the search
  and the growing loop terminate): \<open>kmalloc\<close> returns the address of a block of the requested
  length that overlaps no live block, the heap stays well formed, its live blocks are the old
  ones and the new one, and no payload byte changes.
\<close>

theorem kmalloc_fresh_block:
  assumes "heap_rep h L" and "\<And>a p. ok p \<Longrightarrow> \<exists>p'. mp a p = Some p' \<and> ok p'" and "ok p"
    and "kmalloc_serves n h"
  shows "\<exists>a h' p'. kmalloc mp n h p = Some (a, h', p') \<and> heap_rep h' (insert (a, n) L) \<and>
    (\<forall>x \<in> L. apart x (a, n)) \<and> hmem h' = hmem h"
proof -
  from assms have rep: "heap_rep h L \<and> ok p \<and> (\<forall>a q. ok q \<longrightarrow> (\<exists>q'. mp a q = Some q' \<and> ok q'))" by blast
  from kheap.alloc_apart [where ok = ok, of "(mp, h, p)" L n] assms(4) rep
  obtain a h' p' where "kmalloc mp n h p = Some (a, h', p')" "heap_rep h' (insert (a, n) L)"
    "\<forall>x \<in> L. apart x (a, n)" by auto
  with heap_rep_kmalloc [of h L ok mp p n, OF assms] show ?thesis by auto
qed

text \<open>A heap of two pages at 0x1000, on which the properties are tried.\<close>

definition heap0 :: heap where
  "heap0 = fst (the (INIT_HEAP (\<lambda>a n p. Some p) 0x1000 2
     \<lparr>hdrs = Map.empty, last_hdr = 0, heap_start = 0, heap_end = 0, hmem = \<lambda>a. 7\<rparr> ()))"

lemma heap0_inv: "heap_inv heap0 [(8160, True)]"
  by (simp add: heap_inv_def heap0_def INIT_HEAP_def hdr_size_def)

lemma heap0_facts:
  "heap_start heap0 = 0x1000" "heap_end heap0 = 0x3000" "hmem heap0 = (\<lambda>a. 7)"
  "hdrs heap0 0x1000 = Some \<lparr>previous_hdr = 0, next_hdr = 0, seg_len = 8160, seg_free = True\<rparr>"
  by (simp_all add: heap0_def INIT_HEAP_def hdr_size_def)

lemma heap0_rep: "heap_rep heap0 {}"
  unfolding heap_rep_def using heap0_inv by (intro exI [of _ "[(8160, True)]"]) simp

lemma heap0_serves: "kmalloc_serves 100 heap0"
  unfolding kmalloc_serves_def by (simp add: heap0_facts kmalloc_scan.simps hdr_size_def)

theorem kmalloc_fresh_block_witness:
  "\<exists>a h' p'. kmalloc (\<lambda>a p. Some p) 100 heap0 () = Some (a, h', p') \<and> heap_rep h' {(a, 100)}"
  using kmalloc_fresh_block [OF heap0_rep _ _ heap0_serves, of "\<lambda>p. True" "\<lambda>a p. Some p" "()"] by auto

text \<open>
  C0. A request of less than a page that no free segment satisfies is never answered: \<open>EXPAND_HEAP\<close>
  divides the byte count by the page size, adds no page, and \<open>kmalloc\<close> calls itself for ever.
\<close>

theorem kmalloc_small_request_diverges:
  assumes "heap_inv h segs" and "0 < n" and "n < 4096"
    and "\<forall>(l, f) \<in> set segs. f \<longrightarrow> l \<le> n + hdr_size"
  shows "kmalloc mp n h p = None"
proof -
  have "\<forall>s \<in> set segs. \<not> fits n s" using assms(4) by auto
  then show ?thesis
    using kmalloc_small_stuck [of mp n h p _ segs] assms(1-3) by (cases "kmalloc mp n h p") auto
qed

theorem kmalloc_small_request_diverges_witness:
  "\<exists>h. heap_inv h [(68, True)] \<and> kmalloc (\<lambda>a p. Some p) 40 h () = None"
proof -
  let ?h = "heap0\<lparr>heap_end := 0x1064, hdrs := [0x1000 \<mapsto>
    \<lparr>previous_hdr = 0, next_hdr = 0, seg_len = 68, seg_free = True\<rparr>]\<rparr>"
  have inv: "heap_inv ?h [(68, True)]"
    using heap0_inv by (simp add: heap_inv_def heap0_facts hdr_size_def)
  have "\<forall>(l, f) \<in> set [(68, True)]. f \<longrightarrow> l \<le> 40 + hdr_size" by (simp add: hdr_size_def)
  then have "kmalloc (\<lambda>a p. Some p) 40 ?h () = None"
    by (intro kmalloc_small_request_diverges [OF inv]) simp_all
  with inv show ?thesis by blast
qed

text \<open>
  C2. \<open>free\<close> of a live block terminates, removes exactly that block from the live ones, keeps the
  heap well formed (no two free segments are left side by side) and moves no payload byte.
\<close>

theorem free_releases_block:
  assumes "heap_rep h L" and "(a, n) \<in> L"
  shows "\<exists>h'. free a h = Some h' \<and> heap_rep h' (L - {(a, n)}) \<and> hmem h' = hmem h"
  using assms by (rule heap_rep_free)

theorem free_releases_block_witness:
  "\<exists>a h h'. heap_rep h {(a, 100)} \<and> free a h = Some h' \<and> heap_rep h' {}"
proof -
  from heap_rep_kmalloc [OF heap0_rep _ _ heap0_serves, of "\<lambda>p. True" "\<lambda>a p. Some p" "()"]
  obtain a h where "heap_rep h {(a, 100)}" by auto
  from this free_releases_block [OF this, of a 100] show ?thesis by auto
qed

text \<open>
  C3. \<open>krealloc\<close> keeps the contents: the new block starts with the bytes of the old one up to the
  shorter of the two lengths, the rest of it is zero, the old block is released, and no byte
  of any other live block changes.
\<close>

theorem krealloc_keeps_contents:
  assumes "heap_rep h L" and "(a, l) \<in> L" and "kmalloc_serves n h"
    and "\<And>a p. ok p \<Longrightarrow> \<exists>p'. mp a p = Some p' \<and> ok p'" and "ok p"
  shows "\<exists>loc h' p'. krealloc mp a n h p = Some (loc, h', p') \<and>
    heap_rep h' (insert (loc, n) (L - {(a, l)})) \<and>
    rd_bytes (hmem h') loc n = rd_bytes (hmem h) a (min n l) @ replicate (n - l) 0 \<and>
    (\<forall>(c, m) \<in> L - {(a, l)}. rd_bytes (hmem h') c m = rd_bytes (hmem h) c m)"
  using assms by (rule krealloc_moves)

text \<open>The demo heap with one block of 100 bytes at 0x1020.\<close>

lemma heap0_block:
  "\<exists>h. heap_inv h [(100, False), (8028, True)] \<and> heap_start h = 0x1000 \<and> heap_end h = 0x3000 \<and> hmem h = (\<lambda>a. 7)"
proof -
  have "heap_inv heap0 ([] @ (8160, True) # [])" using heap0_inv by simp
  from kmalloc_fit [OF this, of 100 "\<lambda>a p. Some p" "()"]
  show ?thesis by (auto simp: heap0_facts hdr_size_def heap_inv_def)
qed

theorem krealloc_keeps_contents_witness:
  "\<exists>h loc h'. krealloc (\<lambda>a p. Some p) 0x1020 120 h () = Some (loc, h', ()) \<and>
     rd_bytes (hmem h') loc 120 = replicate 100 7 @ replicate 20 0"
proof -
  obtain h where h: "heap_inv h [(100, False), (8028, True)]" "heap_start h = 0x1000"
    "heap_end h = 0x3000" "hmem h = (\<lambda>a. 7)" using heap0_block by blast
  have rep: "heap_rep h {(0x1020, 100)}"
    unfolding heap_rep_def using h by (intro exI [of _ "[(100, False), (8028, True)]"]) (simp add: hdr_size_def)
  have "kmalloc_scan h 120 (heap_start h) = Some (first_fit 120 (heap_start h) [(100, False), (8028, True)])"
    using h(1) by (rule kmalloc_scan_heap) (simp add: hdr_size_def)
  then have ok: "kmalloc_serves 120 h"
    using h by (simp add: kmalloc_serves_def hdr_size_def)
  have r: "rd_bytes (\<lambda>a. 7) 0x1020 100 = replicate 100 7"
    by (rule nth_equalityI) simp_all
  have "\<exists>loc h'. krealloc (\<lambda>a p. Some p) 0x1020 120 h () = Some (loc, h', ()) \<and>
     rd_bytes (hmem h') loc 120 = rd_bytes (hmem h) 0x1020 (min 120 100) @ replicate (120 - 100) 0"
    using krealloc_keeps_contents [OF rep _ ok, of "0x1020" 100 "\<lambda>p. True" "\<lambda>a p. Some p" "()"] by auto
  then show ?thesis using r h(4) by auto
qed

end
