(* ===== verification/SortedList.thy ===== *)
theory SortedList
  imports Prelude
begin

text \<open>
  The sorted pointer vector of \<open>kernel/src/sorted_list.c\<close>: binary search, insertion and removal
  by \<open>memmove\<close>, lookup by a second comparator.  A slot of the array is a pointer to an element,
  NULL, or (in the one-slot array of a new list) never written; a comparator called on
  anything but an element dereferences a bad pointer, which is \<^const>\<open>None\<close>.  The theorems are
  stated against any comparator that follows a linear order of keys (\<open>keyed_cmp\<close>), the
  contract the directory, file table and process lists instantiate.
\<close>

section \<open>State and operations\<close>

datatype 'a slot = Unset | Null | Ptr 'a

record ('a, 'k) sorted_list =
  sl_cmp :: "'a \<Rightarrow> 'a \<Rightarrow> int option"
  sl_search_cmp :: "'a \<Rightarrow> 'k \<Rightarrow> int option"
  sl_data :: "'a slot list"
  sl_size :: nat
  sl_capacity :: nat

definition VECTOR_BASE_CAPACITY :: nat where "VECTOR_BASE_CAPACITY = 1"

definition create_sorted_list ::
  "('a \<Rightarrow> 'a \<Rightarrow> int option) \<Rightarrow> ('a \<Rightarrow> 'k \<Rightarrow> int option) \<Rightarrow> ('a, 'k) sorted_list" where
  "create_sorted_list element_cmp search_cmp =
     \<lparr>sl_cmp = element_cmp, sl_search_cmp = search_cmp,
      sl_data = replicate VECTOR_BASE_CAPACITY Unset, sl_size = 0,
      sl_capacity = VECTOR_BASE_CAPACITY\<rparr>"

text \<open>\<open>krealloc\<close> keeps the old slots and zeroes the new ones.\<close>

definition resize_sorted_list :: "('a, 'k) sorted_list \<Rightarrow> nat \<Rightarrow> ('a, 'k) sorted_list" where
  "resize_sorted_list l new_size =
     l\<lparr>sl_data := take new_size (sl_data l) @ replicate (new_size - length (sl_data l)) Null,
       sl_capacity := new_size\<rparr>"

fun deref_cmp :: "('a \<Rightarrow> 'k \<Rightarrow> int option) \<Rightarrow> 'a slot \<Rightarrow> 'k \<Rightarrow> int option" where
  "deref_cmp cmp (Ptr x) k = cmp x k"
| "deref_cmp cmp Null k = None"
| "deref_cmp cmp Unset k = None"

partial_function (option) search_loop ::
  "'a slot list \<Rightarrow> ('a \<Rightarrow> 'k \<Rightarrow> int option) \<Rightarrow> 'k \<Rightarrow> nat \<Rightarrow> nat \<Rightarrow> nat \<Rightarrow> nat option" where
  "search_loop data cmp k mn mx c_idx =
     (if mn = mx then Some mn
      else do {
        e \<leftarrow> arr_get data c_idx;
        x \<leftarrow> deref_cmp cmp e k;
        if x = 0 then Some c_idx
        else if x < 0 then search_loop data cmp k (c_idx + 1) mx ((c_idx + 1 + mx) div 2)
        else search_loop data cmp k mn c_idx ((mn + c_idx) div 2) })"

definition sorted_list_search ::
  "('a, 'b) sorted_list \<Rightarrow> 'k \<Rightarrow> ('a \<Rightarrow> 'k \<Rightarrow> int option) \<Rightarrow> nat option" where
  "sorted_list_search l k element_cmp =
     search_loop (sl_data l) element_cmp k 0 (sl_size l) (0 + sl_size l div 2)"

text \<open>The growth step at the start of \<open>sorted_list_insert\<close>.\<close>

definition make_room :: "('a, 'k) sorted_list \<Rightarrow> ('a, 'k) sorted_list" where
  "make_room l = (if sl_capacity l = sl_size l + 1 then resize_sorted_list l (sl_capacity l * 2) else l)"

definition sorted_list_insert :: "('a, 'k) sorted_list \<Rightarrow> 'a \<Rightarrow> ('a, 'k) sorted_list option" where
  "sorted_list_insert l x = do {
     let l = make_room l;
     if sl_size l = 0 then do {
       d \<leftarrow> arr_put (sl_data l) 0 (Ptr x);
       Some (l\<lparr>sl_data := d, sl_size := 1\<rparr>) }
     else do {
       c_idx \<leftarrow> sorted_list_search l x (sl_cmp l);
       blk \<leftarrow> blk_get (sl_data l) c_idx (sl_size l - c_idx);
       d \<leftarrow> blk_put (sl_data l) (c_idx + 1) blk;
       d \<leftarrow> arr_put d c_idx (Ptr x);
       Some (l\<lparr>sl_data := d, sl_size := sl_size l + 1\<rparr>) } }"

definition sorted_list_remove :: "('a, 'k) sorted_list \<Rightarrow> 'a \<Rightarrow> ('a, 'k) sorted_list option" where
  "sorted_list_remove l x = do {
     c_idx \<leftarrow> sorted_list_search l x (sl_cmp l);
     blk \<leftarrow> blk_get (sl_data l) (c_idx + 1) (sl_size l - c_idx);
     d \<leftarrow> blk_put (sl_data l) c_idx blk;
     let n = (sl_size l + (2 ^ 64 - 1)) mod 2 ^ 64;
     d \<leftarrow> arr_put d n Null;
     Some (l\<lparr>sl_data := d, sl_size := n\<rparr>) }"

definition sorted_list_get :: "('a, 'k) sorted_list \<Rightarrow> 'k \<Rightarrow> 'a option option" where
  "sorted_list_get l k = do {
     idx \<leftarrow> sorted_list_search l k (sl_search_cmp l);
     e \<leftarrow> arr_get (sl_data l) idx;
     x \<leftarrow> deref_cmp (sl_search_cmp l) e k;
     Some (if x = 0 then (case e of Ptr a \<Rightarrow> Some a | _ \<Rightarrow> None) else None) }"

section \<open>The elements of a list\<close>

text \<open>
  \<open>sl_holds l xs\<close>: the list holds the elements \<open>xs\<close> and has at least one slot behind them, all of
  them NULL (in a new list, the one slot was never written).
\<close>

definition sl_holds :: "('a, 'k) sorted_list \<Rightarrow> 'a list \<Rightarrow> bool" where
  "sl_holds l xs \<longleftrightarrow>
     sl_size l = length xs \<and> sl_capacity l = length (sl_data l) \<and>
     (\<exists>n. sl_data l = map Ptr xs @ replicate (Suc n) Null \<or> xs = [] \<and> sl_data l = [Unset])"

lemma sl_holds_create: "sl_holds (create_sorted_list c sc) []"
  by (simp add: sl_holds_def create_sorted_list_def VECTOR_BASE_CAPACITY_def)

section \<open>Binary search against a comparator that follows a key order\<close>

locale keyed_cmp =
  fixes cmp :: "'a \<Rightarrow> 'k \<Rightarrow> int option"
    and ekey :: "'a \<Rightarrow> 'o::linorder"
    and skey :: "'k \<Rightarrow> 'o"
    and eok :: "'a \<Rightarrow> bool"
    and sok :: "'k \<Rightarrow> bool"
  assumes cmp_key: "eok a \<Longrightarrow> sok k \<Longrightarrow>
      \<exists>x. cmp a k = Some x \<and> (x = 0 \<longleftrightarrow> ekey a = skey k) \<and> (x < 0 \<longleftrightarrow> ekey a < skey k)"
begin




end

context keyed_cmp begin

lemma search_loop_bound:
  assumes "take (length xs) data = map Ptr xs" and "\<forall>a \<in> set xs. eok a" and "sok k"
    and "sorted (map ekey xs)"
    and "mn \<le> mx" and "mx \<le> length xs" and "c = (mn + mx) div 2"
    and "\<forall>i < mn. ekey (xs ! i) < skey k" and "\<forall>i. mx \<le> i \<and> i < length xs \<longrightarrow> skey k < ekey (xs ! i)"
  shows "\<exists>idx. search_loop data cmp k mn mx c = Some idx \<and>
    (idx < length xs \<and> ekey (xs ! idx) = skey k \<or>
     idx \<le> length xs \<and> (\<forall>i < idx. ekey (xs ! i) < skey k) \<and>
       (\<forall>i. idx \<le> i \<and> i < length xs \<longrightarrow> skey k < ekey (xs ! i)))"
  using assms(5-)
proof (induction "mx - mn" arbitrary: mn mx c rule: less_induct)
  case less
  show ?case
  proof (cases "mn = mx")
    case True
    with less.prems show ?thesis by (subst search_loop.simps) auto
  next
    case False
    with less.prems have c: "mn \<le> c" "c < mx" "c < length xs" by auto
    have len: "length xs \<le> length data"
      using assms(1) by (metis length_map length_take min.cobounded1 min.commute)
    have e: "arr_get data c = Some (Ptr (xs ! c))"
      using c len arg_cong [OF assms(1), of "\<lambda>l. l ! c"] by simp
    obtain x where x: "cmp (xs ! c) k = Some x" "x = 0 \<longleftrightarrow> ekey (xs ! c) = skey k"
      "x < 0 \<longleftrightarrow> ekey (xs ! c) < skey k"
      using cmp_key [of "xs ! c" k] assms(2,3) c by auto
    have mono: "i \<le> j \<Longrightarrow> j < length xs \<Longrightarrow> ekey (xs ! i) \<le> ekey (xs ! j)" for i j
      using sorted_nth_mono [OF assms(4), of i j] by simp
    consider (eq) "x = 0" | (lt) "x < 0" | (gt) "0 < x" by linarith
    then show ?thesis
    proof cases
      case eq
      with e x c False show ?thesis by (subst search_loop.simps) auto
    next
      case lt
      have "\<forall>i < c + 1. ekey (xs ! i) < skey k"
      proof (intro allI impI)
        fix i assume "i < c + 1"
        then have "ekey (xs ! i) \<le> ekey (xs ! c)" using mono [of i c] c by simp
        also have "\<dots> < skey k" using lt x by simp
        finally show "ekey (xs ! i) < skey k" .
      qed
      from less.hyps [OF _ _ _ refl this, of mx] c less.prems
      have "\<exists>idx. search_loop data cmp k (c + 1) mx ((c + 1 + mx) div 2) = Some idx \<and>
        (idx < length xs \<and> ekey (xs ! idx) = skey k \<or>
         idx \<le> length xs \<and> (\<forall>i < idx. ekey (xs ! i) < skey k) \<and>
           (\<forall>i. idx \<le> i \<and> i < length xs \<longrightarrow> skey k < ekey (xs ! i)))" by simp
      with lt e x(1) False show ?thesis by (subst search_loop.simps) simp
    next
      case gt
      then have sk: "skey k < ekey (xs ! c)" using x by force
      have "\<forall>i. c \<le> i \<and> i < length xs \<longrightarrow> skey k < ekey (xs ! i)"
        using mono sk by (meson less_le_trans)
      from less.hyps [OF _ _ _ refl _ this, of mn] c less.prems
      have "\<exists>idx. search_loop data cmp k mn c ((mn + c) div 2) = Some idx \<and>
        (idx < length xs \<and> ekey (xs ! idx) = skey k \<or>
         idx \<le> length xs \<and> (\<forall>i < idx. ekey (xs ! i) < skey k) \<and>
           (\<forall>i. idx \<le> i \<and> i < length xs \<longrightarrow> skey k < ekey (xs ! i)))" by simp
      with gt e x(1) False show ?thesis by (subst search_loop.simps) simp
    qed
  qed
qed

lemma search_finds:
  assumes "sl_holds l xs" and "\<forall>a \<in> set xs. eok a" and "sok k" and "sorted (map ekey xs)"
  shows "\<exists>idx. sorted_list_search l k cmp = Some idx \<and>
    (idx < length xs \<and> ekey (xs ! idx) = skey k \<or>
     idx \<le> length xs \<and> (\<forall>i < idx. ekey (xs ! i) < skey k) \<and>
       (\<forall>i. idx \<le> i \<and> i < length xs \<longrightarrow> skey k < ekey (xs ! i)))"
proof -
  have "take (length xs) (sl_data l) = map Ptr xs" using assms(1) by (auto simp: sl_holds_def)
  moreover have "sl_size l = length xs" using assms(1) by (simp add: sl_holds_def)
  moreover have "\<forall>i. length xs \<le> i \<and> i < length xs \<longrightarrow> skey k < ekey (xs ! i)" by auto
  ultimately show ?thesis
    using search_loop_bound [of xs "sl_data l" k 0 "length xs" "length xs div 2"] assms
    by (simp add: sorted_list_search_def)
qed

end

text \<open>The insertion step, for whatever index the search gives.\<close>

lemma make_room_fields [simp]:
  "sl_size (make_room l) = sl_size l" "sl_cmp (make_room l) = sl_cmp l"
  "sl_search_cmp (make_room l) = sl_search_cmp l"
  by (simp_all add: make_room_def resize_sorted_list_def)

lemma make_room_data:
  assumes "sl_holds l xs"
  shows "\<exists>n. (sl_data (make_room l) = map Ptr xs @ replicate (Suc (Suc n)) Null \<or>
      xs = [] \<and> sl_data (make_room l) = [Unset, Null]) \<and>
    sl_capacity (make_room l) = length (sl_data (make_room l))"
proof -
  consider (fresh) "xs = []" "sl_data l = [Unset]"
    | (used) n where "sl_data l = map Ptr xs @ replicate (Suc n) Null"
    using assms by (auto simp: sl_holds_def)
  then show ?thesis
  proof cases
    case fresh
    then show ?thesis using assms
      by (simp add: make_room_def resize_sorted_list_def sl_holds_def)
  next
    case used
    show ?thesis
    proof (cases n)
      case 0
      then have "sl_data (make_room l) = map Ptr xs @ Null # replicate (Suc (length xs)) Null"
        using used assms by (simp add: make_room_def resize_sorted_list_def sl_holds_def)
      moreover have "sl_capacity (make_room l) = 2 * Suc (length xs)"
        using used assms 0 by (simp add: make_room_def resize_sorted_list_def sl_holds_def)
      ultimately show ?thesis by (intro exI [of _ "length xs"]) simp
    next
      case (Suc m)
      then show ?thesis using used assms
        by (intro exI [of _ m]) (simp add: make_room_def sl_holds_def)
    qed
  qed
qed

lemma make_room_holds: "sl_holds l xs \<Longrightarrow> xs \<noteq> [] \<Longrightarrow> sl_holds (make_room l) xs"
proof -
  assume h: "sl_holds l xs" "xs \<noteq> []"
  then obtain n where "sl_data (make_room l) = map Ptr xs @ replicate (Suc (Suc n)) Null"
    "sl_capacity (make_room l) = length (sl_data (make_room l))"
    using make_room_data [OF h(1)] by auto
  with h show ?thesis unfolding sl_holds_def by (auto intro!: exI [of _ "Suc n"])
qed

lemma insert_first:
  assumes "sl_holds l []"
  shows "\<exists>l'. sorted_list_insert l x = Some l' \<and> sl_holds l' [x] \<and>
    sl_cmp l' = sl_cmp l \<and> sl_search_cmp l' = sl_search_cmp l"
  using make_room_data [OF assms] assms
  by (auto simp: sorted_list_insert_def sl_holds_def Let_def)

lemma insert_at:
  assumes "sl_holds l xs" and "xs \<noteq> []"
    and s: "sorted_list_search (make_room l) x (sl_cmp l) = Some idx" and "idx \<le> length xs"
  shows "\<exists>l'. sorted_list_insert l x = Some l' \<and> sl_holds l' (take idx xs @ x # drop idx xs) \<and>
    sl_cmp l' = sl_cmp l \<and> sl_search_cmp l' = sl_search_cmp l"
proof -
  obtain n where d: "sl_data (make_room l) = map Ptr xs @ replicate (Suc (Suc n)) Null"
    "sl_capacity (make_room l) = length (sl_data (make_room l))"
    using make_room_data [OF assms(1)] assms(2) by auto
  have size: "sl_size l = length xs" using assms(1) by (simp add: sl_holds_def)
  let ?d = "map Ptr xs @ replicate (Suc (Suc n)) Null"
  have g: "blk_get ?d idx (length xs - idx) = Some (map Ptr (drop idx xs))"
    using assms(4) by (simp add: blk_get_def drop_map)
  have p: "blk_put ?d (idx + 1) (map Ptr (drop idx xs)) =
      Some (take (idx + 1) ?d @ map Ptr (drop idx xs) @ replicate (Suc n) Null)"
    using assms(4) by (simp add: blk_put_def)
  have "idx < length ?d" using assms(4) by simp
  then have "take (Suc idx) ?d = take idx ?d @ [?d ! idx]" by (rule take_Suc_conv_app_nth)
  moreover have "take idx ?d = map Ptr (take idx xs)" using assms(4) by (simp add: take_map)
  ultimately have q: "arr_put (take (idx + 1) ?d @ map Ptr (drop idx xs) @ replicate (Suc n) Null) idx (Ptr x) =
      Some (map Ptr (take idx xs @ x # drop idx xs) @ replicate (Suc n) Null)"
    using assms(4) by (simp add: arr_put_def list_update_append del: take_append replicate.simps)
  have "sorted_list_insert l x = Some ((make_room l)\<lparr>sl_data :=
      map Ptr (take idx xs @ x # drop idx xs) @ replicate (Suc n) Null, sl_size := length xs + 1\<rparr>)"
    unfolding sorted_list_insert_def Let_def
    using s d(1) g p q size assms(2) by simp
  then show ?thesis
    using d size assms(4) by (auto simp: sl_holds_def)
qed


lemma arr_put_mid: "arr_put (us @ v # vs) (length us) x = Some (us @ x # vs)"
  by (simp add: arr_put_def)

text \<open>Removing the element at the index found: the tail moves down and the last slot is cleared.\<close>

lemma remove_at:
  assumes "sl_holds l xs" and "sorted_list_search l x (sl_cmp l) = Some idx"
    and "idx < length xs" and "length xs < 2 ^ 64"
  shows "\<exists>l'. sorted_list_remove l x = Some l' \<and> sl_holds l' (take idx xs @ drop (Suc idx) xs) \<and>
    sl_cmp l' = sl_cmp l \<and> sl_search_cmp l' = sl_search_cmp l"
proof -
  obtain n where d: "sl_data l = map Ptr xs @ replicate (Suc n) Null"
    using assms(1,3) by (auto simp: sl_holds_def)
  have size: "sl_size l = length xs" "sl_capacity l = length (sl_data l)"
    using assms(1) by (simp_all add: sl_holds_def)
  let ?d = "map Ptr xs @ replicate (Suc n) Null"
  let ?t = "map Ptr (drop (Suc idx) xs) @ [Null]"
  have g: "blk_get ?d (idx + 1) (length xs - idx) = Some ?t"
    using assms(3) by (simp add: blk_get_def drop_map take_Cons' Suc_diff_Suc)
  have p: "blk_put ?d idx ?t = Some (map Ptr (take idx xs @ drop (Suc idx) xs) @ Null # replicate (Suc n) Null)"
    using assms(3) by (simp add: blk_put_def take_map)
  have w: "(length xs + (2 ^ 64 - 1)) mod 2 ^ 64 = length xs - 1"
  proof -
    have "length xs + (2 ^ 64 - 1) = (length xs - 1) + 2 ^ 64" using assms(3) by simp
    then show ?thesis using assms(4) by (simp only: mod_add_self2) simp
  qed
  let ?xs = "take idx xs @ drop (Suc idx) xs"
  have lx: "length ?xs = length xs - 1" using assms(3) by simp
  have q: "arr_put (map Ptr ?xs @ Null # replicate (Suc n) Null) (length xs - 1) Null =
      Some (map Ptr ?xs @ Null # replicate (Suc n) Null)"
    unfolding lx [symmetric] length_map [of Ptr ?xs, symmetric] by (rule arr_put_mid)
  have "sorted_list_remove l x = Some (l\<lparr>sl_data := map Ptr ?xs @ Null # replicate (Suc n) Null,
      sl_size := length xs - 1\<rparr>)"
    unfolding sorted_list_remove_def Let_def
    using assms(2) d g p w q size by simp
  then show ?thesis
    using size d lx assms(3) by (auto simp: sl_holds_def intro!: exI [of _ "Suc n"])
qed

section \<open>The contract of a list with its two comparators\<close>

text \<open>
  \<open>sl_rep cmp scmp ekey eok l xs\<close>: a list built with these comparators holds \<open>xs\<close>, valid elements
  in strictly increasing order of their keys.
\<close>

definition sl_rep ::
  "('a \<Rightarrow> 'a \<Rightarrow> int option) \<Rightarrow> ('a \<Rightarrow> 'k \<Rightarrow> int option) \<Rightarrow> ('a \<Rightarrow> 'o::linorder) \<Rightarrow> ('a \<Rightarrow> bool) \<Rightarrow>
   ('a, 'k) sorted_list \<Rightarrow> 'a list \<Rightarrow> bool" where
  "sl_rep cmp scmp ekey eok l xs \<longleftrightarrow>
     sl_holds l xs \<and> sl_cmp l = cmp \<and> sl_search_cmp l = scmp \<and>
     (\<forall>a \<in> set xs. eok a) \<and> sorted_wrt (<) (map ekey xs)"

lemma sl_rep_create: "sl_rep cmp scmp ekey eok (create_sorted_list cmp scmp) []"
  by (simp add: sl_rep_def sl_holds_create) (simp add: create_sorted_list_def)

locale sorted_dir =
  el: keyed_cmp cmp ekey ekey eok eok + se: keyed_cmp scmp ekey skey eok sok
  for cmp :: "'a \<Rightarrow> 'a \<Rightarrow> int option"
    and scmp :: "'a \<Rightarrow> 'k \<Rightarrow> int option"
    and ekey :: "'a \<Rightarrow> 'o::linorder"
    and skey :: "'k \<Rightarrow> 'o"
    and eok :: "'a \<Rightarrow> bool"
    and sok :: "'k \<Rightarrow> bool"
begin

lemma insert_rep:
  assumes rep: "sl_rep cmp scmp ekey eok l xs" and x: "eok x" "ekey x \<notin> ekey ` set xs"
  shows "\<exists>l' ys zs. sorted_list_insert l x = Some l' \<and> xs = ys @ zs \<and>
    sl_rep cmp scmp ekey eok l' (ys @ x # zs)"
proof (cases "xs = []")
  case True
  with insert_first [of l x] rep x show ?thesis unfolding sl_rep_def by auto
next
  case False
  have h: "sl_holds l xs" "sl_cmp l = cmp" "sl_search_cmp l = scmp" "\<forall>a \<in> set xs. eok a"
    and st: "sorted_wrt (<) (map ekey xs)" using rep by (auto simp: sl_rep_def)
  have so: "sorted (map ekey xs)" using st by (rule strict_sorted_imp_sorted)
  obtain idx where idx: "sorted_list_search (make_room l) x cmp = Some idx"
    "idx < length xs \<and> ekey (xs ! idx) = ekey x \<or>
     idx \<le> length xs \<and> (\<forall>i < idx. ekey (xs ! i) < ekey x) \<and>
       (\<forall>i. idx \<le> i \<and> i < length xs \<longrightarrow> ekey x < ekey (xs ! i))"
    using el.search_finds [OF make_room_holds [OF h(1) False] h(4) x(1) so] by blast
  have nk: "\<not> (idx < length xs \<and> ekey (xs ! idx) = ekey x)" using x(2) by (metis imageI nth_mem)
  with idx have b: "idx \<le> length xs" "\<forall>i < idx. ekey (xs ! i) < ekey x"
    "\<forall>i. idx \<le> i \<and> i < length xs \<longrightarrow> ekey x < ekey (xs ! i)" by blast+
  have lt: "\<forall>a \<in> set (take idx xs). ekey a < ekey x" using b by (auto simp: in_set_conv_nth)
  have gt: "\<forall>a \<in> set (drop idx xs). ekey x < ekey a" using b by (auto simp: in_set_conv_nth)
  have spl: "sorted_wrt (<) (map ekey (take idx xs @ drop idx xs))" using st by simp
  have "sorted_wrt (<) (map ekey (take idx xs @ x # drop idx xs))"
    using spl lt gt unfolding map_append sorted_wrt_append by (auto simp del: append_take_drop_id)
  moreover have "\<forall>a \<in> set (take idx xs @ x # drop idx xs). eok a"
    using h(4) x(1) by (auto dest: in_set_takeD in_set_dropD)
  ultimately show ?thesis
    using insert_at [OF h(1) False _ b(1), of x] idx(1) h
    unfolding sl_rep_def by (metis append_take_drop_id)
qed

lemma search_present:
  assumes rep: "sl_rep cmp scmp ekey eok l xs" and x: "xs = ys @ a # zs"
  shows "sorted_list_search l a cmp = Some (length ys)"
    and "sok k \<Longrightarrow> ekey a = skey k \<Longrightarrow> sorted_list_search l k scmp = Some (length ys)"
proof -
  have h: "sl_holds l xs" "\<forall>a \<in> set xs. eok a"
    and st: "sorted_wrt (<) (map ekey xs)" using rep by (auto simp: sl_rep_def)
  have so: "sorted (map ekey xs)" using st by (rule strict_sorted_imp_sorted)
  have uniq: "idx = length ys" if "idx < length xs \<and> ekey (xs ! idx) = ekey a \<or>
     idx \<le> length xs \<and> (\<forall>i < idx. ekey (xs ! i) < ekey a) \<and>
       (\<forall>i. idx \<le> i \<and> i < length xs \<longrightarrow> ekey a < ekey (xs ! i))" for idx
  proof -
    have d: "distinct (map ekey xs)" using st by (simp add: strict_sorted_iff)
    have a: "xs ! length ys = a" "length ys < length xs" using x by auto
    from that show ?thesis
    proof
      assume "idx < length xs \<and> ekey (xs ! idx) = ekey a"
      then show ?thesis using d a by (metis distinct_conv_nth length_map nth_map)
    next
      assume "idx \<le> length xs \<and> (\<forall>i < idx. ekey (xs ! i) < ekey a) \<and>
       (\<forall>i. idx \<le> i \<and> i < length xs \<longrightarrow> ekey a < ekey (xs ! i))"
      then show ?thesis using a by (metis less_irrefl not_le)
    qed
  qed
  have "eok a" using h(2) x by simp
  with el.search_finds [OF h _ so] uniq show "sorted_list_search l a cmp = Some (length ys)" by blast
  show "sorted_list_search l k scmp = Some (length ys)" if "sok k" "ekey a = skey k"
    using se.search_finds [OF h that(1) so] uniq that(2) by auto
qed

lemma slot_present: "sl_holds l xs \<Longrightarrow> i < length xs \<Longrightarrow> arr_get (sl_data l) i = Some (Ptr (xs ! i))"
  by (auto simp: sl_holds_def nth_append)

lemma get_present:
  assumes rep: "sl_rep cmp scmp ekey eok l xs" and a: "a \<in> set xs" and k: "sok k" "ekey a = skey k"
  shows "sorted_list_get l k = Some (Some a)"
proof -
  obtain ys zs where x: "xs = ys @ a # zs" using a by (auto simp: in_set_conv_decomp)
  have "scmp a k = Some 0"
    using se.cmp_key [of a k] rep a k by (auto simp: sl_rep_def)
  moreover have "arr_get (sl_data l) (length ys) = Some (Ptr a)"
    using slot_present [of l xs "length ys"] rep x by (auto simp: sl_rep_def)
  ultimately show ?thesis
    using search_present(2) [OF rep x k] rep by (simp add: sorted_list_get_def sl_rep_def)
qed

lemma get_absent:
  assumes rep: "sl_rep cmp scmp ekey eok l xs" and k: "sok k" "skey k \<notin> ekey ` set xs"
    and above: "\<exists>a \<in> set xs. skey k < ekey a"
  shows "sorted_list_get l k = Some None"
proof -
  have h: "sl_holds l xs" "\<forall>a \<in> set xs. eok a"
    and st: "sorted_wrt (<) (map ekey xs)" using rep by (auto simp: sl_rep_def)
  have so: "sorted (map ekey xs)" using st by (rule strict_sorted_imp_sorted)
  obtain idx where idx: "sorted_list_search l k scmp = Some idx"
    "idx < length xs \<and> ekey (xs ! idx) = skey k \<or>
     idx \<le> length xs \<and> (\<forall>i < idx. ekey (xs ! i) < skey k) \<and>
       (\<forall>i. idx \<le> i \<and> i < length xs \<longrightarrow> skey k < ekey (xs ! i))"
    using se.search_finds [OF h k(1) so] by blast
  have i: "idx < length xs"
  proof (rule ccontr)
    assume "\<not> idx < length xs"
    then have "\<forall>i < length xs. ekey (xs ! i) < skey k" using idx(2) by auto
    with above show False by (metis in_set_conv_nth less_asym)
  qed
  have ne: "ekey (xs ! idx) \<noteq> skey k" using k(2) i by (metis imageI nth_mem)
  obtain x where "scmp (xs ! idx) k = Some x" "x \<noteq> 0"
    using se.cmp_key [of "xs ! idx" k] ne h(2) i k(1) by auto
  with idx(1) slot_present [OF h(1) i] rep show ?thesis
    by (simp add: sorted_list_get_def sl_rep_def)
qed

text \<open>A key above every key of the list makes \<open>sorted_list_get\<close> compare a slot that holds nothing.\<close>

lemma get_above:
  assumes rep: "sl_rep cmp scmp ekey eok l xs" and k: "sok k" and above: "\<forall>a \<in> set xs. ekey a < skey k"
  shows "sorted_list_get l k = None"
proof -
  have h: "sl_holds l xs" "\<forall>a \<in> set xs. eok a"
    and st: "sorted_wrt (<) (map ekey xs)" using rep by (auto simp: sl_rep_def)
  have so: "sorted (map ekey xs)" using st by (rule strict_sorted_imp_sorted)
  obtain idx where idx: "sorted_list_search l k scmp = Some idx"
    "idx < length xs \<and> ekey (xs ! idx) = skey k \<or>
     idx \<le> length xs \<and> (\<forall>i < idx. ekey (xs ! i) < skey k) \<and>
       (\<forall>i. idx \<le> i \<and> i < length xs \<longrightarrow> skey k < ekey (xs ! i))"
    using se.search_finds [OF h k(1) so] by blast
  have i: "idx = length xs"
  proof (rule ccontr)
    assume "idx \<noteq> length xs"
    then have "idx < length xs" "skey k \<le> ekey (xs ! idx)" using idx(2) by auto
    with above show False by (metis nth_mem not_le)
  qed
  have "\<exists>e. arr_get (sl_data l) (length xs) = Some e \<and> (e = Null \<or> e = Unset)"
    using h(1) by (auto simp: sl_holds_def nth_append)
  with idx(1) i show ?thesis using rep by (auto simp: sorted_list_get_def sl_rep_def)
qed

lemma remove_present:
  assumes rep: "sl_rep cmp scmp ekey eok l (ys @ a # zs)" and "length (ys @ a # zs) < 2 ^ 64"
  shows "\<exists>l'. sorted_list_remove l a = Some l' \<and> sl_rep cmp scmp ekey eok l' (ys @ zs)"
proof -
  have h: "sl_holds l (ys @ a # zs)" "sl_cmp l = cmp" using rep by (auto simp: sl_rep_def)
  from remove_at [OF h(1) _ _ assms(2), of a "length ys"] search_present(1) [OF rep refl] h(2)
  obtain l' where "sorted_list_remove l a = Some l'" "sl_holds l' (ys @ zs)"
    "sl_cmp l' = sl_cmp l" "sl_search_cmp l' = sl_search_cmp l" by auto
  with rep show ?thesis by (auto simp: sl_rep_def sorted_wrt_append)
qed

end

end
