(* ===== verification/RingBuffer.thy ===== *)
theory RingBuffer
  imports Prelude
begin

text \<open>
  The bounded queue of \<open>kernel/src/circular_buffer.c\<close>, element copies at the byte level, and its
  spin lock.  A buffer is refined to the list of elements it holds, oldest first
  (\<open>cb_rep\<close>), and satisfies the contract of a bounded FIFO queue (\<open>bounded_fifo\<close>), which
  pipes and the scheduler's thread pool rely on.  The lock is also modelled as a step
  relation between threads, one compare-and-exchange per step.
\<close>

section \<open>State and operations\<close>

record circular_buffer =
  max_size :: nat
  element_size :: nat
  cb_size :: nat
  head :: nat
  tail :: nat
  cb_data :: "u8 list"
  locked :: bool

text \<open>
  \<open>__atomic_compare_exchange(&cb->locked, &expected_false, &b_true, ...)\<close>: on failure the current
  value of the lock is stored into \<open>expected_false\<close>, a global shared by all buffers.  The
  result is (success, lock, \<open>expected_false\<close>).
\<close>

definition compare_exchange :: "bool \<Rightarrow> bool \<Rightarrow> bool \<times> bool \<times> bool" where
  "compare_exchange lock expected =
     (if lock = expected then (True, True, expected) else (False, lock, lock))"

text \<open>\<open>while (!__atomic_compare_exchange(...));\<close> run by one thread alone.\<close>

function acquire :: "bool \<Rightarrow> bool \<Rightarrow> bool \<times> bool" where
  "acquire lock expected =
     (let r = compare_exchange lock expected in
      if fst r then snd r else acquire (fst (snd r)) (snd (snd r)))"
  by pat_completeness auto
termination
  by (relation "measure (\<lambda>(l, e). if l = e then 0 else 1)")
    (auto simp: compare_exchange_def split: if_splits)

declare acquire.simps [simp del]

text \<open>\<open>kmalloc\<close> does not clear the element storage, so its contents are an argument.\<close>

definition cb_init :: "nat \<Rightarrow> nat \<Rightarrow> u8 list \<Rightarrow> circular_buffer" where
  "cb_init sz esz storage =
     \<lparr>max_size = sz, element_size = esz, cb_size = 0, head = 0, tail = 0,
      cb_data = storage, locked = False\<rparr>"

text \<open>The \<open>for\<close> loop of \<open>cb_push\<close>, \<open>k\<close> rounds left; the result is (buffer, tail, items pushed).\<close>

fun push_loop ::
  "circular_buffer \<Rightarrow> nat \<Rightarrow> u8 list \<Rightarrow> nat \<Rightarrow> nat \<Rightarrow> nat \<Rightarrow> (circular_buffer \<times> nat \<times> nat) option" where
  "push_loop cb tl_i items i pushed 0 = Some (cb, tl_i, pushed)"
| "push_loop cb tl_i items i pushed (Suc k) =
     (if cb_size cb = max_size cb then Some (cb, tl_i, pushed)
      else do {
        e \<leftarrow> blk_get items (i * element_size cb) (element_size cb);
        d \<leftarrow> blk_put (cb_data cb) (tl_i * element_size cb) e;
        push_loop (cb\<lparr>cb_data := d, cb_size := cb_size cb + 1\<rparr>) ((tl_i + 1) mod max_size cb)
          items (i + 1) (pushed + 1) k })"

definition cb_push ::
  "circular_buffer \<Rightarrow> bool \<Rightarrow> u8 list \<Rightarrow> nat \<Rightarrow> (circular_buffer \<times> bool \<times> nat) option" where
  "cb_push cb expected_false items n = do {
     let l = acquire (locked cb) expected_false;
     (cb, tl_i, pushed) \<leftarrow> push_loop (cb\<lparr>locked := fst l\<rparr>) (tail cb) items 0 0 n;
     Some (cb\<lparr>tail := tl_i, locked := False\<rparr>, snd l, pushed) }"

text \<open>The \<open>for\<close> loop of \<open>cb_pop\<close>; the caller's array \<open>items\<close> is written.\<close>

fun pop_loop ::
  "circular_buffer \<Rightarrow> nat \<Rightarrow> u8 list \<Rightarrow> nat \<Rightarrow> nat \<Rightarrow> nat \<Rightarrow> (circular_buffer \<times> nat \<times> u8 list \<times> nat) option" where
  "pop_loop cb h_i items i popped 0 = Some (cb, h_i, items, popped)"
| "pop_loop cb h_i items i popped (Suc k) =
     (if cb_size cb = 0 then Some (cb, h_i, items, popped)
      else do {
        e \<leftarrow> blk_get (cb_data cb) (h_i * element_size cb) (element_size cb);
        items \<leftarrow> blk_put items (i * element_size cb) e;
        pop_loop (cb\<lparr>cb_size := cb_size cb - 1\<rparr>) ((h_i + 1) mod max_size cb)
          items (i + 1) (popped + 1) k })"

definition cb_pop ::
  "circular_buffer \<Rightarrow> bool \<Rightarrow> u8 list \<Rightarrow> nat \<Rightarrow> (circular_buffer \<times> bool \<times> u8 list \<times> nat) option" where
  "cb_pop cb expected_false items n = do {
     let l = acquire (locked cb) expected_false;
     (cb, h, items, popped) \<leftarrow> pop_loop (cb\<lparr>locked := fst l\<rparr>) (head cb) items 0 0 n;
     Some (cb\<lparr>head := h, locked := False\<rparr>, snd l, items, popped) }"

section \<open>The elements a buffer holds\<close>

text \<open>\<open>slot w d i\<close>: element \<open>i\<close> of an array of \<open>w\<close>-byte elements.\<close>

definition slot :: "nat \<Rightarrow> u8 list \<Rightarrow> nat \<Rightarrow> u8 list" where
  "slot w d i = take w (drop (i * w) d)"

definition cb_rep :: "nat \<Rightarrow> nat \<Rightarrow> circular_buffer \<Rightarrow> u8 list list \<Rightarrow> bool" where
  "cb_rep w n cb es \<longleftrightarrow>
     0 < n \<and> max_size cb = n \<and> element_size cb = w \<and> length (cb_data cb) = n * w \<and>
     head cb < n \<and> cb_size cb = length es \<and> length es \<le> n \<and> tail cb = (head cb + length es) mod n \<and>
     (\<forall>i < length es. es ! i = slot w (cb_data cb) ((head cb + i) mod n))"

lemma acquire_lock [simp]: "fst (acquire l e)"
  by (cases l; cases e) (simp_all add: acquire.simps compare_exchange_def)

lemma slot_bound: "i < n \<Longrightarrow> i * w + w \<le> n * w" for n :: nat
  by (metis Suc_leI mult_Suc mult_le_mono1 add.commute)

lemma blk_get_slot: "length d = n * w \<Longrightarrow> i < n \<Longrightarrow> blk_get d (i * w) w = Some (slot w d i)"
  using slot_bound [of i n w] by (simp add: blk_get_def slot_def)

lemma blk_put_slot:
  assumes "length d = n * w" "i < n" "length e = w"
  shows "\<exists>d'. blk_put d (i * w) e = Some d' \<and> length d' = n * w \<and>
    (\<forall>j < n. slot w d' j = (if j = i then e else slot w d j))"
proof -
  have b: "i * w + w \<le> length d" using slot_bound [of i n w] assms by simp
  then obtain d' where d': "blk_put d (i * w) e = Some d'" using assms(3) by (simp add: blk_put_def)
  have len: "length d' = n * w" using blk_put_length [OF d'] assms(1) by simp
  have "slot w d' j = (if j = i then e else slot w d j)" if j: "j < n" for j
  proof -
    have g: "blk_get d' (j * w) w = Some (slot w d' j)" using len j by (rule blk_get_slot)
    show ?thesis
    proof (cases "j = i")
      case True
      with g blk_get_put_same [OF d'] assms(3) show ?thesis by simp
    next
      case False
      then have "j * w + w \<le> i * w \<or> i * w + length e \<le> j * w"
        using slot_bound [of j i w] slot_bound [of i j w] assms(3) by (cases "j < i") auto
      from blk_get_put_other [OF d' this] g blk_get_slot [OF assms(1) j] False show ?thesis by simp
    qed
  qed
  with d' len show ?thesis by blast
qed

text \<open>Slots of a ring that are distinct places.\<close>

lemma ring_inj:
  fixes h :: nat
  assumes "(h + i) mod n = (h + j) mod n" "i < n" "j < n" shows "i = j"
proof -
  have *: "i = j" if "(h + i) mod n = (h + j) mod n" "i \<le> j" "j < n" for i j
  proof -
    have "n dvd (h + j) - (h + i)" using that mod_eq_dvd_iff_nat [of "h + i" "h + j" n] by simp
    then have "n dvd j - i" by simp
    with that show ?thesis by (auto dest: dvd_imp_le)
  qed
  show ?thesis using *[of i j] *[of j i] assms by (cases "i \<le> j") auto
qed

section \<open>Pushing and popping\<close>

lemma cb_rep_put:
  assumes rep: "cb_rep w n (cb\<lparr>tail := t\<rparr>) es" and room: "length es < n" and e: "length e = w"
  shows "\<exists>d. blk_put (cb_data cb) (t * w) e = Some d \<and>
    cb_rep w n (cb\<lparr>cb_data := d, cb_size := cb_size cb + 1, tail := (t + 1) mod n\<rparr>) (es @ [e])"
proof -
  have r: "0 < n" "max_size cb = n" "element_size cb = w" "length (cb_data cb) = n * w" "head cb < n"
    "cb_size cb = length es" "t = (head cb + length es) mod n"
    "\<forall>i < length es. es ! i = slot w (cb_data cb) ((head cb + i) mod n)"
    using rep by (auto simp: cb_rep_def)
  have t: "t < n" using r(1,7) by simp
  from blk_put_slot [OF r(4) t e] obtain d where d: "blk_put (cb_data cb) (t * w) e = Some d"
    "length d = n * w" "\<forall>j < n. slot w d j = (if j = t then e else slot w (cb_data cb) j)" by blast
  have "(es @ [e]) ! i = slot w d ((head cb + i) mod n)" if i: "i < length (es @ [e])" for i
  proof (cases "i = length es")
    case True
    with d(3) r(7) t show ?thesis by simp
  next
    case False
    with i have "i < length es" by simp
    moreover have "(head cb + i) mod n \<noteq> t"
      using ring_inj [of "head cb" i n "length es"] r(7) \<open>i < length es\<close> room by auto
    ultimately show ?thesis using d(3) r(1,8) by (simp add: nth_append)
  qed
  moreover have "(t + 1) mod n = (head cb + length (es @ [e])) mod n"
    using r(7) by (simp add: mod_simps)
  ultimately have "cb_rep w n (cb\<lparr>cb_data := d, cb_size := cb_size cb + 1, tail := (t + 1) mod n\<rparr>) (es @ [e])"
    using r d(2) room by (simp add: cb_rep_def)
  with d(1) show ?thesis by blast
qed

lemma push_loop_rep:
  assumes "cb_rep w n (cb\<lparr>tail := t\<rparr>) es" and "(i + k) * w \<le> length items"
  shows "\<exists>cb' t'. push_loop cb t items i p k = Some (cb', t', p + min k (n - length es)) \<and>
    cb_rep w n (cb'\<lparr>tail := t'\<rparr>) (es @ map (slot w items) [i..<i + min k (n - length es)])"
  using assms
proof (induction k arbitrary: cb t es i p)
  case (Suc k)
  have r: "max_size cb = n" "element_size cb = w" "cb_size cb = length es" "length es \<le> n"
    using Suc.prems(1) by (auto simp: cb_rep_def)
  show ?case
  proof (cases "length es = n")
    case True
    with Suc.prems r show ?thesis by auto
  next
    case False
    then have room: "length es < n" using r by simp
    have "i * w + w \<le> (i + Suc k) * w" by (simp add: algebra_simps)
    with Suc.prems(2) have b: "i * w + w \<le> length items" by linarith
    then have g: "blk_get items (i * w) w = Some (slot w items i)" "length (slot w items i) = w"
      by (simp_all add: blk_get_def slot_def)
    from cb_rep_put [OF Suc.prems(1) room g(2)] obtain d where
      d: "blk_put (cb_data cb) (t * w) (slot w items i) = Some d"
      "cb_rep w n (cb\<lparr>cb_data := d, cb_size := cb_size cb + 1\<rparr>\<lparr>tail := (t + 1) mod n\<rparr>) (es @ [slot w items i])"
      by auto
    have "(Suc i + k) * w \<le> length items" using Suc.prems(2) by simp
    note bound = this
    define q where "q = min k (n - length (es @ [slot w items i]))"
    from Suc.IH [OF d(2) bound, of "p + 1"] obtain cb' t' where IH:
      "push_loop (cb\<lparr>cb_data := d, cb_size := cb_size cb + 1\<rparr>) ((t + 1) mod n) items (Suc i) (p + 1) k =
        Some (cb', t', p + 1 + q)"
      "cb_rep w n (cb'\<lparr>tail := t'\<rparr>) ((es @ [slot w items i]) @ map (slot w items) [Suc i..<Suc i + q])"
      unfolding q_def by blast
    have m: "min (Suc k) (n - length es) = Suc q"
      using room by (simp add: min_def q_def) linarith
    have u: "map (slot w items) [i..<i + Suc q] = slot w items i # map (slot w items) [Suc i..<Suc i + q]"
      by (simp add: upt_conv_Cons del: upt_Suc)
    have "push_loop cb t items i p (Suc k) = Some (cb', t', p + 1 + q)"
      using IH(1) False r g(1) d(1) by simp
    moreover have "p + 1 + q = p + Suc q" by simp
    ultimately show ?thesis
      using IH(2) unfolding m u by (simp del: push_loop.simps upt_Suc)
  qed
qed auto

lemma cb_rep_locked [simp]: "cb_rep w n (cb\<lparr>locked := l\<rparr>) es \<longleftrightarrow> cb_rep w n cb es"
  by (simp add: cb_rep_def)

lemma cb_push_rep:
  assumes "cb_rep w n cb es" and "k * w \<le> length items"
  shows "\<exists>cb' x'. cb_push cb x items k = Some (cb', x', min k (n - length es)) \<and>
    cb_rep w n cb' (es @ map (slot w items) [0..<min k (n - length es)]) \<and> \<not> locked cb'"
proof -
  let ?l = "acquire (locked cb) x"
  have "cb_rep w n ((cb\<lparr>locked := fst ?l\<rparr>)\<lparr>tail := tail cb\<rparr>) es" using assms(1) by simp
  from push_loop_rep [OF this, of 0 k items 0] assms(2) obtain cb' t' where
    "push_loop (cb\<lparr>locked := fst ?l\<rparr>) (tail cb) items 0 0 k = Some (cb', t', min k (n - length es))"
    "cb_rep w n (cb'\<lparr>tail := t'\<rparr>) (es @ map (slot w items) [0..<min k (n - length es)])" by auto
  then show ?thesis
    by (intro exI [of _ "cb'\<lparr>tail := t', locked := False\<rparr>"]) (simp add: cb_push_def Let_def)
qed

lemma cb_rep_take:
  assumes rep: "cb_rep w n (cb\<lparr>head := h\<rparr>) (e # es)"
  shows "blk_get (cb_data cb) (h * w) w = Some e" and "length e = w"
    and "cb_rep w n (cb\<lparr>cb_size := cb_size cb - 1, head := (h + 1) mod n\<rparr>) es"
proof -
  have r: "0 < n" "max_size cb = n" "element_size cb = w" "length (cb_data cb) = n * w" "h < n"
    "cb_size cb = length (e # es)" "tail cb = (h + length (e # es)) mod n"
    "\<forall>i < length (e # es). (e # es) ! i = slot w (cb_data cb) ((h + i) mod n)" "length (e # es) \<le> n"
    using rep by (auto simp: cb_rep_def)
  have e: "e = slot w (cb_data cb) h" using r(5,8) by force
  show "blk_get (cb_data cb) (h * w) w = Some e" using blk_get_slot [OF r(4,5)] e by simp
  have "h * w + w \<le> length (cb_data cb)" using slot_bound [OF r(5), of w] r(4) by simp
  then show "length e = w" by (simp add: e slot_def)
  have "es ! i = slot w (cb_data cb) (((h + 1) mod n + i) mod n)" if "i < length es" for i
    using r(8) [rule_format, of "Suc i"] that by (simp add: mod_simps)
  then show "cb_rep w n (cb\<lparr>cb_size := cb_size cb - 1, head := (h + 1) mod n\<rparr>) es"
    using r by (simp add: cb_rep_def mod_simps)
qed

lemma pop_loop_rep:
  assumes "cb_rep w n (cb\<lparr>head := h\<rparr>) es" and "(i + k) * w \<le> length items"
  shows "\<exists>cb' h'. pop_loop cb h items i p k =
      Some (cb', h', take (i * w) items @ concat (take k es) @ drop ((i + min k (length es)) * w) items,
            p + min k (length es)) \<and>
    cb_rep w n (cb'\<lparr>head := h'\<rparr>) (drop k es)"
  using assms
proof (induction k arbitrary: cb h es i p items)
  case (Suc k)
  have r: "max_size cb = n" "element_size cb = w" "cb_size cb = length es"
    using Suc.prems(1) by (auto simp: cb_rep_def)
  show ?case
  proof (cases es)
    case Nil
    with Suc.prems r show ?thesis by auto
  next
    case (Cons e es')
    note t = cb_rep_take [OF Suc.prems(1) [unfolded Cons]]
    have "i * w + w \<le> (i + Suc k) * w" by (simp add: algebra_simps)
    with Suc.prems(2) have b: "i * w + w \<le> length items" by linarith
    let ?it = "take (i * w) items @ e @ drop (i * w + w) items"
    have g: "blk_put items (i * w) e = Some ?it" using b t(2) by (simp add: blk_put_def)
    have l: "length ?it = length items" using b t(2) by simp
    have bb: "(Suc i + k) * w \<le> length ?it" using Suc.prems(2) l by simp
    have rr: "cb_rep w n (cb\<lparr>cb_size := cb_size cb - 1\<rparr>\<lparr>head := (h + 1) mod n\<rparr>) es'"
      using t(3) by simp
    from Suc.IH [OF rr bb, of "p + 1"] obtain cb' h' where IH:
      "pop_loop (cb\<lparr>cb_size := cb_size cb - 1\<rparr>) ((h + 1) mod n) ?it (Suc i) (p + 1) k =
        Some (cb', h', take (Suc i * w) ?it @ concat (take k es') @ drop ((Suc i + min k (length es')) * w) ?it,
          p + 1 + min k (length es'))"
      "cb_rep w n (cb'\<lparr>head := h'\<rparr>) (drop k es')" by blast
    have "take (Suc i * w) ?it = take (i * w) items @ e" using b t(2) by simp
    moreover have "drop ((Suc i + min k (length es')) * w) ?it = drop ((i + min (Suc k) (length es)) * w) items"
      using b t(2) Cons by (simp add: algebra_simps)
    ultimately show ?thesis
      using IH r g t(1) Cons by simp
  qed
qed auto

lemma cb_pop_rep:
  assumes "cb_rep w n cb es" and "k * w \<le> length items"
  shows "\<exists>cb' x'. cb_pop cb x items k =
      Some (cb', x', concat (take k es) @ drop (min k (length es) * w) items, min k (length es)) \<and>
    cb_rep w n cb' (drop k es) \<and> \<not> locked cb'"
proof -
  let ?l = "acquire (locked cb) x"
  have "cb_rep w n ((cb\<lparr>locked := fst ?l\<rparr>)\<lparr>head := head cb\<rparr>) es" using assms(1) by simp
  from pop_loop_rep [OF this, of 0 k items 0] assms(2) obtain cb' h' where
    "pop_loop (cb\<lparr>locked := fst ?l\<rparr>) (head cb) items 0 0 k =
      Some (cb', h', concat (take k es) @ drop (min k (length es) * w) items, min k (length es))"
    "cb_rep w n (cb'\<lparr>head := h'\<rparr>) (drop k es)" by auto
  then show ?thesis
    by (intro exI [of _ "cb'\<lparr>head := h', locked := False\<rparr>"]) (simp add: cb_pop_def Let_def)
qed

lemma cb_init_rep: "0 < n \<Longrightarrow> length st = n * w \<Longrightarrow> cb_rep w n (cb_init n w st) []"
  by (simp add: cb_rep_def cb_init_def)

section \<open>The contract of a bounded queue\<close>

text \<open>
  \<open>rep n q es\<close>: queue \<open>q\<close> of capacity \<open>n\<close> holds \<open>es\<close>, oldest first.  \<open>push\<close> reports how many
  elements it accepted, \<open>pop\<close> returns those it removed.
\<close>

locale bounded_fifo =
  fixes rep :: "nat \<Rightarrow> 'q \<Rightarrow> 'e list \<Rightarrow> bool"
    and elem_ok :: "'e \<Rightarrow> bool"
    and push :: "'q \<Rightarrow> 'e list \<Rightarrow> ('q \<times> nat) option"
    and pop :: "'q \<Rightarrow> nat \<Rightarrow> ('q \<times> 'e list) option"
  assumes push_rep: "rep n q es \<Longrightarrow> \<forall>x \<in> set xs. elem_ok x \<Longrightarrow>
      \<exists>q'. push q xs = Some (q', min (length xs) (n - length es)) \<and> rep n q' (es @ take (n - length es) xs)"
    and pop_rep: "rep n q es \<Longrightarrow> \<exists>q'. pop q k = Some (q', take k es) \<and> rep n q' (drop k es)"
    and rep_bound: "rep n q es \<Longrightarrow> length es \<le> n"
begin

lemma push_all:
  "rep n q es \<Longrightarrow> \<forall>x \<in> set xs. elem_ok x \<Longrightarrow> length es + length xs \<le> n \<Longrightarrow>
   \<exists>q'. push q xs = Some (q', length xs) \<and> rep n q' (es @ xs)"
  using push_rep [of n q es xs] by auto

lemma push_full: "rep n q es \<Longrightarrow> length es = n \<Longrightarrow> \<forall>x \<in> set xs. elem_ok x \<Longrightarrow>
   \<exists>q'. push q xs = Some (q', 0) \<and> rep n q' es"
  using push_rep [of n q es xs] by auto

lemma pop_empty: "rep n q [] \<Longrightarrow> \<exists>q'. pop q k = Some (q', []) \<and> rep n q' []"
  using pop_rep [of n q "[]" k] by auto

lemma push_pop:
  assumes "rep n q es" and "\<forall>x \<in> set xs. elem_ok x" and "length es + length xs \<le> n"
  shows "\<exists>q' q''. push q xs = Some (q', length xs) \<and>
    pop q' (length es + length xs) = Some (q'', es @ xs) \<and> rep n q'' []"
proof -
  from push_all [OF assms] obtain q' where q': "push q xs = Some (q', length xs)" "rep n q' (es @ xs)" by blast
  with pop_rep [OF q'(2), of "length es + length xs"] show ?thesis by auto
qed

text \<open>Rotating: push one element into a queue that has room, then pop the oldest.\<close>

lemma push_pop_one:
  assumes "rep n q es" and "elem_ok x" and "length es < n"
  shows "\<exists>q' q''. push q [x] = Some (q', 1) \<and> pop q' 1 = Some (q'', [case es of [] \<Rightarrow> x | e # _ \<Rightarrow> e]) \<and>
    rep n q'' (case es of [] \<Rightarrow> [] | _ # es' \<Rightarrow> es' @ [x])"
proof -
  from push_all [of n q es "[x]"] assms obtain q' where
    q': "push q [x] = Some (q', 1)" "rep n q' (es @ [x])" by auto
  with pop_rep [OF q'(2), of 1] show ?thesis by (cases es) auto
qed

end

text \<open>The circular buffer as such a queue of \<open>w\<close>-byte elements, \<open>expected_false\<close> threaded along.\<close>

definition cb_push_elems ::
  "circular_buffer \<times> bool \<Rightarrow> u8 list list \<Rightarrow> ((circular_buffer \<times> bool) \<times> nat) option" where
  "cb_push_elems q xs = do {
     (cb, x, k) \<leftarrow> cb_push (fst q) (snd q) (concat xs) (length xs);
     Some ((cb, x), k) }"

definition cb_pop_elems ::
  "nat \<Rightarrow> circular_buffer \<times> bool \<Rightarrow> nat \<Rightarrow> ((circular_buffer \<times> bool) \<times> u8 list list) option" where
  "cb_pop_elems w q k = do {
     (cb, x, items, m) \<leftarrow> cb_pop (fst q) (snd q) (replicate (k * w) 0) k;
     Some ((cb, x), map (slot w items) [0..<m]) }"

lemma concat_slot:
  assumes "\<forall>x \<in> set xs. length x = w" and "i < length xs"
  shows "slot w (concat xs @ r) i = xs ! i"
  using assms
proof (induction xs arbitrary: i)
  case (Cons x xs)
  then show ?case by (cases i) (auto simp: slot_def)
qed simp

lemma concat_slots:
  "\<forall>x \<in> set xs. length x = w \<Longrightarrow> k \<le> length xs \<Longrightarrow> map (slot w (concat xs @ r)) [0..<k] = take k xs"
  by (rule nth_equalityI) (auto simp: concat_slot)

lemma length_concat_width: "\<forall>x \<in> set xs. length x = w \<Longrightarrow> length (concat xs) = length xs * w"
  by (induction xs) auto

lemma cb_rep_width: "cb_rep w n cb es \<Longrightarrow> e \<in> set es \<Longrightarrow> length e = w"
proof -
  assume r: "cb_rep w n cb es" and "e \<in> set es"
  then obtain i where i: "i < length es" "e = slot w (cb_data cb) ((head cb + i) mod n)"
    by (auto simp: cb_rep_def in_set_conv_nth)
  have "0 < n" "length (cb_data cb) = n * w" using r by (auto simp: cb_rep_def)
  then show ?thesis using i slot_bound [of "(head cb + i) mod n" n w] by (simp add: slot_def)
qed

interpretation cbq: bounded_fifo "\<lambda>n q es. cb_rep w n (fst q) es" "\<lambda>e. length e = w"
  cb_push_elems "cb_pop_elems w" for w
proof
  fix n and q :: "circular_buffer \<times> bool" and es xs :: "u8 list list"
  assume r: "cb_rep w n (fst q) es" and x: "\<forall>x \<in> set xs. length x = w"
  let ?k = "min (length xs) (n - length es)"
  have "map (slot w (concat xs)) [0..<?k] = take (n - length es) xs"
    using concat_slots [OF x, of ?k "[]"] by (simp add: min_def)
  with cb_push_rep [OF r, of "length xs" "concat xs" "snd q"] length_concat_width [OF x]
  show "\<exists>q'. cb_push_elems q xs = Some (q', ?k) \<and> cb_rep w n (fst q') (es @ take (n - length es) xs)"
    by (force simp: cb_push_elems_def)
next
  fix n and q :: "circular_buffer \<times> bool" and es :: "u8 list list" and k
  assume r: "cb_rep w n (fst q) es"
  have w: "\<forall>x \<in> set (take k es). length x = w" using cb_rep_width [OF r] by (blast dest: in_set_takeD)
  have "map (slot w (concat (take k es) @ s)) [0..<min k (length es)] = take k es" for s
    using concat_slots [OF w, of "min k (length es)" s] by (simp add: min_def)
  with cb_pop_rep [OF r, of k "replicate (k * w) 0" "snd q"]
  show "\<exists>q'. cb_pop_elems w q k = Some (q', take k es) \<and> cb_rep w n (fst q') (drop k es)"
    by (force simp: cb_pop_elems_def)
qed (simp add: cb_rep_def)

section \<open>The lock between threads\<close>

text \<open>
  Threads 0, 1, ... use one buffer.  A thread in \<open>Spin\<close> executes one compare-and-exchange per
  step, one in \<open>Held\<close> is between the loop and the store of \<open>b_false\<close>.
\<close>

datatype lock_pc = Idle | Spin | Held

record lock_state =
  lk_locked :: bool
  lk_expected :: bool
  lk_pc :: "nat \<Rightarrow> lock_pc"

inductive lock_step :: "lock_state \<Rightarrow> lock_state \<Rightarrow> bool" where
  enter: "lk_pc s t = Idle \<Longrightarrow> lock_step s (s\<lparr>lk_pc := (lk_pc s)(t := Spin)\<rparr>)"
| acquired: "lk_pc s t = Spin \<Longrightarrow> compare_exchange (lk_locked s) (lk_expected s) = (True, l, x) \<Longrightarrow>
    lock_step s (s\<lparr>lk_locked := l, lk_expected := x, lk_pc := (lk_pc s)(t := Held)\<rparr>)"
| missed: "lk_pc s t = Spin \<Longrightarrow> compare_exchange (lk_locked s) (lk_expected s) = (False, l, x) \<Longrightarrow>
    lock_step s (s\<lparr>lk_locked := l, lk_expected := x\<rparr>)"
| release: "lk_pc s t = Held \<Longrightarrow>
    lock_step s (s\<lparr>lk_locked := False, lk_pc := (lk_pc s)(t := Idle)\<rparr>)"

definition lock_init :: lock_state where
  "lock_init = \<lparr>lk_locked = False, lk_expected = False, lk_pc = \<lambda>t. Idle\<rparr>"

inductive_cases lock_stepE: "lock_step s s'"

text \<open>As long as one thread at most is out of \<open>Idle\<close>, the lock is held exactly when it is \<open>Held\<close>.\<close>

definition solo :: "nat \<Rightarrow> lock_state \<Rightarrow> bool" where
  "solo t s \<longleftrightarrow> (\<forall>u. u \<noteq> t \<longrightarrow> lk_pc s u = Idle) \<and> (lk_locked s \<longleftrightarrow> lk_pc s t = Held)"

lemma solo_step: "lock_step s s' \<Longrightarrow> solo t s \<Longrightarrow> (\<forall>u. u \<noteq> t \<longrightarrow> lk_pc s' u = Idle) \<Longrightarrow> solo t s'"
  by (erule lock_stepE) (auto simp: solo_def compare_exchange_def split: if_splits)

lemma lock_breaks:
  assumes "t \<noteq> u" and s: "lk_pc s t = Held" "lk_pc s u = Spin" "lk_locked s"
  shows "\<exists>s'. lock_step\<^sup>*\<^sup>* s s' \<and> lk_pc s' t = Held \<and> lk_pc s' u = Held"
proof -
  let ?m = "s\<lparr>lk_locked := True, lk_expected := True\<rparr>"
  let ?b = "s\<lparr>lk_locked := True, lk_expected := True, lk_pc := (lk_pc s)(u := Held)\<rparr>"
  have "lock_step\<^sup>*\<^sup>* s ?m"
  proof (cases "lk_expected s")
    case True
    then have "?m = s" using s by simp
    then show ?thesis by simp
  next
    case False
    then have "lock_step s ?m"
      using s by (intro lock_step.missed) (auto simp: compare_exchange_def)
    then show ?thesis by (rule r_into_rtranclp)
  qed
  moreover have "lock_step ?m (?m\<lparr>lk_locked := True, lk_expected := True, lk_pc := (lk_pc ?m)(u := Held)\<rparr>)"
    using s by (intro lock_step.acquired) (auto simp: compare_exchange_def)
  then have "lock_step ?m ?b" by simp
  ultimately have "lock_step\<^sup>*\<^sup>* s ?b" by (rule rtranclp.rtrancl_into_rtrancl)
  then show ?thesis using assms by (intro exI [of _ ?b]) simp
qed

section \<open>Properties\<close>

text \<open>
  C21. Pushing \<open>xs\<close> into a buffer that holds \<open>es\<close> and has room for them, then popping everything,
  returns the elements of \<open>es\<close> and then those of \<open>xs\<close>, in order and byte for byte, and leaves the
  buffer empty, wherever head and tail are in the ring.
\<close>

theorem cb_push_pop_fifo:
  assumes "cb_rep w n cb es" and "\<forall>x \<in> set xs. length x = w" and "length es + length xs \<le> n"
  shows "\<exists>q q'. cb_push_elems (cb, e) xs = Some (q, length xs) \<and>
    cb_pop_elems w q (length es + length xs) = Some (q', es @ xs) \<and> cb_rep w n (fst q') []"
  using cbq.push_pop [of w n "(cb, e)" es xs] assms by simp

theorem cb_push_pop_fifo_witness:
  "\<exists>q q'. cb_push_elems (cb_init 4 2 (replicate 8 0), False) [[1, 2], [3, 4]] = Some (q, 2) \<and>
     cb_pop_elems 2 q 2 = Some (q', [[1, 2], [3, 4]])"
proof -
  have "cb_rep 2 4 (cb_init 4 2 (replicate 8 0)) []" by (rule cb_init_rep) simp_all
  from cb_push_pop_fifo [OF this, of "[[1, 2], [3, 4]]" False] show ?thesis
    by (auto simp: numeral_2_eq_2)
qed

text \<open>
  A push into a buffer of capacity \<open>n\<close> accepts exactly as many elements as there is room for,
  the first ones, reports that number, and drops the rest: nothing already queued is touched.
\<close>

theorem cb_push_accepts_what_fits:
  assumes "cb_rep w n cb es" and "k * w \<le> length items"
  shows "\<exists>cb' e'. cb_push cb e items k = Some (cb', e', min k (n - length es)) \<and>
    cb_rep w n cb' (es @ map (slot w items) [0..<min k (n - length es)]) \<and> \<not> locked cb'"
  using assms by (rule cb_push_rep)

theorem cb_push_accepts_what_fits_witness:
  "\<exists>cb' e'. cb_push (cb_init 1 1 [0]) False [7, 8] 2 = Some (cb', e', 1) \<and> cb_rep 1 1 cb' [[7]]"
proof -
  have "cb_rep 1 1 (cb_init 1 1 [0]) []" by (rule cb_init_rep) simp_all
  from cb_push_accepts_what_fits [OF this, of 2 "[7, 8]" False] show ?thesis by (auto simp: slot_def)
qed

text \<open>
  C23. The buffer lock does not exclude: \<open>expected_false\<close> is a global that a failed
  compare-and-exchange overwrites with the lock's value, so from the initial state two threads
  reach their critical sections together.
\<close>

theorem cb_lock_not_exclusive:
  "\<exists>s. lock_step\<^sup>*\<^sup>* lock_init s \<and> lk_pc s 0 = Held \<and> lk_pc s 1 = Held"
proof -
  let ?a = "lock_init\<lparr>lk_pc := (lk_pc lock_init)(0 := Spin)\<rparr>"
  let ?b = "?a\<lparr>lk_locked := True, lk_expected := False, lk_pc := (lk_pc ?a)(0 := Held)\<rparr>"
  let ?c = "?b\<lparr>lk_pc := (lk_pc ?b)(1 := Spin)\<rparr>"
  have "lock_step lock_init ?a" by (rule lock_step.enter) (simp add: lock_init_def)
  moreover have "lock_step ?a ?b"
    by (rule lock_step.acquired) (simp_all add: lock_init_def compare_exchange_def)
  moreover have "lock_step ?b ?c" by (rule lock_step.enter) (simp add: lock_init_def)
  ultimately have reach: "lock_step\<^sup>*\<^sup>* lock_init ?c"
    by (blast intro: rtranclp.rtrancl_into_rtrancl rtranclp.rtrancl_refl)
  have "\<exists>s. lock_step\<^sup>*\<^sup>* ?c s \<and> lk_pc s 0 = Held \<and> lk_pc s 1 = Held"
    by (rule lock_breaks) simp_all
  with reach show ?thesis by (blast intro: rtranclp_trans)
qed

end
