(* ===== verification/PageAlloc.thy ===== *)
theory PageAlloc
  imports Prelude
begin

text \<open>
  The physical page allocator of \<open>kernel/src/paging.c\<close> (lines 76 to 153) and the memory map
  it is started from (\<open>kernel/src/efimemory.c\<close>).  \<open>pages_used\<close> is the byte map with one entry
  per page; an index past its end is \<^const>\<open>None\<close>.  The counters are \<open>uint64_t\<close> and wrap.
  The invariant \<open>pa_inv\<close> says that no free page lies below \<open>page_index\<close>, so the search that
  starts there is a search for the lowest free page.
\<close>

section \<open>The EFI memory map\<close>

datatype EFI_MEMORY_TYPE =
    EfiReservedMemoryType | EfiLoaderCode | EfiLoaderData | EfiBootServicesCode
  | EfiBootServicesData | EfiRuntimeServicesCode | EfiRuntimeServicesData
  | EfiConventionalMemory | EfiUnusableMemory | EfiACPIReclaimMemory | EfiACPIMemoryNVS
  | EfiMemoryMappedIO | EfiMemoryMappedIOPortSpace | EfiPalCode | EfiPersistentMemory
  | EfiMaxMemoryType

record EFI_MEMORY_DESCRIPTOR =
  Type :: EFI_MEMORY_TYPE
  PhysicalStart :: nat
  VirtualStart :: nat
  NumberOfPages :: nat
  Attribute :: u64

text \<open>\<open>if (desc->Type) mem_size += 4096 * desc->NumberOfPages\<close> over the map, in \<open>uint64_t\<close>.\<close>

fun getMemorySize :: "EFI_MEMORY_DESCRIPTOR list \<Rightarrow> nat \<Rightarrow> nat" where
  "getMemorySize [] mem_size = mem_size"
| "getMemorySize (desc # memMap) mem_size =
     getMemorySize memMap
       (if Type desc \<noteq> EfiReservedMemoryType
        then wrap64 (mem_size + wrap64 (4096 * NumberOfPages desc)) else mem_size)"

section \<open>State\<close>

record page_alloc =
  FREE_MEMORY :: u64
  USED_MEMORY :: u64
  RESERVED_MEMORY :: u64
  pages_used :: "bool list"
  total_pages :: nat
  page_index :: nat

section \<open>Operations\<close>

definition LOCK_PAGE :: "nat \<Rightarrow> page_alloc \<Rightarrow> page_alloc option" where
  "LOCK_PAGE adr p = do {
     let page = adr div 4096;
     u \<leftarrow> arr_get (pages_used p) page;
     Some (if \<not> u
           then p\<lparr>pages_used := (pages_used p)[page := True],
                  FREE_MEMORY := FREE_MEMORY p - 4096, USED_MEMORY := USED_MEMORY p + 4096\<rparr>
           else p) }"

definition FREE_PAGE :: "nat \<Rightarrow> page_alloc \<Rightarrow> page_alloc option" where
  "FREE_PAGE adr p = do {
     let page = adr div 4096;
     u \<leftarrow> arr_get (pages_used p) page;
     Some (if u
           then p\<lparr>pages_used := (pages_used p)[page := False],
                  FREE_MEMORY := FREE_MEMORY p + 4096, USED_MEMORY := USED_MEMORY p - 4096,
                  page_index := min (page_index p) page\<rparr>
           else p) }"

definition RESERVE_PAGE :: "nat \<Rightarrow> page_alloc \<Rightarrow> page_alloc option" where
  "RESERVE_PAGE adr p = do {
     let page = adr div 4096;
     u \<leftarrow> arr_get (pages_used p) page;
     Some (if \<not> u
           then p\<lparr>pages_used := (pages_used p)[page := True],
                  FREE_MEMORY := FREE_MEMORY p - 4096, RESERVED_MEMORY := RESERVED_MEMORY p + 4096\<rparr>
           else p) }"

definition UNRESERVE_PAGE :: "nat \<Rightarrow> page_alloc \<Rightarrow> page_alloc option" where
  "UNRESERVE_PAGE adr p = do {
     let page = adr div 4096;
     u \<leftarrow> arr_get (pages_used p) page;
     Some (if u
           then p\<lparr>pages_used := (pages_used p)[page := False],
                  FREE_MEMORY := FREE_MEMORY p + 4096, RESERVED_MEMORY := RESERVED_MEMORY p - 4096,
                  page_index := min (page_index p) page\<rparr>
           else p) }"

text \<open>\<open>adr + (i * 4096)\<close>, a 64-bit pointer.\<close>

definition page_at :: "nat \<Rightarrow> nat \<Rightarrow> nat" where
  "page_at adr i = (adr + 4096 * i) mod 2 ^ 64"

text \<open>
  \<open>for (int i = 0; i < count; ++i) OP(adr + (i * 4096))\<close>: the product is an \<open>int\<close>, which overflows from
  the page \<open>2 ^ 19\<close> on, before the counter itself could.
\<close>

fun each_page :: "(nat \<Rightarrow> page_alloc \<Rightarrow> page_alloc option) \<Rightarrow> nat \<Rightarrow> nat \<Rightarrow> nat \<Rightarrow> page_alloc \<Rightarrow> page_alloc option" where
  "each_page opr adr i 0 p = Some p"
| "each_page opr adr i (Suc k) p = 
     (if 4096 * i < 2 ^ 31 then do { p \<leftarrow> opr (page_at adr i) p; each_page opr adr (Suc i) k p } else None)"

definition LOCK_PAGES :: "nat \<Rightarrow> nat \<Rightarrow> page_alloc \<Rightarrow> page_alloc option" where
  "LOCK_PAGES adr n = each_page LOCK_PAGE adr 0 n"

definition FREE_PAGES :: "nat \<Rightarrow> nat \<Rightarrow> page_alloc \<Rightarrow> page_alloc option" where
  "FREE_PAGES adr n = each_page FREE_PAGE adr 0 n"

definition RESERVE_PAGES :: "nat \<Rightarrow> nat \<Rightarrow> page_alloc \<Rightarrow> page_alloc option" where
  "RESERVE_PAGES adr n = each_page RESERVE_PAGE adr 0 n"

definition UNRESERVE_PAGES :: "nat \<Rightarrow> nat \<Rightarrow> page_alloc \<Rightarrow> page_alloc option" where
  "UNRESERVE_PAGES adr n = each_page UNRESERVE_PAGE adr 0 n"

text \<open>\<open>for (; page_index < total_pages; ++page_index)\<close>; the index advances in the state.\<close>

function REQUEST_PAGE :: "page_alloc \<Rightarrow> (nat \<times> page_alloc) option" where
  "REQUEST_PAGE p =
     (if page_index p < total_pages p
      then do {
        u \<leftarrow> arr_get (pages_used p) (page_index p);
        if \<not> u then do {
          p \<leftarrow> LOCK_PAGE (wrap64 (page_index p * 4096)) p;
          Some (wrap64 (page_index p * 4096), p) }
        else REQUEST_PAGE (p\<lparr>page_index := page_index p + 1\<rparr>) }
      else Some (0, p))"
  by pat_completeness auto
termination
  by (relation "measure (\<lambda>p. total_pages p - page_index p)") auto

declare REQUEST_PAGE.simps [simp del]

definition get_free_memory :: "page_alloc \<Rightarrow> u64" where "get_free_memory p = FREE_MEMORY p"
definition get_used_memory :: "page_alloc \<Rightarrow> u64" where "get_used_memory p = USED_MEMORY p"
definition get_reserved_memory :: "page_alloc \<Rightarrow> u64" where "get_reserved_memory p = RESERVED_MEMORY p"

section \<open>Invariant and accounting\<close>

definition pa_inv :: "page_alloc \<Rightarrow> bool" where
  "pa_inv p \<longleftrightarrow> length (pages_used p) = total_pages p \<and> total_pages p < 2 ^ 52 \<and>
     (\<forall>i < page_index p. i < total_pages p \<longrightarrow> pages_used p ! i)"

definition free_set :: "page_alloc \<Rightarrow> nat set" where
  "free_set p = {i. i < total_pages p \<and> \<not> pages_used p ! i}"

text \<open>What the three counters add up to, and the pages the free counter stands for.\<close>

definition accounted :: "page_alloc \<Rightarrow> u64" where
  "accounted p = FREE_MEMORY p + USED_MEMORY p + RESERVED_MEMORY p"

definition slack :: "page_alloc \<Rightarrow> u64" where
  "slack p = FREE_MEMORY p - of_nat (4096 * card (free_set p))"

lemma free_set_finite [simp]: "finite (free_set p)"
  by (simp add: free_set_def)

lemma free_set_take:
  "i < length (pages_used p) \<Longrightarrow> length (pages_used p) = total_pages p \<Longrightarrow>
   free_set (p\<lparr>pages_used := (pages_used p)[i := True]\<rparr>) = free_set p - {i}"
  by (auto simp: free_set_def nth_list_update split: if_splits)

lemma free_set_give:
  "i < length (pages_used p) \<Longrightarrow> length (pages_used p) = total_pages p \<Longrightarrow>
   free_set (p\<lparr>pages_used := (pages_used p)[i := False]\<rparr>) = insert i (free_set p)"
  by (auto simp: free_set_def nth_list_update split: if_splits)

text \<open>The step all four single-page operations take, on the parts the invariant is about.\<close>

definition pa_step :: "page_alloc \<Rightarrow> page_alloc \<Rightarrow> nat \<Rightarrow> bool \<Rightarrow> bool" where
  "pa_step p p' page u \<longleftrightarrow>
     total_pages p' = total_pages p \<and> accounted p' = accounted p \<and> slack p' = slack p \<and>
     pa_inv p' \<and> free_set p' = (if u then free_set p - {page} else insert page (free_set p))"

lemma LOCK_PAGE_step:
  assumes "pa_inv p" and "adr div 4096 < total_pages p"
  shows "\<exists>p'. LOCK_PAGE adr p = Some p' \<and> pa_step p p' (adr div 4096) True \<and> page_index p' = page_index p"
proof -
  let ?i = "adr div 4096"
  have len: "?i < length (pages_used p)" "length (pages_used p) = total_pages p"
    using assms by (auto simp: pa_inv_def)
  show ?thesis
  proof (cases "pages_used p ! ?i")
    case True
    then have "free_set p - {?i} = free_set p" by (auto simp: free_set_def)
    with True len assms show ?thesis by (simp add: LOCK_PAGE_def pa_step_def)
  next
    case False
    let ?p = "p\<lparr>pages_used := (pages_used p)[?i := True], FREE_MEMORY := FREE_MEMORY p - 4096,
      USED_MEMORY := USED_MEMORY p + 4096\<rparr>"
    have fs: "free_set ?p = free_set p - {?i}"
      using free_set_take [OF len] by (simp add: free_set_def)
    have "?i \<in> free_set p" using False len by (simp add: free_set_def)
    then have c: "card (free_set p) = Suc (card (free_set p - {?i}))"
      by (metis card_Suc_Diff1 free_set_finite)
    have "slack ?p = slack p" unfolding slack_def fs c by simp
    moreover have "pa_inv ?p" using assms by (auto simp: pa_inv_def nth_list_update)
    ultimately show ?thesis using False len fs by (auto simp: LOCK_PAGE_def pa_step_def accounted_def)
  qed
qed

lemma RESERVE_PAGE_step:
  assumes "pa_inv p" and "adr div 4096 < total_pages p"
  shows "\<exists>p'. RESERVE_PAGE adr p = Some p' \<and> pa_step p p' (adr div 4096) True \<and> page_index p' = page_index p"
proof -
  let ?i = "adr div 4096"
  have len: "?i < length (pages_used p)" "length (pages_used p) = total_pages p"
    using assms by (auto simp: pa_inv_def)
  show ?thesis
  proof (cases "pages_used p ! ?i")
    case True
    then have "free_set p - {?i} = free_set p" by (auto simp: free_set_def)
    with True len assms show ?thesis by (simp add: RESERVE_PAGE_def pa_step_def)
  next
    case False
    let ?p = "p\<lparr>pages_used := (pages_used p)[?i := True], FREE_MEMORY := FREE_MEMORY p - 4096,
      RESERVED_MEMORY := RESERVED_MEMORY p + 4096\<rparr>"
    have fs: "free_set ?p = free_set p - {?i}"
      using free_set_take [OF len] by (simp add: free_set_def)
    have "?i \<in> free_set p" using False len by (simp add: free_set_def)
    then have c: "card (free_set p) = Suc (card (free_set p - {?i}))"
      by (metis card_Suc_Diff1 free_set_finite)
    have "slack ?p = slack p" unfolding slack_def fs c by simp
    moreover have "pa_inv ?p" using assms by (auto simp: pa_inv_def nth_list_update)
    ultimately show ?thesis using False len fs by (auto simp: RESERVE_PAGE_def pa_step_def accounted_def)
  qed
qed

text \<open>Giving a page back, with either counter.\<close>

lemma give_back_step:
  assumes "pa_inv p" and i: "i < total_pages p"
    and p': "p' = p\<lparr>pages_used := (pages_used p)[i := False], FREE_MEMORY := FREE_MEMORY p + 4096,
      USED_MEMORY := u, RESERVED_MEMORY := r, page_index := min (page_index p) i\<rparr>"
    and "pages_used p ! i" and "u + r = USED_MEMORY p + RESERVED_MEMORY p - 4096"
  shows "pa_step p p' i False"
proof -
  have len: "i < length (pages_used p)" "length (pages_used p) = total_pages p"
    using assms by (auto simp: pa_inv_def)
  have fs: "free_set p' = insert i (free_set p)"
    using free_set_give [OF len] by (simp add: free_set_def p')
  have "i \<notin> free_set p" using assms(4) by (simp add: free_set_def)
  then have c: "card (free_set p') = Suc (card (free_set p))" unfolding fs by simp
  have "slack p' = slack p" unfolding slack_def c by (simp add: p')
  moreover have "accounted p' = accounted p"
    using assms(5) by (simp add: accounted_def p' algebra_simps)
  moreover have "pa_inv p'" using assms(1) by (auto simp: pa_inv_def nth_list_update p')
  ultimately show ?thesis using fs by (simp add: pa_step_def p')
qed

lemma FREE_PAGE_step:
  assumes "pa_inv p" and "adr div 4096 < total_pages p"
  shows "\<exists>p'. FREE_PAGE adr p = Some p' \<and> pa_step p p' (adr div 4096) False"
proof -
  let ?i = "adr div 4096"
  have len: "?i < length (pages_used p)" using assms by (auto simp: pa_inv_def)
  show ?thesis
  proof (cases "pages_used p ! ?i")
    case True
    from give_back_step [OF assms refl True, of "USED_MEMORY p - 4096" "RESERVED_MEMORY p"] True len
    show ?thesis by (simp add: FREE_PAGE_def Let_def)
  next
    case False
    then have "insert ?i (free_set p) = free_set p" using assms by (auto simp: free_set_def)
    with False len assms show ?thesis by (simp add: FREE_PAGE_def pa_step_def)
  qed
qed

lemma UNRESERVE_PAGE_step:
  assumes "pa_inv p" and "adr div 4096 < total_pages p"
  shows "\<exists>p'. UNRESERVE_PAGE adr p = Some p' \<and> pa_step p p' (adr div 4096) False"
proof -
  let ?i = "adr div 4096"
  have len: "?i < length (pages_used p)" using assms by (auto simp: pa_inv_def)
  show ?thesis
  proof (cases "pages_used p ! ?i")
    case True
    from give_back_step [OF assms refl True, of "USED_MEMORY p" "RESERVED_MEMORY p - 4096"] True len
    show ?thesis by (simp add: UNRESERVE_PAGE_def Let_def)
  next
    case False
    then have "insert ?i (free_set p) = free_set p" using assms by (auto simp: free_set_def)
    with False len assms show ?thesis by (simp add: UNRESERVE_PAGE_def pa_step_def)
  qed
qed

lemma pa_inv_below:
  assumes "pa_inv p" and "page_index p < total_pages p"
  shows "\<not> pages_used p ! page_index p \<Longrightarrow> page_index p = Min (free_set p) \<and> page_index p \<in> free_set p"
    and "pages_used p ! page_index p \<Longrightarrow> pa_inv (p\<lparr>page_index := page_index p + 1\<rparr>)"
proof -
  assume "\<not> pages_used p ! page_index p"
  then have i: "page_index p \<in> free_set p" using assms(2) by (simp add: free_set_def)
  have "\<forall>j \<in> free_set p. page_index p \<le> j"
    using assms(1) by (auto simp: pa_inv_def free_set_def not_le intro: ccontr)
  with i show "page_index p = Min (free_set p) \<and> page_index p \<in> free_set p"
    by (metis Min_eqI free_set_finite)
next
  assume "pages_used p ! page_index p"
  with assms show "pa_inv (p\<lparr>page_index := page_index p + 1\<rparr>)"
    by (auto simp: pa_inv_def less_Suc_eq)
qed

lemma REQUEST_PAGE_spec:
  assumes "pa_inv p"
  shows "\<exists>p'. if free_set p = {}
    then REQUEST_PAGE p = Some (0, p') \<and> pa_inv p' \<and> free_set p' = {} \<and> total_pages p' = total_pages p \<and>
      accounted p' = accounted p \<and> slack p' = slack p
    else REQUEST_PAGE p = Some (4096 * Min (free_set p), p') \<and> pa_step p p' (Min (free_set p)) True"
  using assms
proof (induction "total_pages p - page_index p" arbitrary: p rule: less_induct)
  case less
  show ?case
  proof (cases "page_index p < total_pages p")
    case False
    then have "free_set p = {}" using less.prems by (auto simp: pa_inv_def free_set_def)
    with False less.prems show ?thesis by (subst REQUEST_PAGE.simps) auto
  next
    case True
    have len: "page_index p < length (pages_used p)" "total_pages p < 2 ^ 52"
      using less.prems True by (auto simp: pa_inv_def)
    show ?thesis
    proof (cases "pages_used p ! page_index p")
      case False
      note m = pa_inv_below(1) [OF less.prems True False]
      have w: "wrap64 (page_index p * 4096) = 4096 * page_index p"
        using True len(2) by (subst wrap64_small) auto
      have "4096 * page_index p div 4096 = page_index p" by simp
      with LOCK_PAGE_step [OF less.prems, of "4096 * page_index p"] True obtain p' where
        p': "LOCK_PAGE (4096 * page_index p) p = Some p'" "pa_step p p' (page_index p) True"
        "page_index p' = page_index p" by auto
      have "REQUEST_PAGE p = Some (4096 * page_index p, p')"
        using True False len p'(1,3) by (subst REQUEST_PAGE.simps) (simp add: w)
      with m p' show ?thesis by auto
    next
      case True2: True
      let ?p = "p\<lparr>page_index := page_index p + 1\<rparr>"
      have u: "REQUEST_PAGE p = REQUEST_PAGE ?p"
        using True True2 len by (subst REQUEST_PAGE.simps) simp
      have fs: "free_set ?p = free_set p" "total_pages ?p = total_pages p" "accounted ?p = accounted p"
        "slack ?p = slack p"
        by (simp_all add: free_set_def accounted_def slack_def)
      have "\<exists>p'. if free_set ?p = {}
        then REQUEST_PAGE ?p = Some (0, p') \<and> pa_inv p' \<and> free_set p' = {} \<and> total_pages p' = total_pages ?p \<and>
          accounted p' = accounted ?p \<and> slack p' = slack ?p
        else REQUEST_PAGE ?p = Some (4096 * Min (free_set ?p), p') \<and> pa_step ?p p' (Min (free_set ?p)) True"
        by (rule less.hyps) (use True pa_inv_below(2) [OF less.prems True True2] in auto)
      then show ?thesis unfolding u fs pa_step_def by simp
    qed
  qed
qed

section \<open>The contract of a page source\<close>

text \<open>\<open>free p\<close> is the set of free pages; \<open>take\<close> removes one of them, \<open>give\<close> returns one.\<close>

locale page_source =
  fixes ok :: "'p \<Rightarrow> bool"
    and free :: "'p \<Rightarrow> nat set"
    and limit :: "'p \<Rightarrow> nat"
    and take :: "'p \<Rightarrow> (nat \<times> 'p) option"
    and give :: "nat \<Rightarrow> 'p \<Rightarrow> 'p option"
  assumes take_ok: "ok p \<Longrightarrow> free p \<noteq> {} \<Longrightarrow>
      \<exists>i p'. take p = Some (4096 * i, p') \<and> i \<in> free p \<and> free p' = free p - {i} \<and> ok p' \<and> limit p' = limit p"
    and give_ok: "ok p \<Longrightarrow> i < limit p \<Longrightarrow>
      \<exists>p'. give (4096 * i) p = Some p' \<and> free p' = insert i (free p) \<and> ok p' \<and> limit p' = limit p"
    and free_limit: "ok p \<Longrightarrow> i \<in> free p \<Longrightarrow> i < limit p"
    and free_finite: "ok p \<Longrightarrow> finite (free p)"
begin

lemma take_give:
  assumes "ok p" and "free p \<noteq> {}"
  shows "\<exists>i p' p''. take p = Some (4096 * i, p') \<and> give (4096 * i) p' = Some p'' \<and> ok p'' \<and> free p'' = free p"
proof -
  from take_ok [OF assms] obtain i p' where t: "take p = Some (4096 * i, p')" "i \<in> free p"
    "free p' = free p - {i}" "ok p'" "limit p' = limit p" by blast
  from give_ok [OF t(4), of i] free_limit [OF assms(1) t(2)] t obtain p'' where
    "give (4096 * i) p' = Some p''" "free p'' = insert i (free p')" "ok p''" by auto
  with t show ?thesis by (metis insert_Diff_single insert_absorb)
qed

text \<open>Two pages taken in a row are different, and neither is free afterwards.\<close>

lemma take_twice:
  assumes "ok p" and "2 \<le> card (free p)"
  shows "\<exists>i j p' p''. take p = Some (4096 * i, p') \<and> take p' = Some (4096 * j, p'') \<and> i \<noteq> j \<and> ok p'' \<and>
    free p'' = free p - {i, j}"
proof -
  have "free p \<noteq> {}" using assms(2) by auto
  from take_ok [OF assms(1) this] obtain i p' where t: "take p = Some (4096 * i, p')" "i \<in> free p"
    "free p' = free p - {i}" "ok p'" by blast
  have "card (free p') = card (free p) - 1" using t free_finite [OF assms(1)] by simp
  then have "free p' \<noteq> {}" using assms(2) by auto
  from take_ok [OF t(4) this] obtain j p'' where u: "take p' = Some (4096 * j, p'')" "j \<in> free p'"
    "free p'' = free p' - {j}" "ok p''" by blast
  have "i \<noteq> j" "free p'' = free p - {i, j}" using t(3) u(2,3) by auto
  with t(1) u(1,4) show ?thesis by blast
qed

end

interpretation pages: page_source pa_inv free_set total_pages REQUEST_PAGE FREE_PAGE
proof
  show "\<exists>i p'. REQUEST_PAGE p = Some (4096 * i, p') \<and> i \<in> free_set p \<and> free_set p' = free_set p - {i} \<and>
      pa_inv p' \<and> total_pages p' = total_pages p" if "pa_inv p" "free_set p \<noteq> {}" for p
  proof -
    from REQUEST_PAGE_spec [OF that(1)] that(2) obtain p' where
      "REQUEST_PAGE p = Some (4096 * Min (free_set p), p')" "pa_step p p' (Min (free_set p)) True" by auto
    with Min_in [OF free_set_finite that(2)] show ?thesis by (auto simp: pa_step_def)
  qed
  show "\<exists>p'. FREE_PAGE (4096 * i) p = Some p' \<and> free_set p' = insert i (free_set p) \<and>
      pa_inv p' \<and> total_pages p' = total_pages p" if "pa_inv p" "i < total_pages p" for p i
    using FREE_PAGE_step [OF that(1), of "4096 * i"] that(2) by (auto simp: pa_step_def)
qed (auto simp: free_set_def)

section \<open>Runs of allocator calls\<close>

text \<open>Calls with an address inside the managed memory, in any order.\<close>

inductive pa_call :: "page_alloc \<Rightarrow> page_alloc \<Rightarrow> bool" where
  request: "REQUEST_PAGE p = Some (adr, p') \<Longrightarrow> pa_call p p'"
| lock: "adr div 4096 < total_pages p \<Longrightarrow> LOCK_PAGE adr p = Some p' \<Longrightarrow> pa_call p p'"
| free: "adr div 4096 < total_pages p \<Longrightarrow> FREE_PAGE adr p = Some p' \<Longrightarrow> pa_call p p'"
| reserve: "adr div 4096 < total_pages p \<Longrightarrow> RESERVE_PAGE adr p = Some p' \<Longrightarrow> pa_call p p'"
| unreserve: "adr div 4096 < total_pages p \<Longrightarrow> UNRESERVE_PAGE adr p = Some p' \<Longrightarrow> pa_call p p'"

lemma pa_call_balance:
  assumes "pa_call p p'" and "pa_inv p"
  shows "pa_inv p' \<and> total_pages p' = total_pages p \<and> accounted p' = accounted p \<and> slack p' = slack p"
  using assms(1)
proof (cases rule: pa_call.cases)
  case (request adr)
  with REQUEST_PAGE_spec [OF assms(2)] show ?thesis by (auto simp: pa_step_def split: if_splits)
next
  case (lock adr)
  with LOCK_PAGE_step [OF assms(2), of adr] show ?thesis by (auto simp: pa_step_def)
next
  case (free adr)
  with FREE_PAGE_step [OF assms(2), of adr] show ?thesis by (auto simp: pa_step_def)
next
  case (reserve adr)
  with RESERVE_PAGE_step [OF assms(2), of adr] show ?thesis by (auto simp: pa_step_def)
next
  case (unreserve adr)
  with UNRESERVE_PAGE_step [OF assms(2), of adr] show ?thesis by (auto simp: pa_step_def)
qed

section \<open>Properties\<close>

text \<open>
  C19. \<open>REQUEST_PAGE\<close> terminates and returns the lowest free page, which it marks used and charges
  to the counters; when no page is free it returns NULL and changes nothing but the search
  position.  The invariant behind it (no free page below \<open>page_index\<close>) is kept.
\<close>

theorem request_page_lowest_free:
  assumes "pa_inv p"
  shows "\<exists>p'. if free_set p = {}
    then REQUEST_PAGE p = Some (0, p') \<and> pa_inv p' \<and> free_set p' = {} \<and> total_pages p' = total_pages p \<and>
      accounted p' = accounted p \<and> slack p' = slack p
    else REQUEST_PAGE p = Some (4096 * Min (free_set p), p') \<and> pa_step p p' (Min (free_set p)) True"
  using assms by (rule REQUEST_PAGE_spec)

definition pages0 :: page_alloc where
  "pages0 = \<lparr>FREE_MEMORY = 8192, USED_MEMORY = 8192, RESERVED_MEMORY = 0,
     pages_used = [True, False, True, False], total_pages = 4, page_index = 0\<rparr>"

lemma pages0_inv: "pa_inv pages0"
  by (simp add: pa_inv_def pages0_def)

lemma pages0_free: "free_set pages0 = {1, 3}"
  by (auto simp: free_set_def pages0_def less_Suc_eq numeral_nat)

theorem request_page_lowest_free_witness:
  "\<exists>p'. REQUEST_PAGE pages0 = Some (4096, p') \<and> free_set p' = {3}"
  using request_page_lowest_free [OF pages0_inv] by (auto simp: pages0_free pa_step_def)

text \<open>
  How the memory in use is split between the other two counters can drift: \<open>FREE_PAGE\<close> does not
  ask which of them a page was counted in.
\<close>

lemma reserve_then_free_drifts:
  assumes "pa_inv p" and "a div 4096 < total_pages p" and "\<not> pages_used p ! (a div 4096)"
  shows "\<exists>p1 p2. RESERVE_PAGE a p = Some p1 \<and> FREE_PAGE a p1 = Some p2 \<and> pages_used p2 = pages_used p \<and>
    USED_MEMORY p2 = USED_MEMORY p - 4096 \<and> RESERVED_MEMORY p2 = RESERVED_MEMORY p + 4096"
proof -
  have l: "a div 4096 < length (pages_used p)" using assms(1,2) by (simp add: pa_inv_def)
  moreover have "(pages_used p)[a div 4096 := False] = pages_used p"
    using assms(3) by (metis (full_types) list_update_id)
  ultimately show ?thesis using assms(3) by (simp add: RESERVE_PAGE_def FREE_PAGE_def Let_def)
qed

text \<open>
  C20. Over any sequence of single-page calls inside the managed memory, the sum of the three
  counters never changes and the free counter differs from 4096 times the number of free
  pages by a constant (in \<open>uint64_t\<close>): what is reported as free cannot drift from the page map,
  nor can the used and the reserved memory together.
\<close>

theorem page_counters_balance:
  assumes "pa_call\<^sup>*\<^sup>* p p'" and "pa_inv p"
  shows "pa_inv p' \<and> accounted p' = accounted p \<and> slack p' = slack p"
  using assms
proof (induction rule: rtranclp_induct)
  case (step p1 p2)
  then show ?case using pa_call_balance by simp
qed simp

theorem page_counters_balance_witness:
  "\<exists>p'. pa_call\<^sup>*\<^sup>* pages0 p' \<and> slack p' = 0 \<and> accounted p' = 16384"
proof -
  have lim: "4096 div 4096 < total_pages pages0" by (simp add: pages0_def)
  from LOCK_PAGE_step [OF pages0_inv lim] pa_call.lock [OF lim]
  obtain p' where "pa_call pages0 p'" by blast
  then have r: "pa_call\<^sup>*\<^sup>* pages0 p'" by (rule r_into_rtranclp)
  have "slack pages0 = 0" "accounted pages0 = 16384"
    by (simp_all add: slack_def accounted_def pages0_free) (simp_all add: pages0_def)
  with page_counters_balance [OF r pages0_inv] r show ?thesis by auto
qed

end
