(* ===== verification/PageTable.thy ===== *)
theory PageTable
  imports PageAlloc "HOL-Library.Sublist"
begin

text \<open>
  The four-level page tables of \<open>kernel/src/paging.c\<close>.  Physical memory is a map from byte
  addresses (of 8-byte words) to \<open>uint64_t\<close>; a table is 512 words from its base on.  The abstract
  view is the tree of tables under \<open>KERNEL_PL4\<close>, addressed by the list of table indices on the
  way down, and \<open>translate\<close>, what the processor makes of it.
\<close>

section \<open>Entries\<close>

definition PT_Present :: u64 where "PT_Present = 1"
definition PT_RW :: u64 where "PT_RW = 2"
definition PT_UserSuper :: u64 where "PT_UserSuper = 4"
definition PT_WriteThrough :: u64 where "PT_WriteThrough = 8"
definition PT_CacheDisabled :: u64 where "PT_CacheDisabled = 16"
definition PT_PageAttributeTable :: u64 where "PT_PageAttributeTable = 128"

definition PT_SET_FLAG :: "u64 \<Rightarrow> u64 \<Rightarrow> u64" where
  "PT_SET_FLAG v flag = v OR flag"

definition PT_RESET_FLAG :: "u64 \<Rightarrow> u8 \<Rightarrow> u64" where
  "PT_RESET_FLAG v flag = v AND NOT (scast flag)"

definition PT_GET_FLAG :: "u64 \<Rightarrow> u64 \<Rightarrow> bool" where
  "PT_GET_FLAG v flag \<longleftrightarrow> v AND flag \<noteq> 0"

definition PT_SET_ADR :: "u64 \<Rightarrow> u64 \<Rightarrow> u64" where
  "PT_SET_ADR v adr = (v AND 0xfff0000000000fff) OR (0x000ffffffffff000 AND adr)"

definition PT_GET_ADR :: "u64 \<Rightarrow> u64" where
  "PT_GET_ADR v = v AND 0x000ffffffffff00"

section \<open>State and operations\<close>

record paging =
  pa :: page_alloc
  KERNEL_PL4 :: nat
  pmem :: "nat \<Rightarrow> u64"

definition PL4_ofset :: "u64 \<Rightarrow> nat" where "PL4_ofset virt = unat (drop_bit 39 virt AND 0x1ff)"
definition PDP_ofset :: "u64 \<Rightarrow> nat" where "PDP_ofset virt = unat (drop_bit 30 virt AND 0x1ff)"
definition PD_ofset :: "u64 \<Rightarrow> nat" where "PD_ofset virt = unat (drop_bit 21 virt AND 0x1ff)"
definition PT_ofset :: "u64 \<Rightarrow> nat" where "PT_ofset virt = unat (drop_bit 12 virt AND 0x1ff)"

text \<open>\<open>memset(temp, 0, 4096)\<close>\<close>

definition zero_page :: "nat \<Rightarrow> (nat \<Rightarrow> u64) \<Rightarrow> nat \<Rightarrow> u64" where
  "zero_page t m = (\<lambda>a. if t \<le> a \<and> a < t + 4096 then 0 else m a)"

text \<open>One round of the loop of \<open>navigate_to_PL1\<close>: the table below entry \<open>i\<close> of \<open>cur\<close>, made if missing.\<close>

definition descend :: "nat \<Rightarrow> nat \<Rightarrow> paging \<Rightarrow> (nat \<times> paging) option" where
  "descend cur i s = do {
     let e = cur + 8 * i;
     s \<leftarrow> (if \<not> PT_GET_FLAG (pmem s e) PT_Present
           then do {
             (temp, p) \<leftarrow> REQUEST_PAGE (pa s);
             let m = zero_page temp (pmem s);
             let m = m(e := PT_SET_FLAG (m e) (PT_Present OR PT_RW OR PT_UserSuper));
             let m = m(e := PT_SET_ADR (m e) (of_nat temp));
             Some (s\<lparr>pa := p, pmem := m\<rparr>) }
           else Some s);
     Some (unat (PT_GET_ADR (pmem s e)), s) }"

fun navigate :: "nat list \<Rightarrow> nat \<Rightarrow> paging \<Rightarrow> (nat \<times> paging) option" where
  "navigate [] cur s = Some (cur, s)"
| "navigate (i # offsets) cur s = do {
     r \<leftarrow> descend cur i s;
     navigate offsets (fst r) (snd r) }"

definition navigate_to_PL1 :: "u64 \<Rightarrow> paging \<Rightarrow> (nat \<times> paging) option" where
  "navigate_to_PL1 virt s = navigate [PL4_ofset virt, PDP_ofset virt, PD_ofset virt] (KERNEL_PL4 s) s"

definition map_mem_with_flags :: "u64 \<Rightarrow> u64 \<Rightarrow> u64 \<Rightarrow> paging \<Rightarrow> paging option" where
  "map_mem_with_flags virtadr physadr flags s = do {
     (pl1, s) \<leftarrow> navigate_to_PL1 virtadr s;
     let e = pl1 + 8 * PT_ofset virtadr;
     let m = (pmem s)(e := PT_SET_FLAG (pmem s e) flags);
     let m = m(e := PT_SET_ADR (m e) physadr);
     Some (s\<lparr>pmem := m\<rparr>) }"

definition unmap_mem :: "u64 \<Rightarrow> paging \<Rightarrow> paging option" where
  "unmap_mem virtadr s = do {
     (pl1, s) \<leftarrow> navigate_to_PL1 virtadr s;
     let e = pl1 + 8 * PT_ofset virtadr;
     p \<leftarrow> FREE_PAGE (unat (PT_GET_ADR (pmem s e))) (pa s);
     let m = (pmem s)(e := PT_SET_FLAG (pmem s e) 0);
     let m = m(e := PT_SET_ADR (m e) 0);
     Some (s\<lparr>pa := p, pmem := m\<rparr>) }"

definition map_mem :: "u64 \<Rightarrow> u64 \<Rightarrow> paging \<Rightarrow> paging option" where
  "map_mem virtadr physadr s = map_mem_with_flags virtadr physadr (PT_RW OR PT_Present OR PT_UserSuper) s"

text \<open>An \<open>int\<close> added to a pointer.\<close>

definition ptr_add :: "u64 \<Rightarrow> int \<Rightarrow> u64" where
  "ptr_add p d = p + of_int d"

text \<open>\<open>i * 4096\<close> with \<open>int i\<close>: the product overflows from the page \<open>2 ^ 19\<close> on.\<close>

fun map_pages_loop :: "(u64 \<Rightarrow> u64 \<Rightarrow> paging \<Rightarrow> paging option) \<Rightarrow> u64 \<Rightarrow> u64 \<Rightarrow> nat \<Rightarrow> nat \<Rightarrow> paging \<Rightarrow> paging option" where
  "map_pages_loop mp virtadr physadr i 0 s = Some s"
| "map_pages_loop mp virtadr physadr i (Suc k) s =
     (if 4096 * i < 2 ^ 31
      then do {
        s \<leftarrow> mp (ptr_add virtadr (int i * 4096)) (ptr_add physadr (int i * 4096)) s;
        map_pages_loop mp virtadr physadr (Suc i) k s }
      else None)"

definition map_pages :: "u64 \<Rightarrow> u64 \<Rightarrow> nat \<Rightarrow> paging \<Rightarrow> paging option" where
  "map_pages virtadr physadr pages s = map_pages_loop map_mem virtadr physadr 0 pages s"

definition map_fb_pages :: "u64 \<Rightarrow> u64 \<Rightarrow> nat \<Rightarrow> paging \<Rightarrow> paging option" where
  "map_fb_pages virtadr physadr pages s =
     map_pages_loop (\<lambda>v p. map_mem_with_flags v p
       (PT_Present OR PT_RW OR PT_WriteThrough OR PT_CacheDisabled OR PT_PageAttributeTable))
       virtadr physadr 0 pages s"

text \<open>\<open>map_mem(adr, REQUEST_PAGE())\<close>\<close>

definition map_fresh_page :: "u64 \<Rightarrow> paging \<Rightarrow> paging option" where
  "map_fresh_page virtadr s = do {
     (t, p) \<leftarrow> REQUEST_PAGE (pa s);
     map_mem virtadr (of_nat t) (s\<lparr>pa := p\<rparr>) }"

text \<open>\<open>for (int i = 0; i < bytes; i += 4096)\<close>: the step overflows when 2 GiB are reached.\<close>

function request_mapped_loop :: "u64 \<Rightarrow> nat \<Rightarrow> nat \<Rightarrow> paging \<Rightarrow> paging option" where
  "request_mapped_loop virtadr bytes i s =
     (if i < bytes
      then do {
        s \<leftarrow> map_fresh_page (ptr_add virtadr (int i)) s;
        if i + 4096 < 2 ^ 31 then request_mapped_loop virtadr bytes (i + 4096) s else None }
      else Some s)"
  by pat_completeness auto
termination
  by (relation "measure (\<lambda>(v, b, i, s). b - i)") auto

declare request_mapped_loop.simps [simp del]

definition request_mapped_pages :: "u64 \<Rightarrow> nat \<Rightarrow> paging \<Rightarrow> paging option" where
  "request_mapped_pages virtadr bytes s = request_mapped_loop virtadr bytes 0 s"

section \<open>Starting up\<close>

text \<open>The first loop of \<open>INIT_PAGING\<close>: the first of the largest conventional regions.\<close>

fun largest_segment :: "EFI_MEMORY_DESCRIPTOR list \<Rightarrow> EFI_MEMORY_DESCRIPTOR option \<Rightarrow> nat \<Rightarrow> EFI_MEMORY_DESCRIPTOR option" where
  "largest_segment [] seg sz = seg"
| "largest_segment (desc # memMap) seg sz =
     (if Type desc = EfiConventionalMemory \<and> NumberOfPages desc > sz
      then largest_segment memMap (Some desc) (NumberOfPages desc)
      else largest_segment memMap seg sz)"

fun reserve_regions :: "EFI_MEMORY_DESCRIPTOR list \<Rightarrow> page_alloc \<Rightarrow> page_alloc option" where
  "reserve_regions [] p = Some p"
| "reserve_regions (desc # memMap) p = do {
     p \<leftarrow> (if Type desc \<noteq> EfiConventionalMemory
           then RESERVE_PAGES (PhysicalStart desc) (NumberOfPages desc) p else Some p);
     reserve_regions memMap p }"

text \<open>
  \<open>KernelStart\<close> and \<open>KernelEnd\<close> are linker symbols and the frame buffer's base and size come from
  the firmware; \<open>m\<close> is the memory found.  Loading \<open>cr3\<close> has no counterpart.
\<close>

definition INIT_PAGING ::
  "EFI_MEMORY_DESCRIPTOR list \<Rightarrow> nat \<Rightarrow> nat \<Rightarrow> u64 \<Rightarrow> nat \<Rightarrow> (nat \<Rightarrow> u64) \<Rightarrow> paging option" where
  "INIT_PAGING memMap KernelStart KernelEnd fb_base fb_size m = do {
     let total_mem = getMemorySize memMap 0;
     seg \<leftarrow> largest_segment memMap None 0;
     let total = total_mem div 4096 + 1;
     let p = \<lparr>FREE_MEMORY = of_nat total_mem, USED_MEMORY = 0, RESERVED_MEMORY = 0,
              pages_used = replicate total False, total_pages = total, page_index = 0\<rparr>;
     p \<leftarrow> RESERVE_PAGES 0 0x100 p;
     p \<leftarrow> LOCK_PAGES (PhysicalStart seg) (total div 4096 + 1) p;
     p \<leftarrow> reserve_regions memMap p;
     let kernel_size = wrap64 (KernelEnd + 2 ^ 64 - KernelStart + 4095) div 4096 * 4096 div 4096;
     p \<leftarrow> LOCK_PAGES KernelStart kernel_size p;
     (pl4, p) \<leftarrow> REQUEST_PAGE p;
     let s = \<lparr>pa = p, KERNEL_PL4 = pl4, pmem = zero_page pl4 m\<rparr>;
     s \<leftarrow> map_pages 0 0 (total_mem div 4096) s;
     map_fb_pages fb_base fb_base ((fb_size + 4095) div 4096) s }"

section \<open>Bits of an entry\<close>

lemma adr_masks:
  "(0x000ffffffffff00 :: u64) = push_bit 8 (mask 40)"
  "(0x000ffffffffff000 :: u64) = push_bit 12 (mask 40)"
  "(0xfff0000000000fff :: u64) = NOT (push_bit 12 (mask 40))"
  by (simp_all add: mask_eq_exp_minus_1 push_bit_eq_mult)

lemma bit_PT_SET_ADR:
  "bit (PT_SET_ADR v a) n \<longleftrightarrow> (if 12 \<le> n \<and> n < 52 then bit a n else bit v n)"
  unfolding PT_SET_ADR_def adr_masks
  by (cases "n < 64") (auto simp: bit_simps dest: bit_imp_le_length)

lemma bit_PT_GET_ADR: "bit (PT_GET_ADR v) n \<longleftrightarrow> 8 \<le> n \<and> n < 48 \<and> bit v n"
  unfolding PT_GET_ADR_def adr_masks
  by (cases "n < 64") (auto simp: bit_simps dest: bit_imp_le_length)

lemma PT_Present_bit: "PT_GET_FLAG v PT_Present \<longleftrightarrow> bit v 0"
proof -
  have "v AND 1 = (if bit v 0 then 1 else 0)"
    by (rule bit_word_eqI) (auto simp: bit_simps intro!: gr0I)
  then show ?thesis by (simp add: PT_GET_FLAG_def PT_Present_def)
qed

text \<open>A physical page address the tables can hold: page aligned and below \<open>2 ^ 48\<close>.\<close>

lemma table_flags: "PT_Present OR PT_RW OR PT_UserSuper = mask 3"
  by (simp add: PT_Present_def PT_RW_def PT_UserSuper_def mask_eq_exp_minus_1)

lemma word_of_page_bits:
  assumes "a < 2 ^ 48" and "4096 dvd a" and "bit (of_nat a :: u64) n" shows "12 \<le> n \<and> n < 48"
proof -
  from assms(3) have b: "bit a n" by (simp add: bit_simps)
  obtain k where "a = 4096 * k" using assms(2) by (auto elim: dvdE)
  then have "a = push_bit 12 k" by (simp add: push_bit_eq_mult)
  with b have "bit (push_bit 12 k) n" by simp
  then have "12 \<le> n" by (simp only: bit_push_bit_iff)
  moreover have "n < 48"
  proof (rule ccontr)
    assume "\<not> n < 48"
    then have "a < 2 ^ n" using assms(1) power_increasing [of 48 n "2 :: nat"] by linarith
    then show False using b by (simp add: bit_iff_odd)
  qed
  ultimately show ?thesis ..
qed

lemma new_entry:
  assumes "a < 2 ^ 48" and "4096 dvd a"
  shows "PT_GET_FLAG (PT_SET_ADR (PT_SET_FLAG 0 (PT_Present OR PT_RW OR PT_UserSuper)) (of_nat a)) PT_Present"
    and "unat (PT_GET_ADR (PT_SET_ADR (PT_SET_FLAG 0 (PT_Present OR PT_RW OR PT_UserSuper)) (of_nat a))) = a"
proof -
  show "PT_GET_FLAG (PT_SET_ADR (PT_SET_FLAG 0 (PT_Present OR PT_RW OR PT_UserSuper)) (of_nat a)) PT_Present"
    by (simp add: PT_Present_bit bit_PT_SET_ADR PT_SET_FLAG_def table_flags bit_simps)
  have "PT_GET_ADR (PT_SET_ADR (PT_SET_FLAG 0 (PT_Present OR PT_RW OR PT_UserSuper)) (of_nat a)) = of_nat a"
  proof (rule bit_word_eqI)
    fix n assume "n < LENGTH(64)"
    show "bit (PT_GET_ADR (PT_SET_ADR (PT_SET_FLAG 0 (PT_Present OR PT_RW OR PT_UserSuper)) (of_nat a))) n =
        bit (of_nat a :: u64) n"
      using word_of_page_bits [OF assms, of n]
      by (auto simp: bit_PT_GET_ADR bit_PT_SET_ADR PT_SET_FLAG_def table_flags bit_mask_iff simp del: of_nat_push_bit)
  qed
  moreover have "a < 2 ^ 64" using assms(1) by simp
  ultimately show "unat (PT_GET_ADR (PT_SET_ADR (PT_SET_FLAG 0 (PT_Present OR PT_RW OR PT_UserSuper)) (of_nat a))) = a"
    by (simp add: unat_of_nat take_bit_nat_eq_self)
qed

lemma ofset_less: "PL4_ofset v < 512" "PDP_ofset v < 512" "PD_ofset v < 512" "PT_ofset v < 512"
proof -
  have "unat (w AND 0x1ff) < 512" for w :: u64
  proof -
    have "w AND 0x1ff = take_bit 9 w" by (simp add: take_bit_eq_mask mask_eq_exp_minus_1)
    then have "unat (w AND 0x1ff) = take_bit 9 (unat w)" by (simp only: unsigned_take_bit_eq)
    also have "\<dots> < 2 ^ 9" by (rule take_bit_nat_less_exp)
    finally show ?thesis by simp
  qed
  then show "PL4_ofset v < 512" "PDP_ofset v < 512" "PD_ofset v < 512" "PT_ofset v < 512"
    by (simp_all add: PL4_ofset_def PDP_ofset_def PD_ofset_def PT_ofset_def)
qed

section \<open>The tree of tables\<close>

text \<open>The table reached from base \<open>b\<close> by following present entries.\<close>

fun table_at :: "(nat \<Rightarrow> u64) \<Rightarrow> nat \<Rightarrow> nat list \<Rightarrow> nat option" where
  "table_at m b [] = Some b"
| "table_at m b (i # is) =
     (if PT_GET_FLAG (m (b + 8 * i)) PT_Present
      then table_at m (unat (PT_GET_ADR (m (b + 8 * i)))) is else None)"

lemma table_at_snoc:
  "table_at m b (p @ [i]) =
     (case table_at m b p of None \<Rightarrow> None
      | Some c \<Rightarrow> if PT_GET_FLAG (m (c + 8 * i)) PT_Present
                   then Some (unat (PT_GET_ADR (m (c + 8 * i)))) else None)"
  by (induction p arbitrary: b) auto

lemma table_at_append:
  "table_at m b (p @ q) = (case table_at m b p of None \<Rightarrow> None | Some c \<Rightarrow> table_at m c q)"
  by (induction p arbitrary: b) auto

abbreviation tbl :: "paging \<Rightarrow> nat list \<Rightarrow> nat option" where
  "tbl s p \<equiv> table_at (pmem s) (KERNEL_PL4 s) p"

text \<open>Paths to tables: at most three indices.\<close>

definition tpath :: "nat list \<Rightarrow> bool" where
  "tpath p \<longleftrightarrow> length p \<le> 3 \<and> (\<forall>i \<in> set p. i < 512)"

text \<open>
  Every table is a page of its own, aligned, in the managed memory and not free, and a missing
  entry of an upper table is 0.
\<close>

definition pt_inv :: "paging \<Rightarrow> bool" where
  "pt_inv s \<longleftrightarrow> pa_inv (pa s) \<and> total_pages (pa s) \<le> 2 ^ 36 \<and>
     (\<forall>p b. tpath p \<longrightarrow> tbl s p = Some b \<longrightarrow>
        4096 dvd b \<and> b div 4096 < total_pages (pa s) \<and> b div 4096 \<notin> free_set (pa s)) \<and>
     (\<forall>p q b. tpath p \<longrightarrow> tpath q \<longrightarrow> tbl s p = Some b \<longrightarrow> tbl s q = Some b \<longrightarrow> p = q) \<and>
     (\<forall>p b i. tpath p \<longrightarrow> length p < 3 \<longrightarrow> i < 512 \<longrightarrow> tbl s p = Some b \<longrightarrow>
        \<not> PT_GET_FLAG (pmem s (b + 8 * i)) PT_Present \<longrightarrow> pmem s (b + 8 * i) = 0)"

lemma pt_invD:
  assumes "pt_inv s" "tpath p" "tbl s p = Some b"
  shows "4096 dvd b" "b div 4096 < total_pages (pa s)" "b div 4096 \<notin> free_set (pa s)"
  using assms by (auto simp: pt_inv_def)

lemma pt_inv_inj: "pt_inv s \<Longrightarrow> tpath p \<Longrightarrow> tpath q \<Longrightarrow> tbl s p = Some b \<Longrightarrow> tbl s q = Some b \<Longrightarrow> p = q"
  unfolding pt_inv_def by blast

lemma pt_inv_missing:
  "pt_inv s \<Longrightarrow> tpath p \<Longrightarrow> length p < 3 \<Longrightarrow> i < 512 \<Longrightarrow> tbl s p = Some b \<Longrightarrow>
   \<not> PT_GET_FLAG (pmem s (b + 8 * i)) PT_Present \<Longrightarrow> pmem s (b + 8 * i) = 0"
  unfolding pt_inv_def by blast

text \<open>Entries of aligned tables are told apart by table and index.\<close>

lemma entry_eq:
  fixes b c :: nat
  assumes "4096 dvd b" "4096 dvd c" "i < 512" "j < 512" "b + 8 * i = c + 8 * j"
  shows "b = c \<and> i = j"
proof -
  obtain x y where "b = 4096 * x" "c = 4096 * y" using assms(1,2) by (auto elim!: dvdE)
  then have "512 * x + i = 512 * y + j" using assms(5) by linarith
  then have "(512 * x + i) div 512 = (512 * y + j) div 512" by simp
  then have "x = y" using assms(3,4) by simp
  with \<open>b = _\<close> \<open>c = _\<close> assms(5) show ?thesis by simp
qed

lemma entry_in_page:
  fixes b t :: nat
  assumes "4096 dvd b" "4096 dvd t" "i < 512" "t \<le> b + 8 * i" "b + 8 * i < t + 4096"
  shows "b = t"
proof -
  obtain x y where "b = 4096 * x" "t = 4096 * y" using assms(1,2) by (auto elim!: dvdE)
  moreover from this assms(3-5) have "x < y + 1" "y < x + 1" by linarith+
  ultimately show ?thesis by simp
qed

section \<open>Making a missing table\<close>

text \<open>Memory after a fresh zeroed page \<open>t\<close> has been hung under entry \<open>i\<close> of table \<open>b\<close>.\<close>

definition hang :: "(nat \<Rightarrow> u64) \<Rightarrow> nat \<Rightarrow> nat \<Rightarrow> nat \<Rightarrow> nat \<Rightarrow> u64" where
  "hang m b i t = (zero_page t m)(b + 8 * i :=
     PT_SET_ADR (PT_SET_FLAG 0 (PT_Present OR PT_RW OR PT_UserSuper)) (of_nat t))"

text \<open>What \<open>descend\<close> finds when the entry is missing and page \<open>k\<close> is free.\<close>

definition gap :: "paging \<Rightarrow> nat list \<Rightarrow> nat \<Rightarrow> nat \<Rightarrow> nat \<Rightarrow> bool" where
  "gap s p b i k \<longleftrightarrow> pt_inv s \<and> tpath p \<and> length p < 3 \<and> i < 512 \<and> tbl s p = Some b \<and>
     k \<in> free_set (pa s) \<and> \<not> PT_GET_FLAG (pmem s (b + 8 * i)) PT_Present"

lemma gap_page:
  assumes "gap s p b i k"
  shows "4096 dvd 4096 * k" "4096 * k < 2 ^ 48" "k < total_pages (pa s)"
  using assms by (auto simp: gap_def pt_inv_def free_set_def)

lemma gap_not_table:
  assumes "gap s p b i k" "tpath q" "tbl s q = Some c" shows "c \<noteq> 4096 * k"
  using pt_invD(3) [of s q c] assms by (auto simp: gap_def)

lemma gap_entry:
  assumes g: "gap s p b i k" and q: "tpath q" "tbl s q = Some c" and j: "j < 512"
  shows "hang (pmem s) b i (4096 * k) (c + 8 * j) =
    (if q = p \<and> j = i then PT_SET_ADR (PT_SET_FLAG 0 (PT_Present OR PT_RW OR PT_UserSuper)) (of_nat (4096 * k))
     else pmem s (c + 8 * j))"
proof (cases "q = p \<and> j = i")
  case True
  with g q show ?thesis by (simp add: hang_def gap_def)
next
  case False
  have inv: "pt_inv s" "tpath p" "tbl s p = Some b" "i < 512" using g by (auto simp: gap_def)
  have c: "4096 dvd c" "4096 dvd b" using pt_invD(1) [OF inv(1)] q inv by auto
  have "c + 8 * j \<noteq> b + 8 * i"
    using entry_eq [OF c j inv(4)] pt_inv_inj [OF inv(1) q(1) inv(2) q(2)] inv(3) False by auto
  moreover have "\<not> (4096 * k \<le> c + 8 * j \<and> c + 8 * j < 4096 * k + 4096)"
    using entry_in_page [OF c(1) gap_page(1) [OF g] j] gap_not_table [OF g q] by blast
  ultimately show ?thesis using False by (auto simp: hang_def zero_page_def)
qed

lemma gap_new_entry:
  assumes g: "gap s p b i k" and j: "j < 512"
  shows "hang (pmem s) b i (4096 * k) (4096 * k + 8 * j) = 0"
proof -
  have "4096 dvd b" "i < 512" "b \<noteq> 4096 * k"
    using pt_invD(1) [of s p b] gap_not_table [OF g] g by (auto simp: gap_def)
  then have "4096 * k + 8 * j \<noteq> b + 8 * i" using entry_eq [OF gap_page(1) [OF g] _ j] by metis
  with j show ?thesis by (simp add: hang_def zero_page_def)
qed

text \<open>The tree grows by the one path \<open>p @ [i]\<close>.\<close>

lemma gap_table_at:
  assumes g: "gap s p b i k" and q: "tpath q"
  shows "table_at (hang (pmem s) b i (4096 * k)) (KERNEL_PL4 s) q =
    (if prefix (p @ [i]) q then (if q = p @ [i] then Some (4096 * k) else None) else tbl s q)"
  using q
proof (induction q rule: rev_induct)
  case Nil
  then show ?case by simp
next
  case (snoc j q)
  let ?m = "hang (pmem s) b i (4096 * k)"
  have q: "tpath q" "j < 512" using snoc.prems by (auto simp: tpath_def)
  have inv: "pt_inv s" "tpath p" "tbl s p = Some b" using g by (auto simp: gap_def)
  note IH = snoc.IH [OF q(1)]
  consider (below) "prefix (p @ [i]) q" | (here) "q = p" "j = i"
    | (other) "\<not> prefix (p @ [i]) q" "\<not> (q = p \<and> j = i)" by blast
  then show ?case
  proof cases
    case below
    then have "q @ [j] \<noteq> p @ [i]" "prefix (p @ [i]) (q @ [j])"
      using prefix_length_le by fastforce+
    then show ?thesis
      using IH below gap_new_entry [OF g q(2)]
      by (auto simp: table_at_snoc PT_Present_bit)
  next
    case here
    have "\<not> prefix (p @ [i]) p" using prefix_length_le by fastforce
    then show ?thesis
      using IH here inv gap_entry [OF g inv(2,3) q(2)] new_entry [OF gap_page(2,1) [OF g]]
      by (auto simp: table_at_snoc)
  next
    case other
    then have "\<not> prefix (p @ [i]) (q @ [j])" by auto
    then show ?thesis
      using IH other gap_entry [OF g q(1) _ q(2)]
      by (auto simp: table_at_snoc split: option.split)
  qed
qed

section \<open>What mapping does to the tree\<close>

text \<open>
  What the processor makes of a leaf entry, and of a virtual address: nothing if a table or the
  page is not present, else the page frame in bits 12 to 51.
\<close>

definition leaf :: "paging \<Rightarrow> nat list \<Rightarrow> nat \<Rightarrow> u64 option" where
  "leaf s q j = (case tbl s q of None \<Rightarrow> None
     | Some c \<Rightarrow> if PT_GET_FLAG (pmem s (c + 8 * j)) PT_Present
                  then Some (pmem s (c + 8 * j) AND 0x000ffffffffff000) else None)"

definition translate :: "paging \<Rightarrow> u64 \<Rightarrow> u64 option" where
  "translate s virt = leaf s [PL4_ofset virt, PDP_ofset virt, PD_ofset virt] (PT_ofset virt)"

text \<open>The paths at which a table exists; each but the empty one was taken from the free pages.\<close>

definition table_paths :: "paging \<Rightarrow> nat list set" where
  "table_paths s = {q. tpath q \<and> tbl s q \<noteq> None}"

lemma table_paths_finite [simp]: "finite (table_paths s)"
proof (rule finite_subset)
  show "table_paths s \<subseteq> {q. set q \<subseteq> {..< 512} \<and> length q \<le> 3}"
    by (auto simp: table_paths_def tpath_def)
qed (simp add: finite_lists_length_le)

text \<open>\<open>s'\<close> has the tables of \<open>s\<close>, and perhaps more, each in a page that was free.\<close>

definition took :: "paging \<Rightarrow> paging \<Rightarrow> bool" where
  "took s s' \<longleftrightarrow> KERNEL_PL4 s' = KERNEL_PL4 s \<and> total_pages (pa s') = total_pages (pa s) \<and>
     free_set (pa s') \<subseteq> free_set (pa s) \<and>
     (\<forall>q c. tpath q \<longrightarrow> tbl s q = Some c \<longrightarrow> tbl s' q = Some c) \<and>
     (\<forall>q c. tpath q \<longrightarrow> tbl s' q = Some c \<longrightarrow> tbl s q = Some c \<or> c div 4096 \<in> free_set (pa s)) \<and>
     card (free_set (pa s')) + card (table_paths s') = card (free_set (pa s)) + card (table_paths s)"

lemma took_refl [simp]: "took s s"
  by (simp add: took_def)

lemma tookD:
  assumes "took s s'"
  shows "KERNEL_PL4 s' = KERNEL_PL4 s" and "total_pages (pa s') = total_pages (pa s)"
    and "free_set (pa s') \<subseteq> free_set (pa s)"
    and "\<And>q c. tpath q \<Longrightarrow> tbl s q = Some c \<Longrightarrow> tbl s' q = Some c"
    and "\<And>q c. tpath q \<Longrightarrow> tbl s' q = Some c \<Longrightarrow> tbl s q = Some c \<or> c div 4096 \<in> free_set (pa s)"
    and "card (free_set (pa s')) + card (table_paths s') = card (free_set (pa s)) + card (table_paths s)"
  using assms unfolding took_def by blast+

lemma took_trans:
  assumes "took s s'" and "took s' s''" shows "took s s''"
  unfolding took_def
proof (intro conjI allI impI)
  show "KERNEL_PL4 s'' = KERNEL_PL4 s" "total_pages (pa s'') = total_pages (pa s)"
    using assms by (simp_all only: tookD)
  show "free_set (pa s'') \<subseteq> free_set (pa s)"
    using tookD(3) [OF assms(1)] tookD(3) [OF assms(2)] by (rule order_trans [rotated])
  show "tbl s'' q = Some c" if "tpath q" "tbl s q = Some c" for q c
    using tookD(4) [OF assms(2) that(1)] tookD(4) [OF assms(1) that] by blast
  show "tbl s q = Some c \<or> c div 4096 \<in> free_set (pa s)" if "tpath q" "tbl s'' q = Some c" for q c
    using tookD(5) [OF assms(2) that] tookD(5) [OF assms(1) that(1)] tookD(3) [OF assms(1)] by blast
  show "card (free_set (pa s'')) + card (table_paths s'') = card (free_set (pa s)) + card (table_paths s)"
    using tookD(6) [OF assms(1)] tookD(6) [OF assms(2)] by linarith
qed

lemma took_paths: "took s s' \<Longrightarrow> table_paths s \<subseteq> table_paths s'"
  using tookD(4) by (fastforce simp: table_paths_def)

text \<open>It grew by tables only: it translates as \<open>s\<close> does.\<close>

definition grown :: "paging \<Rightarrow> paging \<Rightarrow> bool" where
  "grown s s' \<longleftrightarrow> took s s' \<and> (\<forall>q j. tpath q \<longrightarrow> length q = 3 \<longrightarrow> j < 512 \<longrightarrow> leaf s' q j = leaf s q j)"

lemma grown_refl [simp]: "grown s s"
  by (simp add: grown_def)

lemma grownD:
  assumes "grown s s'"
  shows "took s s'" and "\<And>q j. tpath q \<Longrightarrow> length q = 3 \<Longrightarrow> j < 512 \<Longrightarrow> leaf s' q j = leaf s q j"
  using assms unfolding grown_def by blast+

lemma grown_trans:
  assumes "grown s s'" and "grown s' s''" shows "grown s s''"
  using assms took_trans unfolding grown_def by metis

lemma gap_inv:
  assumes g: "gap s p b i k" and p': "pa_inv p'" "free_set p' = free_set (pa s) - {k}"
    "total_pages p' = total_pages (pa s)"
  shows "pt_inv (s\<lparr>pa := p', pmem := hang (pmem s) b i (4096 * k)\<rparr>)" (is "pt_inv ?s")
proof -
  have inv: "pt_inv s" "tpath p" "length p < 3" "i < 512" "tbl s p = Some b" using g by (auto simp: gap_def)
  have new: "tpath (p @ [i])" using inv by (auto simp: tpath_def)
  have t: "tbl ?s q = (if prefix (p @ [i]) q then (if q = p @ [i] then Some (4096 * k) else None) else tbl s q)"
    if "tpath q" for q using gap_table_at [OF g that] by simp
  have old: "q = p @ [i] \<and> c = 4096 * k \<or> q \<noteq> p @ [i] \<and> tbl s q = Some c" if "tpath q" "tbl ?s q = Some c" for q c
    using t [OF that(1)] that(2) by (auto split: if_splits)
  have A: "4096 dvd c \<and> c div 4096 < total_pages (pa ?s) \<and> c div 4096 \<notin> free_set (pa ?s)"
    if "tpath q" "tbl ?s q = Some c" for q c
    using old [OF that]
  proof (elim disjE conjE)
    assume "q = p @ [i]" "c = 4096 * k"
    then show ?thesis using gap_page [OF g] p' by simp
  next
    assume "tbl s q = Some c"
    from pt_invD [OF inv(1) that(1) this] show ?thesis using p' by simp
  qed
  have B: "q = r" if "tpath q" "tpath r" "tbl ?s q = Some c" "tbl ?s r = Some c" for q r c
  proof -
    note o = old [OF that(1,3)] old [OF that(2,4)] and h = that
    consider "q = p @ [i]" "r = p @ [i]" | "q = p @ [i]" "c = 4096 * k" "tbl s r = Some c"
      | "r = p @ [i]" "c = 4096 * k" "tbl s q = Some c" | "tbl s q = Some c" "tbl s r = Some c"
      using o by blast
    then show ?thesis
    proof cases
      case 4
      then show ?thesis using pt_inv_inj [OF inv(1) h(1,2)] by blast
    qed (use gap_not_table [OF g] h in blast)+
  qed
  have C: "pmem ?s (c + 8 * j) = 0" if "tpath q" "length q < 3" "j < 512" "tbl ?s q = Some c"
    "\<not> PT_GET_FLAG (pmem ?s (c + 8 * j)) PT_Present" for q c j
    using old [OF that(1,4)]
  proof (elim disjE conjE)
    assume "q = p @ [i]" "c = 4096 * k"
    then show ?thesis using gap_new_entry [OF g that(3)] by simp
  next
    assume "q \<noteq> p @ [i]" "tbl s q = Some c"
    then show ?thesis
      using gap_entry [OF g that(1) _ that(3)] that new_entry [OF gap_page(2,1) [OF g]]
        pt_inv_missing [OF inv(1) that(1,2,3)] by (auto split: if_splits)
  qed
  have "total_pages (pa ?s) \<le> 2 ^ 36" using inv(1) p'(3) by (simp add: pt_inv_def)
  moreover have "pa_inv (pa ?s)" using p'(1) by simp
  ultimately show ?thesis unfolding pt_inv_def using A B C by blast
qed

lemma gap_grown:
  assumes g: "gap s p b i k" and p': "free_set p' = free_set (pa s) - {k}"
    "total_pages p' = total_pages (pa s)"
  defines "s' \<equiv> s\<lparr>pa := p', pmem := hang (pmem s) b i (4096 * k)\<rparr>"
  shows "grown s s' \<and> table_paths s' = insert (p @ [i]) (table_paths s)"
proof -
  have inv: "pt_inv s" "tpath p" "length p < 3" "i < 512" "tbl s p = Some b" "k \<in> free_set (pa s)"
    "\<not> PT_GET_FLAG (pmem s (b + 8 * i)) PT_Present" using g by (auto simp: gap_def)
  have new: "tpath (p @ [i])" using inv by (auto simp: tpath_def)
  have none: "tbl s q = None" if "prefix (p @ [i]) q" for q
  proof -
    from that obtain r where "q = (p @ [i]) @ r" by (auto simp: prefix_def)
    then show ?thesis using inv by (simp add: table_at_append table_at_snoc)
  qed
  have t: "tbl s' q = (if prefix (p @ [i]) q then (if q = p @ [i] then Some (4096 * k) else None) else tbl s q)"
    if "tpath q" for q using gap_table_at [OF g that] by (simp add: s'_def)
  have lf: "leaf s' q j = leaf s q j" if q: "tpath q" "length q = 3" "j < 512" for q j
  proof (cases "prefix (p @ [i]) q")
    case True
    then show ?thesis
      using t [OF q(1)] none gap_new_entry [OF g q(3)] by (simp add: leaf_def PT_Present_bit s'_def)
  next
    case False
    have "q \<noteq> p" using q inv(3) by auto
    with False show ?thesis
      using t [OF q(1)] gap_entry [OF g q(1) _ q(3)] by (simp add: leaf_def s'_def split: option.split)
  qed
  have st: "tbl s' q = Some c" if "tpath q" "tbl s q = Some c" for q c
    using t [OF that(1)] none [of q] that(2) by auto
  have old: "tbl s q = Some c \<or> c div 4096 \<in> free_set (pa s)" if "tpath q" "tbl s' q = Some c" for q c
    using t [OF that(1)] that(2) inv(6) by (auto split: if_splits)
  have tp: "table_paths s' = insert (p @ [i]) (table_paths s)"
    using t none new unfolding table_paths_def by (auto split: if_splits)
  have "p @ [i] \<notin> table_paths s" using none by (simp add: table_paths_def)
  then have "card (free_set (pa s')) + card (table_paths s') = card (free_set (pa s)) + card (table_paths s)"
    using card_Suc_Diff1 [OF free_set_finite inv(6)] unfolding tp by (simp add: s'_def p'(1))
  moreover have "KERNEL_PL4 s' = KERNEL_PL4 s" "total_pages (pa s') = total_pages (pa s)"
    "free_set (pa s') \<subseteq> free_set (pa s)" using p' by (auto simp: s'_def)
  ultimately have "took s s'" using st old unfolding took_def by blast
  with lf tp show ?thesis unfolding grown_def by blast
qed

text \<open>A missing table costs a page; one that exists costs nothing.\<close>

lemma descend_spec:
  assumes inv: "pt_inv s" and p: "tpath p" "length p < 3" "i < 512" and b: "tbl s p = Some b"
    and free: "p @ [i] \<in> table_paths s \<or> free_set (pa s) \<noteq> {}"
  shows "\<exists>c s'. descend b i s = Some (c, s') \<and> pt_inv s' \<and> grown s s' \<and> tbl s' (p @ [i]) = Some c \<and>
    table_paths s' = insert (p @ [i]) (table_paths s)"
proof (cases "PT_GET_FLAG (pmem s (b + 8 * i)) PT_Present")
  case True
  have "tpath (p @ [i])" using p by (auto simp: tpath_def)
  with True b have "p @ [i] \<in> table_paths s" by (simp add: table_paths_def table_at_snoc)
  with True show ?thesis using inv b by (simp add: descend_def table_at_snoc insert_absorb)
next
  case False
  have "tbl s (p @ [i]) = None" using False b by (simp add: table_at_snoc)
  with free have free: "free_set (pa s) \<noteq> {}" by (simp add: table_paths_def)
  have "pa_inv (pa s)" using inv by (simp add: pt_inv_def)
  from pages.take_ok [OF this free] obtain k p' where k: "REQUEST_PAGE (pa s) = Some (4096 * k, p')"
    "k \<in> free_set (pa s)" "free_set p' = free_set (pa s) - {k}" "pa_inv p'"
    "total_pages p' = total_pages (pa s)" by blast
  have g: "gap s p b i k" using assms False k(2) by (simp add: gap_def)
  let ?s = "s\<lparr>pa := p', pmem := hang (pmem s) b i (4096 * k)\<rparr>"
  have "b \<noteq> 4096 * k" "4096 dvd b"
    using gap_not_table [OF g p(1) b] pt_invD(1) [OF inv p(1) b] by auto
  then have "\<not> (4096 * k \<le> b + 8 * i \<and> b + 8 * i < 4096 * k + 4096)"
    using entry_in_page [of b "4096 * k" i] gap_page(1) [OF g] p(3) by blast
  then have z: "zero_page (4096 * k) (pmem s) (b + 8 * i) = 0"
    using pt_inv_missing [OF inv p b False] by (auto simp: zero_page_def)
  have "descend b i s = Some (4096 * k, ?s)"
    using False k(1) new_entry(2) [OF gap_page(2,1) [OF g]] z
    by (simp add: descend_def Let_def hang_def)
  moreover have "tbl ?s (p @ [i]) = Some (4096 * k)"
    using gap_table_at [OF g, of "p @ [i]"] p by (simp add: tpath_def)
  ultimately show ?thesis using gap_inv [OF g k(4,3,5)] gap_grown [OF g k(3,5)] by blast
qed

text \<open>
  The free pages suffice for the tables at the paths \<open>P\<close>.  Making one of them keeps it so.
\<close>

definition affords :: "nat list set \<Rightarrow> paging \<Rightarrow> bool" where
  "affords P s \<longleftrightarrow> finite P \<and> card (P \<union> table_paths s) \<le> card (free_set (pa s)) + card (table_paths s)"

lemma affords_took:
  assumes "affords P s" and "took s s'" and "table_paths s' \<subseteq> P \<union> table_paths s"
  shows "affords P s'"
proof -
  have "P \<union> table_paths s' = P \<union> table_paths s" using took_paths [OF assms(2)] assms(3) by blast
  then show ?thesis using assms(1) tookD(6) [OF assms(2)] by (simp add: affords_def)
qed

lemma affords_mono: "affords P s \<Longrightarrow> Q \<subseteq> P \<Longrightarrow> affords Q s"
  unfolding affords_def
  by (meson Un_mono card_mono finite_UnI finite_subset order_refl order_trans table_paths_finite)

lemma affords_missing:
  assumes "affords P s" and "q \<in> P" shows "q \<in> table_paths s \<or> free_set (pa s) \<noteq> {}"
proof (rule ccontr)
  assume "\<not> ?thesis"
  then have n: "q \<notin> table_paths s" "free_set (pa s) = {}" by auto
  have "card (table_paths s) < card (P \<union> table_paths s)"
    using assms n(1) by (intro psubset_card_mono) (auto simp: affords_def)
  with assms(1) n(2) show False by (simp add: affords_def)
qed

lemma affords_card: "finite P \<Longrightarrow> card P \<le> card (free_set (pa s)) \<Longrightarrow> affords P s"
  using card_Un_le [of P "table_paths s"] by (simp add: affords_def)

lemma navigate_spec:
  assumes "pt_inv s" and "tpath (p @ is)" and "tbl s p = Some b" and "affords P s"
    and "\<And>q. prefix q is \<Longrightarrow> q \<noteq> [] \<Longrightarrow> p @ q \<in> P"
  shows "\<exists>c s'. navigate is b s = Some (c, s') \<and> pt_inv s' \<and> grown s s' \<and> tbl s' (p @ is) = Some c \<and>
    table_paths s' \<subseteq> P \<union> table_paths s"
  using assms
proof (induction "is" arbitrary: p b s)
  case Nil
  then show ?case by auto
next
  case (Cons i "is")
  have p: "tpath p" "length p < 3" "i < 512" using Cons.prems(2) by (auto simp: tpath_def)
  have "p @ [i] \<in> P" using Cons.prems(5) [of "[i]"] by simp
  from descend_spec [OF Cons.prems(1) p Cons.prems(3) affords_missing [OF Cons.prems(4) this]] obtain c s1 where
    d: "descend b i s = Some (c, s1)" "pt_inv s1" "grown s s1" "tbl s1 (p @ [i]) = Some c"
      "table_paths s1 = insert (p @ [i]) (table_paths s)" by blast
  have t: "tpath ((p @ [i]) @ is)" using Cons.prems(2) by simp
  have "table_paths s1 \<subseteq> P \<union> table_paths s" using d(5) \<open>p @ [i] \<in> P\<close> by simp
  then have a: "affords P s1" by (rule affords_took [OF Cons.prems(4) grownD(1) [OF d(3)]])
  have P: "(p @ [i]) @ q \<in> P" if "prefix q is" "q \<noteq> []" for q
    using Cons.prems(5) [of "i # q"] that by simp
  from Cons.IH [OF d(2) t d(4) a P] obtain c' s' where n:
    "navigate is c s1 = Some (c', s')" "pt_inv s'" "grown s1 s'" "tbl s' ((p @ [i]) @ is) = Some c'"
    "table_paths s' \<subseteq> P \<union> table_paths s1" by blast
  have "navigate (i # is) b s = Some (c', s')" using d(1) n(1) by simp
  moreover have "tbl s' (p @ i # is) = Some c'" using n(4) by simp
  moreover have "table_paths s' \<subseteq> P \<union> table_paths s" 
    by (rule order_trans [OF n(5)]) (simp add: d(5) \<open>p @ [i] \<in> P\<close>)
  moreover note n(2) grown_trans [OF d(3) n(3)]
  ultimately show ?case by (intro exI conjI)
qed

section \<open>Writing a leaf entry\<close>

lemma leaf_write_apart:
  assumes inv: "pt_inv s" and q: "tpath q" "length q = 3" "tbl s q = Some c" "j < 512"
    and r: "tpath r" "tbl s r = Some d" "i < 512" and ne: "r \<noteq> q \<or> i \<noteq> j"
  shows "d + 8 * i \<noteq> c + 8 * j"
  using entry_eq [of d c i j] pt_invD(1) [OF inv q(1,3)] pt_invD(1) [OF inv r(1,2)]
    pt_inv_inj [OF inv r(1) q(1) r(2)] q r ne by auto

lemma leaf_write_tbl:
  assumes inv: "pt_inv s" and q: "tpath q" "length q = 3" "tbl s q = Some c" "j < 512" and r: "tpath r"
  shows "tbl (s\<lparr>pmem := (pmem s)(c + 8 * j := v)\<rparr>) r = tbl s r"
  using r
proof (induction r rule: rev_induct)
  case (snoc i r)
  then have r: "tpath r" "i < 512" "r \<noteq> q" using q(2) by (auto simp: tpath_def)
  show ?case
  proof (cases "tbl s r")
    case None
    then show ?thesis using snoc.IH [OF r(1)] by (simp add: table_at_snoc)
  next
    case (Some d)
    then have "d + 8 * i \<noteq> c + 8 * j" using leaf_write_apart [OF inv q r(1) _ r(2)] r(3) by blast
    then show ?thesis using snoc.IH [OF r(1)] Some by (simp add: table_at_snoc)
  qed
qed simp

lemma leaf_write_leaf:
  assumes inv: "pt_inv s" and q: "tpath q" "length q = 3" "tbl s q = Some c" "j < 512"
    and r: "tpath r" "i < 512"
  shows "leaf (s\<lparr>pmem := (pmem s)(c + 8 * j := v)\<rparr>) r i =
    (if r = q \<and> i = j then (if PT_GET_FLAG v PT_Present then Some (v AND 0x000ffffffffff000) else None)
     else leaf s r i)"
proof (cases "tbl s r")
  case None
  then show ?thesis using leaf_write_tbl [OF inv q r(1)] q(3) by (auto simp: leaf_def)
next
  case (Some d)
  then have "d + 8 * i \<noteq> c + 8 * j" if "r \<noteq> q \<or> i \<noteq> j"
    using leaf_write_apart [OF inv q r(1) _ r(2)] that by blast
  then show ?thesis using leaf_write_tbl [OF inv q r(1)] Some q(3) by (auto simp: leaf_def)
qed

lemma leaf_write_inv:
  assumes inv: "pt_inv s" and q: "tpath q" "length q = 3" "tbl s q = Some c" "j < 512"
  shows "pt_inv (s\<lparr>pmem := (pmem s)(c + 8 * j := v)\<rparr>)" (is "pt_inv ?s")
proof -
  have t: "tbl ?s r = tbl s r" if "tpath r" for r using leaf_write_tbl [OF inv q that] .
  have A: "4096 dvd b \<and> b div 4096 < total_pages (pa ?s) \<and> b div 4096 \<notin> free_set (pa ?s)"
    if "tpath r" "tbl ?s r = Some b" for r b
    using pt_invD [OF inv that(1), of b] t [OF that(1)] that(2) by simp
  have B: "r = r'" if "tpath r" "tpath r'" "tbl ?s r = Some b" "tbl ?s r' = Some b" for r r' b
    using pt_inv_inj [OF inv that(1,2), of b] t that by metis
  have C: "pmem ?s (b + 8 * i) = 0" if h: "tpath r" "length r < 3" "i < 512" "tbl ?s r = Some b"
    "\<not> PT_GET_FLAG (pmem ?s (b + 8 * i)) PT_Present" for r b i
  proof -
    have b: "tbl s r = Some b" using t [OF h(1)] h(4) by simp
    have "r \<noteq> q" using h(2) q(2) by auto
    then have "b + 8 * i \<noteq> c + 8 * j" using leaf_write_apart [OF inv q h(1) b h(3)] by blast
    then show ?thesis using pt_inv_missing [OF inv h(1,2,3) b] h(5) by simp
  qed
  have "total_pages (pa ?s) \<le> 2 ^ 36" "pa_inv (pa ?s)" using inv by (simp_all add: pt_inv_def)
  then show ?thesis unfolding pt_inv_def using A B C by blast
qed

section \<open>Mapping one page\<close>

abbreviation va_path :: "u64 \<Rightarrow> nat list" where
  "va_path v \<equiv> [PL4_ofset v, PDP_ofset v, PD_ofset v]"

lemma va_tpath [simp]: "tpath (va_path v)"
  using ofset_less by (simp add: tpath_def)

lemma ofset_bits:
  fixes v w :: u64
  assumes "unat (drop_bit k v AND 0x1ff) = unat (drop_bit k w AND 0x1ff)" and "n < 9" and "n + k < 64"
  shows "bit v (n + k) = bit w (n + k)"
proof -
  have m: "(0x1ff :: u64) = mask 9" by (simp add: mask_eq_exp_minus_1)
  have "drop_bit k v AND mask 9 = drop_bit k w AND (mask 9 :: u64)"
    using assms(1) unfolding m by (rule unsigned_word_eqI)
  from arg_cong [OF this, of "\<lambda>x. bit x n"] assms(2,3) show ?thesis
    by (simp add: bit_simps add.commute)
qed

text \<open>Addresses with the same four indices lie in the same 4 KiB page of the 48-bit space.\<close>

lemma same_page:
  assumes "va_path v = va_path w" and "PT_ofset v = PT_ofset w"
  shows "take_bit 36 (drop_bit 12 v) = take_bit 36 (drop_bit 12 w)"
proof (rule bit_word_eqI)
  fix n assume "n < LENGTH(64)"
  show "bit (take_bit 36 (drop_bit 12 v)) n = bit (take_bit 36 (drop_bit 12 w)) n"
  proof (cases "n < 36")
    case True
    consider "n < 9" | "9 \<le> n" "n < 18" | "18 \<le> n" "n < 27" | "27 \<le> n" using True by linarith
    then have "bit v (n + 12) = bit w (n + 12)"
    proof cases
      case 1
      with ofset_bits [of 12 v w n] assms(2) show ?thesis by (simp add: PT_ofset_def)
    next
      case 2
      then have n: "n - 9 < 9" "n - 9 + 21 = n + 12" by simp_all
      have "unat (drop_bit 21 v AND 0x1ff) = unat (drop_bit 21 w AND 0x1ff)"
        using assms(1) by (simp add: PD_ofset_def)
      from ofset_bits [OF this n(1)] show ?thesis unfolding n(2) using True by simp
    next
      case 3
      then have n: "n - 18 < 9" "n - 18 + 30 = n + 12" by simp_all
      have "unat (drop_bit 30 v AND 0x1ff) = unat (drop_bit 30 w AND 0x1ff)"
        using assms(1) by (simp add: PDP_ofset_def)
      from ofset_bits [OF this n(1)] show ?thesis unfolding n(2) using True by simp
    next
      case 4
      then have n: "n - 27 < 9" "n - 27 + 39 = n + 12" using True by simp_all
      have "unat (drop_bit 39 v AND 0x1ff) = unat (drop_bit 39 w AND 0x1ff)"
        using assms(1) by (simp add: PL4_ofset_def)
      from ofset_bits [OF this n(1)] show ?thesis unfolding n(2) using True by simp
    qed
    then show ?thesis by (simp add: bit_simps add.commute)
  qed (simp add: bit_simps)
qed

text \<open>The tables on the way to an address.\<close>

definition va_tables :: "u64 \<Rightarrow> nat list set" where
  "va_tables v = {q. prefix q (va_path v) \<and> q \<noteq> []}"

lemma va_tables_simp: "va_tables v =
  {[PL4_ofset v], [PL4_ofset v, PDP_ofset v], [PL4_ofset v, PDP_ofset v, PD_ofset v]}"
  by (auto simp: va_tables_def prefix_Cons)

lemma va_tables_card: "finite (va_tables v)" "card (va_tables v) = 3"
  by (simp_all add: va_tables_simp)

text \<open>
  What mapping a page does: it makes the missing tables, changes one entry, and nothing else
  in the tree.
\<close>

definition page_mapped :: "u64 \<Rightarrow> u64 \<Rightarrow> paging \<Rightarrow> paging \<Rightarrow> bool" where
  "page_mapped virt phys s s' \<longleftrightarrow> pt_inv s' \<and> took s s' \<and> table_paths s' \<subseteq> va_tables virt \<union> table_paths s \<and>
     translate s' virt = Some (phys AND 0x000ffffffffff000) \<and>
     (\<forall>v. take_bit 36 (drop_bit 12 v) \<noteq> take_bit 36 (drop_bit 12 virt) \<longrightarrow> translate s' v = translate s v)"

lemma map_mem_with_flags_spec:
  assumes inv: "pt_inv s" and free: "affords (va_tables virt) s" and fl: "bit flags 0"
  shows "\<exists>s'. map_mem_with_flags virt phys flags s = Some s' \<and> page_mapped virt phys s s'"
proof -
  have "tpath ([] @ va_path virt)" "tbl s [] = Some (KERNEL_PL4 s)" by simp_all
  from navigate_spec [OF inv this free] obtain c s1 where n: "navigate (va_path virt) (KERNEL_PL4 s) s = Some (c, s1)"
    "pt_inv s1" "grown s s1" "tbl s1 (va_path virt) = Some c"
    "table_paths s1 \<subseteq> va_tables virt \<union> table_paths s" by (auto simp: va_tables_def)
  let ?e = "c + 8 * PT_ofset virt"
  let ?v = "PT_SET_ADR (PT_SET_FLAG (pmem s1 ?e) flags) phys"
  let ?s = "s1\<lparr>pmem := (pmem s1)(?e := ?v)\<rparr>"
  have m: "map_mem_with_flags virt phys flags s = Some ?s"
    using n(1) by (simp add: map_mem_with_flags_def navigate_to_PL1_def Let_def)
  have l3: "length (va_path virt) = 3" by simp
  note w = n(2) va_tpath l3 n(4) ofset_less(4) [of virt]
  have "?v AND 0x000ffffffffff000 = phys AND 0x000ffffffffff000"
    unfolding adr_masks by (rule bit_word_eqI) (auto simp: bit_simps bit_PT_SET_ADR)
  moreover have "PT_GET_FLAG ?v PT_Present"
    using fl by (simp add: PT_Present_bit bit_PT_SET_ADR PT_SET_FLAG_def bit_simps)
  ultimately have t: "translate ?s virt = Some (phys AND 0x000ffffffffff000)"
    using leaf_write_leaf [OF w va_tpath ofset_less(4), of ?v virt virt] by (simp add: translate_def)
  have o: "translate ?s v = translate s v"
    if "take_bit 36 (drop_bit 12 v) \<noteq> take_bit 36 (drop_bit 12 virt)" for v
  proof -
    have "\<not> (va_path v = va_path virt \<and> PT_ofset v = PT_ofset virt)" using same_page that by blast
    then have "leaf ?s (va_path v) (PT_ofset v) = leaf s1 (va_path v) (PT_ofset v)"
      using leaf_write_leaf [OF w va_tpath ofset_less(4), of ?v v v] by auto
    also have "\<dots> = leaf s (va_path v) (PT_ofset v)"
      by (rule grownD(2) [OF n(3)]) (simp_all add: ofset_less)
    finally show ?thesis by (simp add: translate_def)
  qed
  have tb: "tbl ?s q = tbl s1 q" if "tpath q" for q using leaf_write_tbl [OF w that] .
  then have tp: "table_paths ?s = table_paths s1" unfolding table_paths_def by auto
  then have "took s1 ?s" using tb unfolding took_def by simp
  then have "took s ?s" using took_trans grownD(1) [OF n(3)] by blast
  moreover have "pt_inv ?s" by (rule leaf_write_inv [OF w])
  ultimately have "page_mapped virt phys s ?s" using n(5) t o unfolding page_mapped_def tp by blast
  with m show ?thesis by blast
qed

lemma user_flags: "bit (PT_RW OR PT_Present OR PT_UserSuper) 0"
  by (simp add: PT_RW_def PT_Present_def PT_UserSuper_def)

lemma map_mem_spec:
  assumes "pt_inv s" and "affords (va_tables virt) s"
  shows "\<exists>s'. map_mem virt phys s = Some s' \<and> page_mapped virt phys s s'"
  unfolding map_mem_def by (rule map_mem_with_flags_spec [OF assms user_flags])

lemma navigate_present: "table_at (pmem s) b q = Some c \<Longrightarrow> navigate q b s = Some (c, s)"
  by (induction q arbitrary: b) (auto simp: descend_def Let_def split: if_splits)

section \<open>Properties\<close>

text \<open>
  C8. With three free pages for missing tables, \<open>map_mem\<close> succeeds, keeps the tree of tables well
  formed, makes the page of \<open>virt\<close> translate to the frame of \<open>phys\<close>, and changes the translation
  of no other page.
\<close>

theorem map_mem_maps_one_page:
  assumes "pt_inv s" and "3 \<le> card (free_set (pa s))"
  shows "\<exists>s'. map_mem virt phys s = Some s' \<and> pt_inv s' \<and>
    translate s' virt = Some (phys AND 0x000ffffffffff000) \<and>
    (\<forall>v. take_bit 36 (drop_bit 12 v) \<noteq> take_bit 36 (drop_bit 12 virt) \<longrightarrow> translate s' v = translate s v)"
proof -
  have "affords (va_tables virt) s" using assms(2) by (intro affords_card) (simp_all add: va_tables_card)
  from map_mem_spec [OF assms(1) this] show ?thesis unfolding page_mapped_def by blast
qed

definition paging0 :: paging where
  "paging0 = \<lparr>pa = \<lparr>FREE_MEMORY = 24576, USED_MEMORY = 8192, RESERVED_MEMORY = 0,
      pages_used = [True, True, False, False, False, False, False, False], total_pages = 8, page_index = 0\<rparr>,
     KERNEL_PL4 = 4096, pmem = \<lambda>a. 0\<rparr>"

lemma paging0_tbl: "tbl paging0 q = (if q = [] then Some 4096 else None)"
  by (cases q) (auto simp: paging0_def PT_GET_FLAG_def)

lemma paging0_free: "free_set (pa paging0) = {2, 3, 4, 5, 6, 7}"
  by (auto simp: free_set_def paging0_def less_Suc_eq numeral_nat)

lemma paging0_inv: "pt_inv paging0"
proof -
  have "pa_inv (pa paging0)" by (simp add: pa_inv_def paging0_def)
  moreover have "total_pages (pa paging0) = 8" "pmem paging0 a = 0" for a by (simp_all add: paging0_def)
  moreover have "tbl paging0 p = Some b \<Longrightarrow> p = [] \<and> b = 4096" for p b
    unfolding paging0_tbl by (simp split: if_splits)
  moreover have "tbl paging0 p = Some b \<Longrightarrow> 4096 dvd b \<and> b div 4096 < 8 \<and> b div 4096 \<notin> free_set (pa paging0)" for p b
    unfolding paging0_tbl paging0_free by (simp split: if_splits)
  note facts = calculation this
  show ?thesis
    unfolding pt_inv_def
  proof (intro conjI allI impI)
    show "pa_inv (pa paging0)" "total_pages (pa paging0) \<le> 2 ^ 36" using facts(1,2) by simp_all
  qed (use facts in \<open>metis\<close>)+
qed

theorem map_mem_maps_one_page_witness:
  "\<exists>s'. map_mem 0x40000000 0x5000 paging0 = Some s' \<and> translate s' 0x40000000 = Some 0x5000 \<and>
     translate s' 0x40001000 = None"
proof -
  have free: "3 \<le> card (free_set (pa paging0))" unfolding paging0_free by simp
  have ne: "take_bit 36 (drop_bit 12 (0x40001000 :: u64)) \<noteq> take_bit 36 (drop_bit 12 0x40000000)"
    by (simp add: take_bit_eq_mask mask_eq_exp_minus_1)
  from map_mem_maps_one_page [OF paging0_inv free, of "0x40000000" "0x5000"] ne obtain s' where
    s': "map_mem 0x40000000 0x5000 paging0 = Some s'"
      "translate s' 0x40000000 = Some (0x5000 AND 0x000ffffffffff000)"
      "translate s' 0x40001000 = translate paging0 0x40001000"
    by blast
  have "translate paging0 v = None" for v
    unfolding translate_def leaf_def paging0_tbl by simp
  with s' show ?thesis by simp
qed

lemma translate_pa [simp]: "translate (s\<lparr>pa := p\<rparr>) v = translate s v"
  by (simp add: translate_def leaf_def)

lemma frame_page:
  "unat (drop_bit 12 (take_bit 48 (e AND 0x000ffffffffff000))) = unat (PT_GET_ADR e) div 4096" for e :: u64
proof -
  have "drop_bit 12 (take_bit 48 (e AND 0x000ffffffffff000)) = drop_bit 12 (PT_GET_ADR e)"
    unfolding adr_masks by (rule bit_word_eqI) (auto simp: bit_simps bit_PT_GET_ADR)
  also have "\<dots> = PT_GET_ADR e div 4096" by (simp add: drop_bit_eq_div)
  finally show ?thesis by (simp add: unat_div)
qed

text \<open>
  C25. \<open>unmap_mem\<close> of a mapped page does not unmap it: or-ing 0 into the entry leaves the Present
  bit, so the page then translates to physical page 0.
\<close>

theorem unmap_mem_leaves_present:
  assumes inv: "pt_inv s" and t: "translate s virt = Some f"
    and r: "unat (drop_bit 12 (take_bit 48 f)) < total_pages (pa s)"
  shows "\<exists>s'. unmap_mem virt s = Some s' \<and> translate s' virt = Some 0"
proof -
  obtain c where c: "tbl s (va_path virt) = Some c"
    "PT_GET_FLAG (pmem s (c + 8 * PT_ofset virt)) PT_Present"
    "f = pmem s (c + 8 * PT_ofset virt) AND 0x000ffffffffff000"
    using t by (auto simp: translate_def leaf_def split: option.splits if_splits)
  let ?e = "c + 8 * PT_ofset virt"
  have nav: "navigate_to_PL1 virt s = Some (c, s)"
    using navigate_present [OF c(1)] by (simp add: navigate_to_PL1_def)
  have "pa_inv (pa s)" using inv by (simp add: pt_inv_def)
  note pi = this
  have "unat (PT_GET_ADR (pmem s ?e)) div 4096 < total_pages (pa s)"
    using r unfolding c(3) frame_page .
  from FREE_PAGE_step [OF pi this] obtain p where p: "FREE_PAGE (unat (PT_GET_ADR (pmem s ?e))) (pa s) = Some p" by blast
  let ?v = "PT_SET_ADR (PT_SET_FLAG (pmem s ?e) 0) 0"
  let ?s = "s\<lparr>pmem := (pmem s)(?e := ?v)\<rparr>"
  have u: "unmap_mem virt s = Some (?s\<lparr>pa := p\<rparr>)"
    using nav p by (simp add: unmap_mem_def Let_def)
  have l3: "length (va_path virt) = 3" by simp
  have v: "PT_GET_FLAG ?v PT_Present"
    using c(2) by (simp add: PT_Present_bit bit_PT_SET_ADR PT_SET_FLAG_def)
  have "?v AND 0x000ffffffffff000 = 0"
    unfolding adr_masks by (rule bit_word_eqI) (auto simp: bit_simps bit_PT_SET_ADR)
  with v leaf_write_leaf [OF inv va_tpath l3 c(1) ofset_less(4) [of virt] va_tpath ofset_less(4), of ?v virt virt]
  have "translate ?s virt = Some 0" by (simp add: translate_def)
  then have "translate (?s\<lparr>pa := p\<rparr>) virt = Some 0" by (simp only: translate_pa)
  with u show ?thesis by blast
qed

theorem unmap_mem_leaves_present_witness:
  "\<exists>s s'. unmap_mem 0x40000000 s = Some s' \<and> translate s 0x40000000 = Some 0x5000 \<and>
     translate s' 0x40000000 = Some 0"
proof -
  have "affords (va_tables 0x40000000) paging0"
    by (intro affords_card) (simp_all add: va_tables_card paging0_free)
  from map_mem_spec [OF paging0_inv this, of "0x5000"] obtain s where
    "page_mapped 0x40000000 0x5000 paging0 s" by blast
  then have s: "pt_inv s" "total_pages (pa s) = total_pages (pa paging0)"
      "translate s 0x40000000 = Some (0x5000 AND 0x000ffffffffff000)"
    unfolding page_mapped_def by (simp_all only: tookD)
  have f: "(0x5000 :: u64) AND 0x000ffffffffff000 = 0x5000" by simp
  have "unat (drop_bit 12 (take_bit 48 (0x5000 :: u64))) < total_pages (pa s)"
    unfolding s(2) by (simp add: paging0_def take_bit_eq_mask mask_eq_exp_minus_1)
  from unmap_mem_leaves_present [OF s(1) s(3) [unfolded f] this] s(3) [unfolded f] show ?thesis by blast
qed

text \<open>
  Storing an address in an entry and reading it back: \<open>PT_SET_ADR\<close> writes bits 12 to 51, but the
  mask of \<open>PT_GET_ADR\<close> is one digit short, so the result is the address without bits 48 to 51
  and with bits 8 to 11 of the old entry let through.
\<close>

theorem pt_adr_read_back:
  "PT_GET_ADR (PT_SET_ADR v a) = (a AND 0x0000fffffffff000) OR (v AND 0xf00)"
proof (rule bit_word_eqI)
  fix n assume "n < LENGTH(64)"
  have m: "(0x0000fffffffff000 :: u64) = push_bit 12 (mask 36)" "(0xf00 :: u64) = push_bit 8 (mask 4)"
    by (simp_all add: mask_eq_exp_minus_1 push_bit_eq_mult)
  show "bit (PT_GET_ADR (PT_SET_ADR v a)) n = bit ((a AND 0x0000fffffffff000) OR (v AND 0xf00)) n"
    unfolding m using \<open>n < LENGTH(64)\<close> by (auto simp: bit_simps bit_PT_GET_ADR bit_PT_SET_ADR)
qed

end
