(* ===== verification/PagingInit.thy ===== *)
theory PagingInit
  imports PageTable
begin

text \<open>
  What \<open>INIT_PAGING\<close> (\<open>kernel/src/paging.c\<close>) leaves behind: the runs of page operations of the
  allocator, the runs of mappings, the number of tables they need, and the resulting
  identity mapping.  With more than 2 GiB of memory the loop that maps it overflows its \<open>int\<close>.
\<close>

section \<open>Runs of page operations\<close>

lemma each_page_spend:
  assumes opr: "\<And>adr p. pa_inv p \<Longrightarrow> adr div 4096 < total_pages p \<Longrightarrow>
      \<exists>p'. opr adr p = Some p' \<and> pa_step p p' (adr div 4096) True"
    and "pa_inv p" and "i + k \<le> 2 ^ 19" and "\<And>j. j < k \<Longrightarrow> page_at adr (i + j) div 4096 < total_pages p"
  shows "\<exists>p'. each_page opr adr i k p = Some p' \<and> pa_inv p' \<and> total_pages p' = total_pages p \<and>
    card (free_set p) \<le> card (free_set p') + k"
  using assms(2-4)
proof (induction k arbitrary: i p)
  case (Suc k)
  have lim: "Suc i + k \<le> 2 ^ 19" "4096 * i < 2 ^ 31" using Suc.prems(2) by simp_all
  from opr [OF Suc.prems(1), of "page_at adr i"] Suc.prems(3) [of 0] obtain p1 where
    p1: "opr (page_at adr i) p = Some p1" "pa_step p p1 (page_at adr i div 4096) True" by auto
  then have i1: "pa_inv p1" "total_pages p1 = total_pages p" "free_set p1 = free_set p - {page_at adr i div 4096}"
    by (auto simp: pa_step_def)
  have "page_at adr (Suc i + j) div 4096 < total_pages p1" if "j < k" for j
    using Suc.prems(3) [of "Suc j"] that i1(2) by simp
  from Suc.IH [OF i1(1) lim(1) this] obtain p' where p': "each_page opr adr (Suc i) k p1 = Some p'" "pa_inv p'"
    "total_pages p' = total_pages p1" "card (free_set p1) \<le> card (free_set p') + k" by blast
  have "card (free_set p) \<le> card (free_set p1) + 1"
    unfolding i1(3) by (auto simp: card_Diff_singleton_if)
  with lim(2) p1 p' i1 show ?case by auto
qed simp

lemma page_at_eq: "adr + 4096 * i < 2 ^ 64 \<Longrightarrow> page_at adr i = adr + 4096 * i"
  by (simp add: page_at_def)

text \<open>A region inside the managed memory that an \<open>int\<close> can measure.\<close>

lemma page_at_inside:
  assumes "adr + 4096 * k \<le> 4096 * t" and "t < 2 ^ 51" and "j < k"
  shows "page_at adr j div 4096 < t"
proof -
  have "page_at adr j = adr + 4096 * j" by (rule page_at_eq) (use assms in auto)
  then have "page_at adr j < 4096 * t" using assms by simp
  then show ?thesis by (simp add: less_mult_imp_div_less mult.commute)
qed


lemma RESERVE_PAGES_spend:
  assumes "pa_inv p" and "adr + 4096 * k \<le> 4096 * total_pages p" and "k \<le> 2 ^ 19" and "total_pages p < 2 ^ 51"
  shows "\<exists>p'. RESERVE_PAGES adr k p = Some p' \<and> pa_inv p' \<and> total_pages p' = total_pages p \<and>
    card (free_set p) \<le> card (free_set p') + k"
  unfolding RESERVE_PAGES_def
  by (rule each_page_spend) (use assms page_at_inside RESERVE_PAGE_step in force)+

lemma LOCK_PAGES_spend:
  assumes "pa_inv p" and "adr + 4096 * k \<le> 4096 * total_pages p" and "k \<le> 2 ^ 19" and "total_pages p < 2 ^ 51"
  shows "\<exists>p'. LOCK_PAGES adr k p = Some p' \<and> pa_inv p' \<and> total_pages p' = total_pages p \<and>
    card (free_set p) \<le> card (free_set p') + k"
  unfolding LOCK_PAGES_def
  by (rule each_page_spend) (use assms page_at_inside LOCK_PAGE_step in force)+

text \<open>The pages of the regions that are not conventional memory.\<close>

definition reserved_pages :: "EFI_MEMORY_DESCRIPTOR list \<Rightarrow> nat" where
  "reserved_pages memMap = sum_list (map NumberOfPages (filter (\<lambda>d. Type d \<noteq> EfiConventionalMemory) memMap))"

lemma reserve_regions_spend:
  assumes "pa_inv p" and "total_pages p < 2 ^ 51"
    and "\<And>d. d \<in> set memMap \<Longrightarrow> Type d \<noteq> EfiConventionalMemory \<Longrightarrow>
      PhysicalStart d + 4096 * NumberOfPages d \<le> 4096 * total_pages p \<and> NumberOfPages d \<le> 2 ^ 19"
  shows "\<exists>p'. reserve_regions memMap p = Some p' \<and> pa_inv p' \<and> total_pages p' = total_pages p \<and>
    card (free_set p) \<le> card (free_set p') + reserved_pages memMap"
  using assms
proof (induction memMap arbitrary: p)
  case Nil
  then show ?case by simp
next
  case (Cons d ds)
  show ?case
  proof (cases "Type d = EfiConventionalMemory")
    case True
    have "\<exists>p'. reserve_regions ds p = Some p' \<and> pa_inv p' \<and> total_pages p' = total_pages p \<and>
        card (free_set p) \<le> card (free_set p') + reserved_pages ds"
      by (rule Cons.IH) (use Cons.prems in auto)
    with True show ?thesis by (simp add: reserved_pages_def)
  next
    case False
    with Cons.prems(3) [of d] have d: "PhysicalStart d + 4096 * NumberOfPages d \<le> 4096 * total_pages p"
      "NumberOfPages d \<le> 2 ^ 19" by auto
    from RESERVE_PAGES_spend [OF Cons.prems(1) d Cons.prems(2)] obtain p1 where
      p1: "RESERVE_PAGES (PhysicalStart d) (NumberOfPages d) p = Some p1" "pa_inv p1" "total_pages p1 = total_pages p"
      "card (free_set p) \<le> card (free_set p1) + NumberOfPages d" by blast
    have "\<exists>p'. reserve_regions ds p1 = Some p' \<and> pa_inv p' \<and> total_pages p' = total_pages p1 \<and>
        card (free_set p1) \<le> card (free_set p') + reserved_pages ds"
      by (rule Cons.IH) (use Cons.prems p1 in auto)
    with False p1 show ?thesis by (auto simp: reserved_pages_def)
  qed
qed

section \<open>Addresses and pages\<close>

abbreviation page36 :: "u64 \<Rightarrow> u64" where
  "page36 v \<equiv> take_bit 36 (drop_bit 12 v)"

text \<open>The indices of an address are read from its page number.\<close>

lemma ofset_page:
  "PT_ofset v = unat (take_bit 9 (page36 v))" "PD_ofset v = unat (take_bit 9 (drop_bit 9 (page36 v)))"
  "PDP_ofset v = unat (take_bit 9 (drop_bit 18 (page36 v)))" "PL4_ofset v = unat (take_bit 9 (drop_bit 27 (page36 v)))"
proof -
  have m: "(0x1ff :: u64) = mask 9" by (simp add: mask_eq_exp_minus_1)
  have b: "drop_bit (k + 12) v AND mask 9 = take_bit 9 (drop_bit k (page36 v))" if "k \<le> 27" for k
    by (rule bit_word_eqI) (use that in \<open>auto simp: bit_simps add_ac\<close>)
  from b [of 0] b [of 9] b [of 18] b [of 27]
  show "PT_ofset v = unat (take_bit 9 (page36 v))" "PD_ofset v = unat (take_bit 9 (drop_bit 9 (page36 v)))"
    "PDP_ofset v = unat (take_bit 9 (drop_bit 18 (page36 v)))" "PL4_ofset v = unat (take_bit 9 (drop_bit 27 (page36 v)))"
    by (simp_all add: PT_ofset_def PD_ofset_def PDP_ofset_def PL4_ofset_def m)
qed

lemma translate_page: "page36 v = page36 w \<Longrightarrow> translate s v = translate s w"
  by (simp add: translate_def ofset_page)

section \<open>Mapping runs of pages\<close>

text \<open>
  Every page with an address in \<open>A\<close> translates to the frame \<open>fr\<close> gives that address; the other
  pages translate as before.
\<close>

definition pages_mapped :: "u64 set \<Rightarrow> (u64 \<Rightarrow> u64) \<Rightarrow> paging \<Rightarrow> paging \<Rightarrow> bool" where
  "pages_mapped A fr s s' \<longleftrightarrow>
     (\<forall>v \<in> A. \<forall>w. page36 w = page36 v \<longrightarrow> translate s' w = Some (fr v)) \<and>
     (\<forall>w. page36 w \<notin> page36 ` A \<longrightarrow> translate s' w = translate s w)"

lemma pages_mappedD:
  assumes "pages_mapped A fr s s'"
  shows "v \<in> A \<Longrightarrow> page36 w = page36 v \<Longrightarrow> translate s' w = Some (fr v)"
    and "page36 w \<notin> page36 ` A \<Longrightarrow> translate s' w = translate s w"
  using assms unfolding pages_mapped_def by blast+

lemma pages_mapped_one:
  assumes "page_mapped v phys s s'" shows "pages_mapped {v} (\<lambda>_. phys AND 0x000ffffffffff000) s s'"
  unfolding pages_mapped_def
proof (intro conjI ballI allI impI)
  show "translate s' w = Some (phys AND 0x000ffffffffff000)" if "u \<in> {v}" "page36 w = page36 u" for u w
    using translate_page [of w v s'] that assms by (simp add: page_mapped_def)
  show "translate s' w = translate s w" if "page36 w \<notin> page36 ` {v}" for w
    using that assms by (simp add: page_mapped_def)
qed

lemma pages_mapped_step:
  assumes m: "pages_mapped {v} fr s s1" "pages_mapped A fr s1 s'"
    and same: "\<And>w. w \<in> A \<Longrightarrow> page36 w = page36 v \<Longrightarrow> fr w = fr v"
  shows "pages_mapped (insert v A) fr s s'"
proof -
  have A: "translate s' w = Some (fr u)" if u: "u \<in> A" "page36 w = page36 u" for u w
    using pages_mappedD(1) [OF m(2) u] .
  have v: "translate s' w = Some (fr v)" if w: "page36 w = page36 v" for w
  proof (cases "page36 w \<in> page36 ` A")
    case True
    then obtain x where x: "x \<in> A" "page36 w = page36 x" by (rule imageE)
    have "fr x = fr v" by (rule same [OF x(1)]) (simp only: x(2) [symmetric] w)
    then show ?thesis using A [OF x] by (simp only:)
  next
    case False
    have "translate s1 w = Some (fr v)" by (rule pages_mappedD(1) [OF m(1) _ w]) simp
    then show ?thesis using pages_mappedD(2) [OF m(2) False] by (simp only:)
  qed
  have "translate s' w = translate s w" if w: "page36 w \<notin> page36 ` insert v A" for w
  proof -
    have "page36 w \<notin> page36 ` A" "page36 w \<notin> page36 ` {v}" using w by auto
    from pages_mappedD(2) [OF m(2) this(1)] pages_mappedD(2) [OF m(1) this(2)] show ?thesis by (rule trans)
  qed
  with A v show ?thesis unfolding pages_mapped_def by (auto simp del: image_insert)
qed

lemma pages_mapped_none: "pages_mapped {} fr s s"
  by (simp add: pages_mapped_def)

lemma pages_mapped_cong:
  assumes "pages_mapped A fr s s'" and "\<And>v. v \<in> A \<Longrightarrow> fr v = gr v" shows "pages_mapped A gr s s'"
  using assms by (simp add: pages_mapped_def)

text \<open>
  The loop that maps a page for every \<open>i\<close>.  The free pages must suffice for the tables \<open>P\<close>, and
  addresses in the same page be given the same frame.
\<close>

lemma map_pages_loop_spec:
  assumes mp: "\<And>v p s. pt_inv s \<Longrightarrow> affords (va_tables v) s \<Longrightarrow>
      \<exists>s'. mp v p s = Some s' \<and> page_mapped v p s s'"
    and inv: "pt_inv s" and P: "affords P s"
    and sub: "\<And>j. j < k \<Longrightarrow> va_tables (ptr_add virt (int (i + j) * 4096)) \<subseteq> P"
    and fr: "\<And>j. j < k \<Longrightarrow> ptr_add phys (int (i + j) * 4096) AND 0x000ffffffffff000 =
      fr (ptr_add virt (int (i + j) * 4096))"
    and same: "\<And>a b. a < k \<Longrightarrow> b < k \<Longrightarrow>
      page36 (ptr_add virt (int (i + a) * 4096)) = page36 (ptr_add virt (int (i + b) * 4096)) \<Longrightarrow>
      fr (ptr_add virt (int (i + a) * 4096)) = fr (ptr_add virt (int (i + b) * 4096))"
    and lim: "i + k \<le> 2 ^ 19"
  shows "\<exists>s'. map_pages_loop mp virt phys i k s = Some s' \<and> pt_inv s' \<and> took s s' \<and>
    table_paths s' \<subseteq> P \<union> table_paths s \<and>
    pages_mapped ((\<lambda>j. ptr_add virt (int (i + j) * 4096)) ` {..< k}) fr s s'"
  using inv P sub fr same lim
proof (induction k arbitrary: i s)
  case 0
  then show ?case by (simp add: pages_mapped_none)
next
  case (Suc k)
  let ?v = "ptr_add virt (int i * 4096)" and ?p = "ptr_add phys (int i * 4096)"
  have v: "va_tables ?v \<subseteq> P" "?p AND 0x000ffffffffff000 = fr ?v"
    using Suc.prems(3) [of 0] Suc.prems(4) [of 0] by simp_all
  from mp [OF Suc.prems(1) affords_mono [OF Suc.prems(2) v(1)], of ?p] obtain s1 where
    s1: "mp ?v ?p s = Some s1" "page_mapped ?v ?p s s1" by blast
  then have i1: "pt_inv s1" "took s s1" "table_paths s1 \<subseteq> va_tables ?v \<union> table_paths s"
    by (auto simp: page_mapped_def)
  have m1: "pages_mapped {?v} fr s s1"
    by (rule pages_mapped_cong [OF pages_mapped_one [OF s1(2)]]) (simp add: v(2))
  have t1: "table_paths s1 \<subseteq> P \<union> table_paths s" using i1(3) v(1) by blast
  have idx: "Suc i + j = i + Suc j" for j by simp
  have "\<exists>s'. map_pages_loop mp virt phys (Suc i) k s1 = Some s' \<and> pt_inv s' \<and> took s1 s' \<and>
    table_paths s' \<subseteq> P \<union> table_paths s1 \<and>
    pages_mapped ((\<lambda>j. ptr_add virt (int (Suc i + j) * 4096)) ` {..< k}) fr s1 s'"
  proof (rule Suc.IH [OF i1(1) affords_took [OF Suc.prems(2) i1(2) t1]], goal_cases)
    case (1 j)
    then show ?case unfolding idx by (intro Suc.prems(3)) simp
  next
    case (2 j)
    then show ?case unfolding idx by (intro Suc.prems(4)) simp
  next
    case (3 a b)
    then show ?case unfolding idx by (intro Suc.prems(5)) simp_all
  next
    case 4
    then show ?case using Suc.prems(6) by simp
  qed
  then obtain s' where s': "map_pages_loop mp virt phys (Suc i) k s1 = Some s'" "pt_inv s'" "took s1 s'"
    "table_paths s' \<subseteq> P \<union> table_paths s1"
    "pages_mapped ((\<lambda>j. ptr_add virt (int (Suc i + j) * 4096)) ` {..< k}) fr s1 s'" by blast
  have im: "insert ?v ((\<lambda>j. ptr_add virt (int (Suc i + j) * 4096)) ` {..< k}) =
      (\<lambda>j. ptr_add virt (int (i + j) * 4096)) ` {..< Suc k}"
    unfolding lessThan_Suc_eq_insert_0 image_insert image_image idx by simp
  have "pages_mapped (insert ?v ((\<lambda>j. ptr_add virt (int (Suc i + j) * 4096)) ` {..< k})) fr s s'"
  proof (rule pages_mapped_step [OF m1 s'(5)])
    fix w assume w: "w \<in> (\<lambda>j. ptr_add virt (int (Suc i + j) * 4096)) ` {..< k}" "page36 w = page36 ?v"
    then obtain j where j: "j < k" "w = ptr_add virt (int (i + Suc j) * 4096)" unfolding idx by auto
    show "fr w = fr ?v" using Suc.prems(5) [of "Suc j" 0] j w(2) by simp
  qed
  then have "pages_mapped ((\<lambda>j. ptr_add virt (int (i + j) * 4096)) ` {..< Suc k}) fr s s'" unfolding im .
  moreover have "map_pages_loop mp virt phys i (Suc k) s = Some s'" using Suc.prems(6) s1(1) s'(1) by simp
  moreover have "table_paths s' \<subseteq> P \<union> table_paths s" using s'(4) t1 by blast
  moreover note s'(2) took_trans [OF i1(2) s'(3)]
  ultimately show ?case by (intro exI conjI)
qed

lemma unat_of_nat_u64: "n < 2 ^ 64 \<Longrightarrow> unat (of_nat n :: u64) = n"
  by (simp add: unat_of_nat take_bit_nat_eq_self)

section \<open>How many tables a run of pages needs\<close>

lemma unat_bits: "unat (take_bit 9 (drop_bit k (w :: u64))) = unat w div 2 ^ k mod 512"
proof -
  have "unat (take_bit 9 (drop_bit k w)) = take_bit 9 (drop_bit k (unat w))"
    using unsigned_less [of w, where ?'a = nat]
    by (simp add: unsigned_take_bit_eq unsigned_drop_bit_eq take_bit_nat_eq_self)
  then show ?thesis by (simp add: drop_bit_eq_div take_bit_eq_mod)
qed

lemma va_tables_page:
  defines "g \<equiv> \<lambda>n. n mod (512 :: nat)"
  shows "va_tables v = (let n = unat (page36 v) in
    {(\<lambda>x. [g x]) (n div 2 ^ 27), (\<lambda>x. [g (x div 512), g x]) (n div 2 ^ 18),
     (\<lambda>x. [g (x div 2 ^ 18), g (x div 512), g x]) (n div 2 ^ 9)})"
proof -
  have "unat (page36 v) div 2 ^ 9 = unat (page36 v) div 512" by simp
  then show ?thesis
    unfolding va_tables_simp ofset_page g_def Let_def
    using unat_bits [of 0 "page36 v"] unat_bits [of 9 "page36 v"]
    by (simp add: unat_bits div_mult2_eq [symmetric])
qed

lemma card_div_run:
  fixes c :: nat
  assumes "0 < c" shows "card ((\<lambda>j. (f + j) div c) ` {..< m}) \<le> m div c + 2"
proof -
  have "(f + j) div c \<le> f div c + m div c + 1" if "j < m" for j
  proof -
    have "(f + j) div c \<le> (f + m) div c" using that by (intro div_le_mono) simp
    also have "\<dots> \<le> f div c + m div c + 1"
    proof -
      have "f mod c < c" "m mod c < c" using assms by simp_all
      then have "f mod c + m mod c < 2 * c" by linarith
      then have "(f mod c + m mod c) div c < 2" by (rule less_mult_imp_div_less)
      then show ?thesis by (simp add: div_add1_eq [of f m c])
    qed
    finally show ?thesis .
  qed
  then have "(\<lambda>j. (f + j) div c) ` {..< m} \<subseteq> {f div c .. f div c + m div c + 1}"
    by (auto simp: div_le_mono)
  then have "card ((\<lambda>j. (f + j) div c) ` {..< m}) \<le> card {f div c .. f div c + m div c + 1}"
    by (intro card_mono) simp_all
  then show ?thesis by simp
qed

definition tables_for :: "nat \<Rightarrow> nat" where
  "tables_for m = m div 2 ^ 9 + m div 2 ^ 18 + m div 2 ^ 27 + 6"

lemma run_tables:
  assumes "\<And>v. v \<in> A \<Longrightarrow> \<exists>j < m. unat (page36 v) = f + j"
  shows "finite (\<Union>v \<in> A. va_tables v) \<and> card (\<Union>v \<in> A. va_tables v) \<le> tables_for m"
proof -
  let ?I = "\<lambda>c. (\<lambda>j. (f + j) div 2 ^ c) ` {..< m}"
  let ?g = "\<lambda>n. n mod (512 :: nat)"
  define g1 where "g1 = (\<lambda>x. [?g x])"
  define g2 where "g2 = (\<lambda>x. [?g (x div 512), ?g x])"
  define g3 where "g3 = (\<lambda>x. [?g (x div 2 ^ 18), ?g (x div 512), ?g x])"
  have g: "va_tables v = {g1 (unat (page36 v) div 2 ^ 27), g2 (unat (page36 v) div 2 ^ 18),
      g3 (unat (page36 v) div 2 ^ 9)}" for v :: u64
    unfolding va_tables_page Let_def g1_def g2_def g3_def ..
  let ?U = "g1 ` ?I 27 \<union> g2 ` ?I 18 \<union> g3 ` ?I 9"
  have "va_tables v \<subseteq> ?U" if v: "v \<in> A" for v
  proof -
    obtain j where j: "j < m" "unat (page36 v) = f + j" using assms v by blast
    then have "j \<in> {..< m}" by simp
    then show ?thesis unfolding g [of v] j(2) by blast
  qed
  then have s: "(\<Union>v \<in> A. va_tables v) \<subseteq> ?U" by blast
  have "card ?U \<le> card (?I 27) + card (?I 18) + card (?I 9)"
    by (intro order_trans [OF card_Un_le] add_mono card_image_le) simp_all
  also have "\<dots> \<le> tables_for m"
    using card_div_run [of "2 ^ 27" f m] card_div_run [of "2 ^ 18" f m] card_div_run [of "2 ^ 9" f m]
    unfolding tables_for_def by (simp only: zero_less_numeral zero_less_power True_implies_equals)
  finally have "card ?U \<le> tables_for m" .
  moreover have "card (\<Union>v \<in> A. va_tables v) \<le> card ?U" by (rule card_mono [OF _ s]) simp
  moreover have "finite (\<Union>v \<in> A. va_tables v)" by (rule finite_subset [OF s]) simp
  ultimately show ?thesis by linarith
qed

lemma unat_page36: "unat (page36 v) = unat v div 4096 mod 2 ^ 36"
proof -
  have "unat (page36 v) = take_bit 36 (drop_bit 12 (unat v))"
    using unsigned_less [of v, where ?'a = nat]
    by (simp add: unsigned_take_bit_eq unsigned_drop_bit_eq take_bit_nat_eq_self)
  then show ?thesis by (simp add: drop_bit_eq_div take_bit_eq_mod)
qed

lemma region_page:
  assumes "j < 2 ^ 19" and "unat b + 4096 * j < 2 ^ 48"
  shows "unat (ptr_add b (int j * 4096)) = unat b + 4096 * j"
    and "unat (page36 (ptr_add b (int j * 4096))) = unat b div 4096 + j"
proof -
  have "ptr_add b (int j * 4096) = b + of_nat (4096 * j)" by (simp add: ptr_add_def)
  then show u: "unat (ptr_add b (int j * 4096)) = unat b + 4096 * j"
    using assms by (simp add: unat_word_ariths unat_of_nat_u64)
  have "(unat b + 4096 * j) div 4096 < 2 ^ 36" using assms(2) by (intro less_mult_imp_div_less) simp
  then show "unat (page36 (ptr_add b (int j * 4096))) = unat b div 4096 + j"
    unfolding unat_page36 u by simp
qed

text \<open>Too many pages for the \<open>int\<close>.\<close>

lemma map_pages_loop_overflow: "2 ^ 19 < i + k \<Longrightarrow> i \<le> 2 ^ 19 \<Longrightarrow> map_pages_loop mp virt phys i k s = None"
proof (induction k arbitrary: i s)
  case (Suc k)
  show ?case
  proof (cases "4096 * i < 2 ^ 31")
    case True
    then have "map_pages_loop mp virt phys (Suc i) k = (\<lambda>s'. None)" using Suc.prems by (intro ext Suc.IH) simp_all
    then show ?thesis by simp
  qed simp
qed simp

text \<open>Mapping a run of addresses to themselves.\<close>

lemma identity_run:
  assumes mp: "\<And>v p s. pt_inv s \<Longrightarrow> affords (va_tables v) s \<Longrightarrow>
      \<exists>s'. mp v p s = Some s' \<and> page_mapped v p s s'"
    and inv: "pt_inv s" and P: "affords P s"
    and sub: "\<And>j. j < k \<Longrightarrow> va_tables (ptr_add b (int j * 4096)) \<subseteq> P"
    and pg: "\<And>j. j < k \<Longrightarrow> unat (page36 (ptr_add b (int j * 4096))) = pg j" and inj: "inj_on pg {..< k}"
    and lim: "k \<le> 2 ^ 19"
  shows "\<exists>s'. map_pages_loop mp b b 0 k s = Some s' \<and> pt_inv s' \<and> took s s' \<and>
    table_paths s' \<subseteq> P \<union> table_paths s \<and>
    pages_mapped ((\<lambda>j. ptr_add b (int j * 4096)) ` {..< k}) (\<lambda>v. v AND 0x000ffffffffff000) s s'"
proof -
  have "\<exists>s'. map_pages_loop mp b b 0 k s = Some s' \<and> pt_inv s' \<and> took s s' \<and>
    table_paths s' \<subseteq> P \<union> table_paths s \<and>
    pages_mapped ((\<lambda>j. ptr_add b (int (0 + j) * 4096)) ` {..< k}) (\<lambda>v. v AND 0x000ffffffffff000) s s'"
  proof (rule map_pages_loop_spec [OF mp inv P], goal_cases)
    case (5 x y)
    then have "pg x = pg y" using pg [of x] pg [of y] by simp
    then have "x = y" using inj 5 by (simp add: inj_on_def)
    then show ?case by simp
  qed (use sub lim in simp_all)
  then show ?thesis by simp
qed

section \<open>The first table\<close>

lemma zero_page_entry: "i < 512 \<Longrightarrow> zero_page t m (t + 8 * i) = 0"
  by (simp add: zero_page_def)

lemma first_table:
  fixes m :: "nat \<Rightarrow> u64"
  assumes "pa_inv p" and "total_pages p \<le> 2 ^ 36" and "k < total_pages p" and "k \<notin> free_set p"
  defines "s \<equiv> \<lparr>pa = p, KERNEL_PL4 = 4096 * k, pmem = zero_page (4096 * k) m\<rparr>"
  shows "pt_inv s" and "translate s v = None" and "table_paths s = {[]}"
proof -
  have t: "tbl s q = (if q = [] then Some (4096 * k) else None)" if "tpath q" for q
  proof (cases q)
    case (Cons i r)
    then have "i < 512" using that by (simp add: tpath_def)
    with Cons show ?thesis by (simp add: s_def zero_page_entry PT_GET_FLAG_def)
  qed (simp add: s_def)
  have e: "tpath []" by (simp add: tpath_def)
  have tD: "q = [] \<and> b = 4096 * k" if "tpath q" "tbl s q = Some b" for q b
    using t [OF that(1)] that(2) by (simp split: if_splits)
  show "pt_inv s" unfolding pt_inv_def
  proof (intro conjI allI impI)
    show "pa_inv (pa s)" "total_pages (pa s) \<le> 2 ^ 36" using assms by simp_all
    show "q = r" if "tpath q" "tpath r" "tbl s q = Some b" "tbl s r = Some b" for q r b
      using tD [OF that(1,3)] tD [OF that(2,4)] by simp
  next
    fix q b assume "tpath q" "tbl s q = Some b"
    from tD [OF this] have "b = 4096 * k" by simp
    then show "4096 dvd b" "b div 4096 < total_pages (pa s)" "b div 4096 \<notin> free_set (pa s)"
      using assms by simp_all
  next
    fix q b and i :: nat assume "tpath q" "i < 512" "tbl s q = Some b"
    with tD [of q b] show "pmem s (b + 8 * i) = 0" by (simp add: s_def zero_page_entry)
  qed
  show "translate s v = None" using t [OF va_tpath] by (simp add: translate_def leaf_def)
  show "table_paths s = {[]}" using t e by (auto simp: table_paths_def split: if_splits)
qed

section \<open>\<open>INIT_PAGING\<close>\<close>

text \<open>
  The memory maps the start-up can handle: at most 2 GiB, the page map inside the memory that is
  mapped, regions and kernel inside the pages counted, a frame buffer below the upper half,
  and enough free pages for the tables.
  \<open>paging_cost\<close> bounds the pages taken.
\<close>

definition paging_cost :: "EFI_MEMORY_DESCRIPTOR list \<Rightarrow> nat \<Rightarrow> nat \<Rightarrow> nat \<Rightarrow> nat" where
  "paging_cost memMap KernelStart KernelEnd fb_size =
     (let n = getMemorySize memMap 0 div 4096; f = (fb_size + 4095) div 4096 in
      256 + ((n + 1) div 4096 + 1) + reserved_pages memMap + (KernelEnd - KernelStart + 4095) div 4096 + 1 +
      (n div 512 + f div 512 + 16))"

definition paging_memory :: "EFI_MEMORY_DESCRIPTOR list \<Rightarrow> nat \<Rightarrow> nat \<Rightarrow> u64 \<Rightarrow> nat \<Rightarrow> bool" where
  "paging_memory memMap KernelStart KernelEnd fb_base fb_size \<longleftrightarrow>
     (let n = getMemorySize memMap 0 div 4096; k = (KernelEnd - KernelStart + 4095) div 4096;
        f = (fb_size + 4095) div 4096 in
      n \<le> 2 ^ 19 \<and>
      (\<exists>seg. largest_segment memMap None 0 = Some seg \<and>
         PhysicalStart seg + 4096 * ((n + 1) div 4096 + 1) \<le> 4096 * n) \<and>
      (\<forall>d \<in> set memMap. Type d \<noteq> EfiConventionalMemory \<longrightarrow>
         PhysicalStart d + 4096 * NumberOfPages d \<le> 4096 * (n + 1) \<and> NumberOfPages d \<le> 2 ^ 19) \<and>
      KernelStart \<le> KernelEnd \<and> KernelStart + 4096 * k \<le> 4096 * (n + 1) \<and> k \<le> 2 ^ 19 \<and>
      4096 dvd unat fb_base \<and> unat fb_base + 4096 * f \<le> 2 ^ 47 \<and> f \<le> 2 ^ 19 \<and>
      paging_cost memMap KernelStart KernelEnd fb_size \<le> n + 1)"

text \<open>The allocator when the first table is requested.\<close>

lemma init_pool:
  assumes "paging_memory memMap KernelStart KernelEnd fb_base fb_size"
  defines "n \<equiv> getMemorySize memMap 0 div 4096"
  defines "p0 \<equiv> \<lparr>FREE_MEMORY = of_nat (getMemorySize memMap 0), USED_MEMORY = 0, RESERVED_MEMORY = 0,
      pages_used = replicate (n + 1) False, total_pages = n + 1, page_index = 0\<rparr>"
  shows "\<exists>seg p1 p2 p3 p4. largest_segment memMap None 0 = Some seg \<and> RESERVE_PAGES 0 0x100 p0 = Some p1 \<and>
    LOCK_PAGES (PhysicalStart seg) ((n + 1) div 4096 + 1) p1 = Some p2 \<and> reserve_regions memMap p2 = Some p3 \<and>
    LOCK_PAGES KernelStart (wrap64 (KernelEnd + 2 ^ 64 - KernelStart + 4095) div 4096 * 4096 div 4096) p3 = Some p4 \<and>
    pa_inv p4 \<and> total_pages p4 = n + 1 \<and>
    n + 1 + (n div 512 + (fb_size + 4095) div 4096 div 512 + 17) \<le>
      card (free_set p4) + paging_cost memMap KernelStart KernelEnd fb_size"
proof -
  let ?k = "(KernelEnd - KernelStart + 4095) div 4096"
  from assms(1) obtain seg where h: "n \<le> 2 ^ 19" "largest_segment memMap None 0 = Some seg"
    "PhysicalStart seg + 4096 * ((n + 1) div 4096 + 1) \<le> 4096 * n"
    "\<And>d. d \<in> set memMap \<Longrightarrow> Type d \<noteq> EfiConventionalMemory \<Longrightarrow>
      PhysicalStart d + 4096 * NumberOfPages d \<le> 4096 * (n + 1) \<and> NumberOfPages d \<le> 2 ^ 19"
    "KernelStart + 4096 * ?k \<le> 4096 * (n + 1)" "?k \<le> 2 ^ 19"
    "paging_cost memMap KernelStart KernelEnd fb_size \<le> n + 1" "KernelStart \<le> KernelEnd"
    unfolding paging_memory_def Let_def n_def by blast
  have "KernelEnd + 2 ^ 64 - KernelStart + 4095 = KernelEnd - KernelStart + 4095 + 2 ^ 64" using h(8) by simp
  moreover have "KernelEnd - KernelStart + 4095 < 2 ^ 64"
    using h(6) by (simp add: div_le_mono less_eq_div_iff_mult_less_eq)
  ultimately have w: "wrap64 (KernelEnd + 2 ^ 64 - KernelStart + 4095) = KernelEnd - KernelStart + 4095"
    by (simp only: wrap64_def mod_add_self2 mod_less)
  have t0: "total_pages p0 = n + 1" "pa_inv p0" using h(1) by (simp_all add: p0_def pa_inv_def)
  have "free_set p0 = {..< n + 1}" by (auto simp: free_set_def p0_def simp del: replicate_Suc)
  then have c0: "card (free_set p0) = n + 1" by simp
  have lim: "n + 1 < 2 ^ 51" using h(1) by simp
  have "256 \<le> n + 1" using h(7) by (simp add: paging_cost_def Let_def)
  then obtain p1 where p1: "RESERVE_PAGES 0 0x100 p0 = Some p1" "pa_inv p1" "total_pages p1 = n + 1"
    "n + 1 \<le> card (free_set p1) + 256"
    using RESERVE_PAGES_spend [of p0 0 256] t0 c0 lim by auto
  have "(n + 1) div 4096 + 1 \<le> 2 ^ 19" using h(1) by simp
  then obtain p2 where p2: "LOCK_PAGES (PhysicalStart seg) ((n + 1) div 4096 + 1) p1 = Some p2" "pa_inv p2"
    "total_pages p2 = n + 1" "card (free_set p1) \<le> card (free_set p2) + ((n + 1) div 4096 + 1)"
    using LOCK_PAGES_spend [OF p1(2), of "PhysicalStart seg" "(n + 1) div 4096 + 1"] h(3) p1(3) lim by auto
  from reserve_regions_spend [OF p2(2), unfolded p2(3), OF lim h(4)] obtain p3 where
    p3: "reserve_regions memMap p2 = Some p3" "pa_inv p3" "total_pages p3 = n + 1"
    "card (free_set p2) \<le> card (free_set p3) + reserved_pages memMap" by blast
  obtain p4 where p4: "LOCK_PAGES KernelStart ?k p3 = Some p4" "pa_inv p4" "total_pages p4 = n + 1"
    "card (free_set p3) \<le> card (free_set p4) + ?k"
    using LOCK_PAGES_spend [OF p3(2)] h(5,6) p3(3) lim by metis
  have "n + 1 + (n div 512 + (fb_size + 4095) div 4096 div 512 + 17) \<le>
      card (free_set p4) + paging_cost memMap KernelStart KernelEnd fb_size"
    using p1(4) p2(4) p3(4) p4(4) unfolding paging_cost_def Let_def n_def by linarith
  with h(2) p1(1) p2(1) p3(1) p4 show ?thesis unfolding w by simp
qed

text \<open>The tables of the identity mapping and of the frame buffer.\<close>

definition init_tables :: "nat \<Rightarrow> u64 \<Rightarrow> nat \<Rightarrow> nat list set" where
  "init_tables n fb f = (\<Union>v \<in> (\<lambda>j. ptr_add 0 (int j * 4096)) ` {..< n}. va_tables v) \<union>
     (\<Union>v \<in> (\<lambda>j. ptr_add fb (int j * 4096)) ` {..< f}. va_tables v)"

lemma region_tables_card:
  assumes f: "f \<le> 2 ^ 19" and fb: "unat fb + 4096 * f \<le> 2 ^ 47"
  defines "A \<equiv> \<Union>v \<in> (\<lambda>j. ptr_add fb (int j * 4096)) ` {..< f}. va_tables v"
  shows "finite A" "card A \<le> f div 512 + 8"
proof -
  let ?C = "(\<lambda>j. ptr_add fb (int j * 4096)) ` {..< f}"
  have "\<exists>j < f. unat (page36 v) = unat fb div 4096 + j" if v: "v \<in> ?C" for v
  proof -
    obtain j where j: "j < f" "v = ptr_add fb (int j * 4096)" using v by auto
    then have "j < 2 ^ 19" "unat fb + 4096 * j < 2 ^ 48" using f fb by simp_all
    with j region_page(2) show ?thesis by blast
  qed
  from run_tables [of ?C, OF this] have C: "finite A" "card A \<le> tables_for f" unfolding A_def by blast+
  have "f div 2 ^ 18 \<le> 2" "f div 2 ^ 27 = 0" using f by simp_all
  with C show "finite A" "card A \<le> f div 512 + 8" by (simp_all add: tables_for_def)
qed

lemma init_tables_card:
  assumes n: "n \<le> 2 ^ 19" and f: "f \<le> 2 ^ 19" and fb: "unat fb + 4096 * f \<le> 2 ^ 47"
  shows "finite (init_tables n fb f) \<and> card (init_tables n fb f) \<le> n div 512 + f div 512 + 16"
proof -
  have "unat (0 :: u64) + 4096 * n \<le> 2 ^ 47" using n by simp
  from region_tables_card [OF n this] region_tables_card [OF f fb] show ?thesis
    unfolding init_tables_def by (intro conjI finite_UnI order_trans [OF card_Un_le]) simp_all
qed

lemma frame_of_page:
  assumes "unat v < 2 ^ 48" shows "v AND 0x000ffffffffff000 = push_bit 12 (page36 v)"
proof -
  have "take_bit 48 (unat v) = unat v" using assms by (rule take_bit_nat_eq_self)
  then have v: "take_bit 48 v = v" by (metis unsigned_take_bit_eq unsigned_word_eqI)
  have b: "bit v i \<Longrightarrow> i < 48" for i by (subst (asm) v [symmetric]) (simp add: bit_simps)
  show ?thesis unfolding adr_masks
  proof (rule bit_word_eqI)
    fix i assume "i < LENGTH(64)"
    then show "bit (v AND push_bit 12 (mask 40)) i = bit (push_bit 12 (page36 v)) i"
      using b [of i] by (auto simp: bit_simps)
  qed
qed

lemma unat_page36_small: "unat v < 2 ^ 48 \<Longrightarrow> unat (page36 v) = unat v div 4096"
  unfolding unat_page36 by (simp add: less_mult_imp_div_less)

lemma same_frame:
  assumes "page36 v = page36 w" and "unat v < 2 ^ 48" and "unat w < 2 ^ 48"
  shows "v AND 0x000ffffffffff000 = w AND 0x000ffffffffff000"
  using assms by (simp only: frame_of_page)

lemma INIT_PAGING_spec:
  assumes ok: "paging_memory memMap KernelStart KernelEnd fb_base fb_size"
  defines "n \<equiv> getMemorySize memMap 0 div 4096" and "f \<equiv> (fb_size + 4095) div 4096"
  shows "\<exists>s s0 s1. INIT_PAGING memMap KernelStart KernelEnd fb_base fb_size m = Some s \<and> pt_inv s \<and>
    total_pages (pa s) = n + 1 \<and>
    n + 1 \<le> card (free_set (pa s)) + paging_cost memMap KernelStart KernelEnd fb_size \<and>
    (\<forall>v. translate s0 v = None) \<and>
    pages_mapped ((\<lambda>j. ptr_add 0 (int j * 4096)) ` {..< n}) (\<lambda>v. v AND 0x000ffffffffff000) s0 s1 \<and>
    pages_mapped ((\<lambda>j. ptr_add fb_base (int j * 4096)) ` {..< f}) (\<lambda>v. v AND 0x000ffffffffff000) s1 s"
proof -
  have h: "n \<le> 2 ^ 19" "unat fb_base + 4096 * f \<le> 2 ^ 47" "f \<le> 2 ^ 19"
    "paging_cost memMap KernelStart KernelEnd fb_size \<le> n + 1"
    using ok unfolding paging_memory_def Let_def n_def f_def by blast+
  let ?P = "init_tables n fb_base f" and ?F = "PT_Present OR PT_RW OR PT_WriteThrough OR PT_CacheDisabled OR PT_PageAttributeTable"
  from init_pool [OF ok] obtain seg p1 p2 p3 p4 where p: "largest_segment memMap None 0 = Some seg"
    "RESERVE_PAGES 0 0x100 \<lparr>FREE_MEMORY = of_nat (getMemorySize memMap 0), USED_MEMORY = 0, RESERVED_MEMORY = 0,
      pages_used = replicate (n + 1) False, total_pages = n + 1, page_index = 0\<rparr> = Some p1"
    "LOCK_PAGES (PhysicalStart seg) ((n + 1) div 4096 + 1) p1 = Some p2" "reserve_regions memMap p2 = Some p3"
    "LOCK_PAGES KernelStart (wrap64 (KernelEnd + 2 ^ 64 - KernelStart + 4095) div 4096 * 4096 div 4096) p3 = Some p4"
    "pa_inv p4" "total_pages p4 = n + 1"
    "n + 1 + (n div 512 + f div 512 + 17) \<le> card (free_set p4) + paging_cost memMap KernelStart KernelEnd fb_size"
    unfolding n_def f_def by blast
  have "card (free_set p4) \<noteq> 0" using p(8) h(4) by linarith
  then have "free_set p4 \<noteq> {}" by auto
  from pages.take_ok [OF p(6) this] obtain k p5 where p5: "REQUEST_PAGE p4 = Some (4096 * k, p5)" "k \<in> free_set p4"
    "free_set p5 = free_set p4 - {k}" "pa_inv p5" "total_pages p5 = n + 1" unfolding p(7) by blast
  let ?s0 = "\<lparr>pa = p5, KERNEL_PL4 = 4096 * k, pmem = zero_page (4096 * k) m\<rparr>"
  have "total_pages p5 \<le> 2 ^ 36" "k < total_pages p5" "k \<notin> free_set p5"
    using h(1) p5 p(7) by (auto simp: free_set_def)
  note s0 = first_table [OF p5(4) this, of m]
  have c5: "card (free_set p4) = card (free_set p5) + 1"
    unfolding p5(3) using card_Suc_Diff1 [OF free_set_finite p5(2)] by simp
  note P = init_tables_card [OF h(1,3,2)]
  have "card ?P \<le> card (free_set (pa ?s0))" using P p(8) c5 h(4) by simp
  then have aff: "affords ?P ?s0" using P by (intro affords_card) blast+
  have sub0: "va_tables (ptr_add 0 (int j * 4096)) \<subseteq> ?P" if "j < n" for j
    using that unfolding init_tables_def by auto
  have pg0: "unat (page36 (ptr_add 0 (int j * 4096))) = j" if "j < n" for j
    using region_page(2) [of j 0] that h(1) by simp
  from identity_run [OF map_mem_spec s0(1) aff sub0 pg0 inj_on_id2 h(1)] obtain s1 where
    s1: "map_pages_loop map_mem 0 0 0 n ?s0 = Some s1" "pt_inv s1" "took ?s0 s1"
    "table_paths s1 \<subseteq> ?P \<union> table_paths ?s0"
    "pages_mapped ((\<lambda>j. ptr_add 0 (int j * 4096)) ` {..< n}) (\<lambda>v. v AND 0x000ffffffffff000) ?s0 s1"
    by blast
  have fl: "bit ?F 0" by (simp add: PT_Present_def PT_RW_def PT_WriteThrough_def PT_CacheDisabled_def PT_PageAttributeTable_def)
  have sub1: "va_tables (ptr_add fb_base (int j * 4096)) \<subseteq> ?P" if "j < f" for j
    using that unfolding init_tables_def by auto
  have pg: "unat (page36 (ptr_add fb_base (int j * 4096))) = unat fb_base div 4096 + j" if "j < f" for j
    using region_page(2) [of j fb_base] h(2,3) that by simp
  have "inj_on (\<lambda>j. unat fb_base div 4096 + j) {..< f}" by (simp add: inj_on_def)
  from identity_run [OF map_mem_with_flags_spec [OF _ _ fl] s1(2) affords_took [OF aff s1(3,4)] sub1 pg this h(3)]
  obtain s2 where s2: "map_pages_loop (\<lambda>v p. map_mem_with_flags v p ?F) fb_base fb_base 0 f s1 = Some s2" "pt_inv s2"
    "took s1 s2" "table_paths s2 \<subseteq> ?P \<union> table_paths s1"
    "pages_mapped ((\<lambda>j. ptr_add fb_base (int j * 4096)) ` {..< f}) (\<lambda>v. v AND 0x000ffffffffff000) s1 s2"
    by blast
  have "INIT_PAGING memMap KernelStart KernelEnd fb_base fb_size m = Some s2"
    using p(1-5) p5(1) s1(1) s2(1)
    unfolding INIT_PAGING_def map_pages_def map_fb_pages_def Let_def n_def f_def by simp
  moreover have t: "took ?s0 s2" by (rule took_trans [OF s1(3) s2(3)])
  moreover have "n + 1 \<le> card (free_set (pa s2)) + paging_cost memMap KernelStart KernelEnd fb_size"
  proof -
    have "table_paths s2 \<subseteq> ?P \<union> {[]}" using s1(4) s2(4) s0(3) by blast
    then have "card (table_paths s2) \<le> card (?P \<union> {[]})" using P by (intro card_mono) simp_all
    also have "\<dots> \<le> card ?P + 1" using card_Un_le [of ?P "{[]}"] by simp
    finally have "card (table_paths s2) \<le> card ?P + 1" .
    moreover have "card (free_set (pa s2)) + card (table_paths s2) = card (free_set p5) + 1"
      using tookD(6) [OF t] s0(3) by simp
    ultimately show ?thesis using P p(8) c5 by linarith
  qed
  moreover have "total_pages (pa s2) = n + 1" using tookD(2) [OF t] p5(5) by simp
  ultimately show ?thesis using s0(2) s1(5) s2(2,5) by blast
qed

text \<open>The addresses of a run, and which pages below \<open>2 ^ 48\<close> they lie in.\<close>

definition region_addrs :: "u64 \<Rightarrow> nat \<Rightarrow> u64 set" where
  "region_addrs b f = (\<lambda>j. ptr_add b (int j * 4096)) ` {..< f}"

lemma page36_eqI: "unat (page36 v) = unat (page36 w) \<Longrightarrow> page36 v = page36 w"
  by (rule unsigned_word_eqI)

lemma region_addrs_page:
  assumes f: "f \<le> 2 ^ 19" and b: "4096 dvd unat b" "unat b + 4096 * f \<le> 2 ^ 47" and w: "unat w < 2 ^ 48"
  shows "(\<exists>v \<in> region_addrs b f. page36 w = page36 v \<and> unat v < 2 ^ 48) \<longleftrightarrow>
      unat b \<le> unat w \<and> unat w < unat b + 4096 * f"
    and "page36 w \<in> page36 ` region_addrs b f \<Longrightarrow> unat b \<le> unat w \<and> unat w < unat b + 4096 * f"
proof -
  obtain c where c: "unat b = 4096 * c" using b(1) by (rule dvdE)
  have u: "unat (page36 w) = unat w div 4096" using w by (intro unat_page36_small) simp
  have r: "unat (page36 (ptr_add b (int j * 4096))) = c + j" "unat (ptr_add b (int j * 4096)) < 2 ^ 48" if "j < f" for j
    using region_page [of j b] that f b(2) c by simp_all
  show *: "unat b \<le> unat w \<and> unat w < unat b + 4096 * f" if i: "page36 w \<in> page36 ` region_addrs b f"
  proof -
    obtain j where j: "j < f" "page36 w = page36 (ptr_add b (int j * 4096))"
      using i by (auto simp: region_addrs_def)
    then have "unat w div 4096 = c + j" using r [of j] u by simp
    with j(1) c show ?thesis by (metis add_less_cancel_left distrib_left_numeral div_less_iff_less_mult
        le_add1 less_eq_div_iff_mult_less_eq mult.commute zero_less_numeral)
  qed
  have "\<exists>v \<in> region_addrs b f. page36 w = page36 v \<and> unat v < 2 ^ 48" if h: "unat b \<le> unat w" "unat w < unat b + 4096 * f"
  proof -
    have j: "unat w div 4096 - c < f" "c \<le> unat w div 4096"
      using h unfolding c by (simp_all add: less_mult_imp_div_less)
    have "page36 w = page36 (ptr_add b (int (unat w div 4096 - c) * 4096))"
      by (rule page36_eqI) (use r(1) [OF j(1)] j(2) u in simp)
    then show ?thesis using j(1) r(2) [OF j(1)] unfolding region_addrs_def by blast
  qed
  with * show "(\<exists>v \<in> region_addrs b f. page36 w = page36 v \<and> unat v < 2 ^ 48) \<longleftrightarrow>
      unat b \<le> unat w \<and> unat w < unat b + 4096 * f" by blast
qed

text \<open>An address in a page mapped to itself translates to itself.\<close>

lemma mapped_to_itself:
  assumes "pages_mapped A (\<lambda>v. v AND 0x000ffffffffff000) s s'" and "unat w < 2 ^ 48"
    and "\<exists>v \<in> A. page36 w = page36 v \<and> unat v < 2 ^ 48"
  shows "translate s' w = Some (w AND 0x000ffffffffff000)"
proof -
  from assms(3) obtain v where v: "v \<in> A" "page36 w = page36 v" "unat v < 2 ^ 48" by blast
  then have "translate s' w = Some (v AND 0x000ffffffffff000)" using pages_mappedD(1) [OF assms(1) v(1,2)] by simp
  with same_frame [OF v(2) _ v(3)] assms(2) show ?thesis by simp
qed

lemma INIT_PAGING_identity:
  assumes ok: "paging_memory memMap KernelStart KernelEnd fb_base fb_size"
  shows "\<exists>s. INIT_PAGING memMap KernelStart KernelEnd fb_base fb_size m = Some s \<and> pt_inv s \<and>
    getMemorySize memMap 0 div 4096 + 1 \<le>
      card (free_set (pa s)) + paging_cost memMap KernelStart KernelEnd fb_size \<and>
    (\<forall>w. unat w < 2 ^ 48 \<longrightarrow> translate s w =
      (if unat w div 4096 < getMemorySize memMap 0 div 4096 \<or>
         unat fb_base \<le> unat w \<and> unat w < unat fb_base + 4096 * ((fb_size + 4095) div 4096)
       then Some (w AND 0x000ffffffffff000) else None))"
proof -
  let ?n = "getMemorySize memMap 0 div 4096" and ?f = "(fb_size + 4095) div 4096"
  have h: "?n \<le> 2 ^ 19" "?f \<le> 2 ^ 19" "4096 dvd unat fb_base" "unat fb_base + 4096 * ?f \<le> 2 ^ 47"
    using ok unfolding paging_memory_def Let_def by blast+
  from INIT_PAGING_spec [OF ok, of m, folded region_addrs_def] obtain s s0 s1 where s:
    "INIT_PAGING memMap KernelStart KernelEnd fb_base fb_size m = Some s" "pt_inv s"
    "?n + 1 \<le> card (free_set (pa s)) + paging_cost memMap KernelStart KernelEnd fb_size"
    "\<And>v. translate s0 v = None" "pages_mapped (region_addrs 0 ?n) (\<lambda>v. v AND 0x000ffffffffff000) s0 s1"
    "pages_mapped (region_addrs fb_base ?f) (\<lambda>v. v AND 0x000ffffffffff000) s1 s" by blast
  have b0: "4096 dvd unat (0 :: u64)" "unat (0 :: u64) + 4096 * ?n \<le> 2 ^ 47" using h(1) by simp_all
  have "translate s w = (if unat w div 4096 < ?n \<or>
      unat fb_base \<le> unat w \<and> unat w < unat fb_base + 4096 * ?f then Some (w AND 0x000ffffffffff000) else None)"
    if w: "unat w < 2 ^ 48" for w
  proof -
    note R = region_addrs_page [OF h(2,3,4) w]
    have "unat w div 4096 < ?n \<longleftrightarrow> unat (0 :: u64) \<le> unat w \<and> unat w < unat (0 :: u64) + 4096 * ?n"
      by (simp add: div_less_iff_less_mult mult.commute)
    note I = region_addrs_page [OF h(1) b0 w, folded this]
    show ?thesis
    proof (cases "unat fb_base \<le> unat w \<and> unat w < unat fb_base + 4096 * ?f")
      case True
      with mapped_to_itself [OF s(6) w] R(1) show ?thesis by simp
    next
      case False
      then have "translate s w = translate s1 w" using R(2) pages_mappedD(2) [OF s(6)] by blast
      with False mapped_to_itself [OF s(5) w] I s(4) pages_mappedD(2) [OF s(5), of w] show ?thesis by auto
    qed
  qed
  with s(1,2,3) show ?thesis by blast
qed

section \<open>Properties\<close>

text \<open>More than 2 GiB of memory cannot be mapped: the product \<open>i*4096\<close> overflows.\<close>

lemma init_paging_overflows:
  assumes "2 ^ 19 < getMemorySize memMap 0 div 4096"
  shows "INIT_PAGING memMap KernelStart KernelEnd fb_base fb_size m = None"
  using assms by (simp add: INIT_PAGING_def map_pages_def map_pages_loop_overflow Let_def case_prod_unfold)

text \<open>
  C5. On a memory map of at most 2 GiB, \<open>INIT_PAGING\<close> succeeds with a well-formed tree of tables
  in which every page of the memory and of the frame buffer translates to itself, and no other
  page of the 48-bit address space is mapped.
\<close>

theorem init_paging_identity:
  assumes ok: "paging_memory memMap KernelStart KernelEnd fb_base fb_size"
  shows "\<exists>s. INIT_PAGING memMap KernelStart KernelEnd fb_base fb_size m = Some s \<and> pt_inv s \<and>
    (\<forall>w. unat w < 2 ^ 48 \<longrightarrow> translate s w =
      (if unat w div 4096 < getMemorySize memMap 0 div 4096 \<or>
         unat fb_base \<le> unat w \<and> unat w < unat fb_base + 4096 * ((fb_size + 4095) div 4096)
       then Some (w AND 0x000ffffffffff000) else None))"
  using INIT_PAGING_identity [OF ok, of m] by blast

text \<open>A machine with 1 GiB of memory and a frame buffer of 4 MiB.\<close>

definition map0 :: "EFI_MEMORY_DESCRIPTOR list" where
  "map0 = [\<lparr>Type = EfiBootServicesData, PhysicalStart = 0, VirtualStart = 0, NumberOfPages = 256, Attribute = 0\<rparr>,
     \<lparr>Type = EfiConventionalMemory, PhysicalStart = 0x100000, VirtualStart = 0, NumberOfPages = 261888, Attribute = 0\<rparr>]"

lemma map0_pages: "getMemorySize map0 0 div 4096 = 262144"
  by (simp add: map0_def wrap64_def)

lemma map0_ok: "paging_memory map0 0x2000000 0x2100000 0xfd000000 0x400000"
  unfolding paging_memory_def paging_cost_def map0_pages Let_def
  by (simp add: map0_def reserved_pages_def)

theorem init_paging_identity_witness:
  "\<exists>s. INIT_PAGING map0 0x2000000 0x2100000 0xfd000000 0x400000 (\<lambda>_. 0) = Some s \<and>
     translate s 0x2000000 = Some 0x2000000 \<and> translate s 0xfd000123 = Some 0xfd000000 \<and>
     translate s 0x90000000 = None \<and> translate s 0xffff80000000 = None"
proof -
  from init_paging_identity [OF map0_ok, of "\<lambda>_. 0", unfolded map0_pages] obtain s where
    s: "INIT_PAGING map0 0x2000000 0x2100000 0xfd000000 0x400000 (\<lambda>_. 0) = Some s"
    "\<And>w. unat w < 2 ^ 48 \<Longrightarrow> translate s w = (if unat w div 4096 < 262144 \<or>
         unat (0xfd000000 :: u64) \<le> unat w \<and> unat w < unat (0xfd000000 :: u64) + 4096 * ((0x400000 + 4095) div 4096)
       then Some (w AND 0x000ffffffffff000) else None)" by blast
  show ?thesis using s(1) s(2) [of "0x2000000"] s(2) [of "0xfd000123"] s(2) [of "0x90000000"] s(2) [of "0xffff80000000"]
    by (intro exI [of _ s]) simp
qed

end
