(* ===== verification/PortIO.thy ===== *)
theory PortIO
  imports Prelude
begin

text \<open>
  Port input and output (\<open>kernel/src/io.c\<close>, \<open>kernel/src/serial.c\<close>).  Every access to a port is
  an event; a run is the list of its events, the latest first.  What a device answers is a
  function of the events so far, which makes any deterministic device a parameter of the
  drivers.  A loop that polls a port is partial: it has no value when the device never gives
  the status the loop waits for.
\<close>

section \<open>Ports\<close>

datatype io_event =
    Outb u16 u8
  | Outw u16 u16
  | Inb u16 u8
  | Inw u16 u16

type_synonym io_trace = "io_event list"

record device =
  dev8 :: "io_trace \<Rightarrow> u16 \<Rightarrow> u8"
  dev16 :: "io_trace \<Rightarrow> u16 \<Rightarrow> u16"

definition outb :: "u16 \<Rightarrow> u8 \<Rightarrow> io_trace \<Rightarrow> io_trace" where
  "outb port v tr = Outb port v # tr"

definition outw :: "u16 \<Rightarrow> u16 \<Rightarrow> io_trace \<Rightarrow> io_trace" where
  "outw port v tr = Outw port v # tr"

definition inb :: "device \<Rightarrow> u16 \<Rightarrow> io_trace \<Rightarrow> u8 \<times> io_trace" where
  "inb d port tr = (let v = dev8 d tr port in (v, Inb port v # tr))"

definition inw :: "device \<Rightarrow> u16 \<Rightarrow> io_trace \<Rightarrow> u16 \<times> io_trace" where
  "inw d port tr = (let v = dev16 d tr port in (v, Inw port v # tr))"

definition io_wait :: "io_trace \<Rightarrow> io_trace" where
  "io_wait tr = outb 0x80 0 tr"

text \<open>The registers and commands of the two controllers and of the first serial line.\<close>

abbreviation PIC1 :: u16 where "PIC1 \<equiv> 0x20"
abbreviation PIC2 :: u16 where "PIC2 \<equiv> 0xA0"
abbreviation PIC1_COMMAND :: u16 where "PIC1_COMMAND \<equiv> PIC1"
abbreviation PIC1_DATA :: u16 where "PIC1_DATA \<equiv> PIC1 + 1"
abbreviation PIC2_COMMAND :: u16 where "PIC2_COMMAND \<equiv> PIC2"
abbreviation PIC2_DATA :: u16 where "PIC2_DATA \<equiv> PIC2 + 1"
abbreviation ICW1_ICW4 :: u8 where "ICW1_ICW4 \<equiv> 0x01"
abbreviation ICW1_INIT :: u8 where "ICW1_INIT \<equiv> 0x10"
abbreviation ICW4_8086 :: u8 where "ICW4_8086 \<equiv> 0x01"
abbreviation PIC_EOI :: u8 where "PIC_EOI \<equiv> 0x20"
abbreviation PORT :: u16 where "PORT \<equiv> 0x3f8"

section \<open>The interrupt controllers\<close>

definition PIC_remap :: "device \<Rightarrow> s32 \<Rightarrow> s32 \<Rightarrow> io_trace \<Rightarrow> io_trace" where
  "PIC_remap d offset1 offset2 tr0 =
     (let (a1, tr1) = inb d PIC1_DATA tr0;
          (a2, tr2) = inb d PIC2_DATA tr1;
          tr = io_wait (outb PIC1_COMMAND (ICW1_INIT OR ICW1_ICW4) tr2);
          tr = io_wait (outb PIC2_COMMAND (ICW1_INIT OR ICW1_ICW4) tr);
          tr = io_wait (outb PIC1_DATA (ucast offset1) tr);
          tr = io_wait (outb PIC2_DATA (ucast offset2) tr);
          tr = io_wait (outb PIC1_DATA 4 tr);
          tr = io_wait (outb PIC2_DATA 2 tr);
          tr = io_wait (outb PIC1_DATA ICW4_8086 tr);
          tr = io_wait (outb PIC2_DATA ICW4_8086 tr);
          tr = outb PIC1_DATA a1 tr
      in outb PIC2_DATA a2 tr)"

definition PIC_EndMaster :: "io_trace \<Rightarrow> io_trace" where
  "PIC_EndMaster tr = outb PIC1_COMMAND PIC_EOI tr"

definition PIC_EndSlave :: "io_trace \<Rightarrow> io_trace" where
  "PIC_EndSlave tr = outb PIC1_COMMAND PIC_EOI (outb PIC2_COMMAND PIC_EOI tr)"

section \<open>Polling\<close>

text \<open>\<open>while (inb(port) & mask);\<close> and its negation.\<close>

partial_function (option) wait_clear :: "device \<Rightarrow> u16 \<Rightarrow> u8 \<Rightarrow> io_trace \<Rightarrow> io_trace option" where
  "wait_clear d port m tr =
     (case inb d port tr of (v, tr') \<Rightarrow>
        if v AND m \<noteq> 0 then wait_clear d port m tr' else Some tr')"

partial_function (option) wait_set :: "device \<Rightarrow> u16 \<Rightarrow> u8 \<Rightarrow> io_trace \<Rightarrow> io_trace option" where
  "wait_set d port m tr =
     (case inb d port tr of (v, tr') \<Rightarrow>
        if v AND m = 0 then wait_set d port m tr' else Some tr')"

section \<open>The serial line\<close>

definition init_serial :: "device \<Rightarrow> io_trace \<Rightarrow> int \<times> io_trace" where
  "init_serial d tr =
     (let tr = outb (PORT + 1) 0x00 tr;
          tr = outb (PORT + 3) 0x80 tr;
          tr = outb (PORT + 0) 0x03 tr;
          tr = outb (PORT + 1) 0x00 tr;
          tr = outb (PORT + 3) 0x03 tr;
          tr = outb (PORT + 2) 0xC7 tr;
          tr = outb (PORT + 4) 0x0B tr;
          tr = outb (PORT + 4) 0x1E tr;
          tr = outb (PORT + 0) 0xAE tr;
          (v, tr) = inb d (PORT + 0) tr
      in if v \<noteq> 0xAE then (1, tr) else (0, outb (PORT + 4) 0x0F tr))"

definition is_transmit_empty :: "device \<Rightarrow> io_trace \<Rightarrow> u8 \<times> io_trace" where
  "is_transmit_empty d tr = (case inb d (PORT + 5) tr of (v, tr') \<Rightarrow> (v AND 0x20, tr'))"

partial_function (option) transmit_wait :: "device \<Rightarrow> io_trace \<Rightarrow> io_trace option" where
  "transmit_wait d tr =
     (case is_transmit_empty d tr of (v, tr') \<Rightarrow>
        if v = 0 then transmit_wait d tr' else Some tr')"

definition write_serial :: "device \<Rightarrow> u8 \<Rightarrow> io_trace \<Rightarrow> io_trace option" where
  "write_serial d a tr = do { tr \<leftarrow> transmit_wait d tr; Some (outb PORT a tr) }"

text \<open>A string without a terminating zero is read past its end.\<close>

fun print_serial :: "device \<Rightarrow> u8 list \<Rightarrow> io_trace \<Rightarrow> io_trace option" where
  "print_serial d [] tr = None"
| "print_serial d (c # cs) tr =
     (if c = 0 then Some tr
      else do { tr \<leftarrow> write_serial d c tr; print_serial d cs tr })"

section \<open>What a run did\<close>

text \<open>\<open>last_out p tr\<close> is the last byte written to \<open>p\<close>; \<open>sent p tr\<close> all of them in order.\<close>

fun last_out :: "u16 \<Rightarrow> io_trace \<Rightarrow> u8" where
  "last_out p [] = 0"
| "last_out p (Outb q v # tr) = (if q = p then v else last_out p tr)"
| "last_out p (Outw q v # tr) = last_out p tr"
| "last_out p (Inb q v # tr) = last_out p tr"
| "last_out p (Inw q v # tr) = last_out p tr"

fun sent :: "u16 \<Rightarrow> io_trace \<Rightarrow> u8 list" where
  "sent p [] = []"
| "sent p (Outb q v # tr) = (if q = p then sent p tr @ [v] else sent p tr)"
| "sent p (Outw q v # tr) = sent p tr"
| "sent p (Inb q v # tr) = sent p tr"
| "sent p (Inw q v # tr) = sent p tr"

text \<open>The state after \<open>n\<close> reads of a port.\<close>

fun polls :: "device \<Rightarrow> u16 \<Rightarrow> nat \<Rightarrow> io_trace \<Rightarrow> io_trace" where
  "polls d p 0 tr = tr"
| "polls d p (Suc n) tr = polls d p n (snd (inb d p tr))"

text \<open>The device eventually gives a status with property \<open>P\<close>, whatever happened before.\<close>

definition settles :: "device \<Rightarrow> u16 \<Rightarrow> (u8 \<Rightarrow> bool) \<Rightarrow> bool" where
  "settles d p P \<longleftrightarrow> (\<forall>tr. \<exists>n. P (dev8 d (polls d p n tr) p))"

lemma last_out_polls [simp]: "last_out q (map (Inb p) vs @ tr) = last_out q tr"
  by (induction vs) simp_all

lemma sent_polls [simp]: "sent q (map (Inb p) vs @ tr) = sent q tr"
  by (induction vs) simp_all

text \<open>A polling loop on a device that settles returns, and all it did was read the port.\<close>

lemma wait_clear_aux:
  "dev8 d (polls d p n tr) p AND m = 0 \<Longrightarrow> \<exists>vs. wait_clear d p m tr = Some (map (Inb p) vs @ tr)"
proof (induction n arbitrary: tr)
  case 0
  then have "wait_clear d p m tr = Some (map (Inb p) [dev8 d tr p] @ tr)"
    by (subst wait_clear.simps) (simp add: inb_def Let_def)
  then show ?case by blast
next
  case (Suc n)
  let ?v = "dev8 d tr p"
  show ?case
  proof (cases "?v AND m = 0")
    case True
    then have "wait_clear d p m tr = Some (map (Inb p) [?v] @ tr)"
      by (subst wait_clear.simps) (simp add: inb_def Let_def)
    then show ?thesis by blast
  next
    case False
    have "\<exists>vs. wait_clear d p m (Inb p ?v # tr) = Some (map (Inb p) vs @ Inb p ?v # tr)"
      using Suc by (simp add: inb_def Let_def)
    then obtain vs where "wait_clear d p m (Inb p ?v # tr) = Some (map (Inb p) (vs @ [?v]) @ tr)"
      by auto
    moreover have "wait_clear d p m tr = wait_clear d p m (Inb p ?v # tr)"
      using False by (subst wait_clear.simps) (simp add: inb_def Let_def)
    ultimately show ?thesis by metis
  qed
qed

lemma wait_clear_returns:
  "settles d p (\<lambda>v. v AND m = 0) \<Longrightarrow> \<exists>vs. wait_clear d p m tr = Some (map (Inb p) vs @ tr)"
  unfolding settles_def using wait_clear_aux by blast

lemma wait_set_aux:
  "dev8 d (polls d p n tr) p AND m \<noteq> 0 \<Longrightarrow> \<exists>vs. wait_set d p m tr = Some (map (Inb p) vs @ tr)"
proof (induction n arbitrary: tr)
  case 0
  then have "wait_set d p m tr = Some (map (Inb p) [dev8 d tr p] @ tr)"
    by (subst wait_set.simps) (simp add: inb_def Let_def)
  then show ?case by blast
next
  case (Suc n)
  let ?v = "dev8 d tr p"
  show ?case
  proof (cases "?v AND m = 0")
    case False
    then have "wait_set d p m tr = Some (map (Inb p) [?v] @ tr)"
      by (subst wait_set.simps) (simp add: inb_def Let_def)
    then show ?thesis by blast
  next
    case True
    have "\<exists>vs. wait_set d p m (Inb p ?v # tr) = Some (map (Inb p) vs @ Inb p ?v # tr)"
      using Suc by (simp add: inb_def Let_def)
    then obtain vs where "wait_set d p m (Inb p ?v # tr) = Some (map (Inb p) (vs @ [?v]) @ tr)"
      by auto
    moreover have "wait_set d p m tr = wait_set d p m (Inb p ?v # tr)"
      using True by (subst wait_set.simps) (simp add: inb_def Let_def)
    ultimately show ?thesis by metis
  qed
qed

lemma wait_set_returns:
  "settles d p (\<lambda>v. v AND m \<noteq> 0) \<Longrightarrow> \<exists>vs. wait_set d p m tr = Some (map (Inb p) vs @ tr)"
  unfolding settles_def using wait_set_aux by blast

lemma transmit_wait_set:
  assumes "wait_set d (0x3f8 + 5) 0x20 tr = Some tr'"
  shows "transmit_wait d tr = Some tr'"
proof -
  have "0x3f8 + 5 = (0x3f8 + 5 :: u16) \<longrightarrow> 0x20 = (0x20 :: u8) \<longrightarrow> transmit_wait d tr = Some tr'"
    by (rule wait_set.raw_induct
          [where P = "\<lambda>d p m tr y. p = 0x3f8 + 5 \<longrightarrow> m = 0x20 \<longrightarrow> transmit_wait d tr = Some y", OF _ assms],
        subst transmit_wait.simps)
       (auto simp: is_transmit_empty_def inb_def Let_def split: if_splits)
  then show ?thesis by simp
qed

text \<open>Sending a string over a line that is ready again and again sends exactly its bytes.\<close>

lemma print_serial_sends:
  assumes "settles d (0x3f8 + 5) (\<lambda>v. v AND 0x20 \<noteq> 0)" "0 \<notin> set cs"
  shows "\<exists>tr'. print_serial d (cs @ 0 # rest) tr = Some tr' \<and> sent 0x3f8 tr' = sent 0x3f8 tr @ cs"
  using assms(2)
proof (induction cs arbitrary: tr)
  case (Cons c cs)
  obtain vs where "wait_set d (0x3f8 + 5) 0x20 tr = Some (map (Inb (0x3f8 + 5)) vs @ tr)"
    using wait_set_returns [OF assms(1)] by blast
  then have "write_serial d c tr = Some (Outb 0x3f8 c # map (Inb (0x3f8 + 5)) vs @ tr)"
    by (simp add: write_serial_def outb_def transmit_wait_set)
  then show ?case
    using Cons by (auto dest: meta_spec [of _ "Outb 0x3f8 c # map (Inb (0x3f8 + 5)) vs @ tr"])
qed simp

text \<open>The faulty-chip test: the line is used only when the loopback byte came back.\<close>

lemma init_serial_result:
  "fst (init_serial d tr) = 0 \<longleftrightarrow> last_out (0x3f8 + 4) (snd (init_serial d tr)) = 0x0F"
  by (simp add: init_serial_def Let_def outb_def inb_def)

text \<open>
  Remapping runs the initialisation sequence of each controller (0x11, then the vector
  base, the cascade wiring and the 8086 mode) and puts the masks read before it back.
\<close>

lemma PIC_remap_sequence:
  fixes d :: device and tr :: io_trace and offset1 offset2 :: s32
  defines "tr' \<equiv> PIC_remap d offset1 offset2 tr"
  shows "sent 0x20 tr' = sent 0x20 tr @ [0x11]"
    and "sent 0xA0 tr' = sent 0xA0 tr @ [0x11]"
    and "sent 0x21 tr' = sent 0x21 tr @ [ucast offset1, 4, 1, dev8 d tr 0x21]"
    and "sent 0xA1 tr' = sent 0xA1 tr @ [ucast offset2, 2, 1, dev8 d (Inb 0x21 (dev8 d tr 0x21) # tr) 0xA1]"
  by (simp_all add: tr'_def PIC_remap_def Let_def inb_def outb_def io_wait_def)

end
