(* ===== verification/Threads.thy ===== *)
theory Threads
  imports RingBuffer Heap PageTable PortIO CString
begin

text \<open>
  Threads and the scheduler (\<open>kernel/src/thread.c\<close>, \<open>kernel/src/scheduler.c\<close>).  Memory is seen through
  two views, the \<open>thread\<close> and the register frame stored at an address.  The ready threads are
  the pointers in a circular buffer; the lemmas show that the timer handler serves them in
  rotation, so that every live thread runs again within as many switches as there are threads.
\<close>

section \<open>State\<close>

record thread =
  tid :: u64
  parent_pid :: u64
  RSP :: u64
  state :: u64

record registers =
  rax :: u64
  rbx :: u64
  rcx :: u64
  rdx :: u64
  rbp :: u64
  rdi :: u64
  rsi :: u64
  r8 :: u64
  r9 :: u64
  r10 :: u64
  r11 :: u64
  r12 :: u64
  r13 :: u64
  r14 :: u64
  r15 :: u64
  rbp0 :: u64
  ip :: u64
  cs :: u64
  rflags :: u64
  sp :: u64
  ss :: u64
  err :: u64
  ret :: u64

abbreviation THREAD_DEAD :: u64 where "THREAD_DEAD \<equiv> 1"

text \<open>
  The globals of the two files, the heap, the page tables and allocator, the serial line and
  the interrupt flag.  \<open>thread_pool\<close> is a pointer that is null before \<open>start_scheduler\<close>.
\<close>

record sched =
  scheduler_inited :: bool
  first_switch :: bool
  current_thread :: u64
  next_tid :: u64
  thread_pool :: "circular_buffer option"
  expected_false :: bool
  threads :: "u64 \<Rightarrow> thread"
  frames :: "u64 \<Rightarrow> registers"
  kheap :: heap
  kpages :: paging
  serial_line :: io_trace
  interrupts :: bool

text \<open>A pointer as the eight bytes the buffer copies.\<close>

definition ptr_bytes :: "u64 \<Rightarrow> u8 list" where
  "ptr_bytes p = map (\<lambda>i. ucast (drop_bit (8 * i) p)) [0..<8]"

definition bytes_ptr :: "u8 list \<Rightarrow> u64" where
  "bytes_ptr bs = foldr (\<lambda>b p. ucast b OR push_bit 8 p) bs 0"

text \<open>\<open>map_mem(heap_end+..., REQUEST_PAGE())\<close>: how the kernel heap gets its pages.\<close>

definition map_heap_page :: "nat \<Rightarrow> paging \<Rightarrow> paging option" where
  "map_heap_page a p = map_fresh_page (of_nat a) p"

definition kmalloc_k :: "nat \<Rightarrow> sched \<Rightarrow> (u64 \<times> sched) option" where
  "kmalloc_k n s = do {
     (a, h, p) \<leftarrow> kmalloc map_heap_page n (kheap s) (kpages s);
     Some (of_nat a, s\<lparr>kheap := h, kpages := p\<rparr>) }"

section \<open>Threads\<close>

text \<open>
  The argument \<open>arg\<close> is accepted and not used.  \<open>exit_adr\<close> is the address of \<open>thread_exit\<close>;
  184 is \<open>sizeof(registers)\<close>.  Fields that are not set keep what the page held.
\<close>

definition new_thread :: "u64 \<Rightarrow> u64 \<Rightarrow> u64 \<Rightarrow> sched \<Rightarrow> (u64 \<times> sched) option" where
  "new_thread exit_adr function arg s = do {
     (page, p) \<leftarrow> REQUEST_PAGE (pa (kpages s));
     if page = 0 then None
     else do {
       let th = of_nat page;
       let sp0 = th + (4096 - 184);
       let t = (threads s th)\<lparr>tid := next_tid s, state := 0, RSP := sp0\<rparr>;
       let reg = (frames s sp0)\<lparr>rcx := 0xdeadbeefbeadbeef, ip := function, cs := 0x8,
                    sp := sp0 + 176, ss := 0x10, rflags := 0x202, err := 0, rbp := sp0 + 120,
                    ret := exit_adr\<rparr>;
       Some (th, s\<lparr>kpages := (kpages s)\<lparr>pa := p\<rparr>, next_tid := next_tid s + 1,
                   threads := (threads s)(th := t), frames := (frames s)(sp0 := reg)\<rparr>) } }"

definition destroy_thread :: "u64 \<Rightarrow> sched \<Rightarrow> sched option" where
  "destroy_thread th s = do {
     p \<leftarrow> FREE_PAGE (unat th) (pa (kpages s));
     Some (s\<lparr>kpages := (kpages s)\<lparr>pa := p\<rparr>\<rparr>) }"

text \<open>\<open>thread_exit\<close> up to its loop of \<open>yield\<close>s.\<close>

definition thread_exit :: "sched \<Rightarrow> sched" where
  "thread_exit s = s\<lparr>threads := (threads s)(current_thread s :=
     (threads s (current_thread s))\<lparr>state := THREAD_DEAD\<rparr>)\<rparr>"

section \<open>The scheduler\<close>

text \<open>\<open>cb_push(thread_pool,&t,1)\<close>; its result is not looked at.\<close>

definition pool_push :: "u64 \<Rightarrow> sched \<Rightarrow> sched option" where
  "pool_push t s = do {
     cb \<leftarrow> thread_pool s;
     (cb, x, k) \<leftarrow> cb_push cb (expected_false s) (ptr_bytes t) 1;
     Some (s\<lparr>thread_pool := Some cb, expected_false := x\<rparr>) }"

text \<open>\<open>cb_pop(thread_pool,&current_thread,1)\<close>: an empty pool leaves the variable alone.\<close>

definition pool_pop :: "sched \<Rightarrow> sched option" where
  "pool_pop s = do {
     cb \<leftarrow> thread_pool s;
     (cb, x, bs, k) \<leftarrow> cb_pop cb (expected_false s) (ptr_bytes (current_thread s)) 1;
     Some (s\<lparr>thread_pool := Some cb, expected_false := x, current_thread := bytes_ptr bs\<rparr>) }"

text \<open>\<open>storage\<close> is what the heap held where the buffer is placed; 56 is \<open>sizeof(circular_buffer)\<close>.\<close>

definition start_scheduler :: "u64 \<Rightarrow> u64 \<Rightarrow> u8 list \<Rightarrow> sched \<Rightarrow> sched option" where
  "start_scheduler exit_adr vsync storage s = do {
     let s = s\<lparr>interrupts := False\<rparr>;
     (a, s) \<leftarrow> kmalloc_k (56 + 256 * 8) s;
     let s = s\<lparr>thread_pool := Some (cb_init 256 8 storage)\<rparr>;
     (t, s) \<leftarrow> new_thread exit_adr vsync 0 s;
     s \<leftarrow> pool_push t s;
     Some (s\<lparr>scheduler_inited := True, interrupts := True\<rparr>) }"

definition user_mode_message :: "u8 list" where
  "user_mode_message = of_str ''Attempting to enter user mode'' @ [0]"

text \<open>The end of the handler: take the oldest thread of the pool and go on with its stack.\<close>

definition resume_next :: "device \<Rightarrow> sched \<Rightarrow> (u64 \<times> sched) option" where
  "resume_next d s = do {
     s \<leftarrow> pool_pop s;
     s \<leftarrow> (if cs (frames s (RSP (threads s (current_thread s)))) \<noteq> 8
           then do { tr \<leftarrow> print_serial d user_mode_message (serial_line s);
                     Some (s\<lparr>serial_line := tr, interrupts := False\<rparr>) }
           else Some s);
     Some (RSP (threads s (current_thread s)), s) }"

definition get_next_thread :: "device \<Rightarrow> u64 \<Rightarrow> sched \<Rightarrow> (u64 \<times> sched) option" where
  "get_next_thread d stack_ptr s =
     (if \<not> scheduler_inited s then Some (stack_ptr, s)
      else if first_switch s then do {
        (t, s) \<leftarrow> kmalloc_k 32 (s\<lparr>first_switch := False\<rparr>);
        Some (stack_ptr, s\<lparr>threads := (threads s)(t := (threads s t)\<lparr>tid := 0, state := 0\<rparr>),
                           current_thread := t\<rparr>) }
      else do {
        let c = current_thread s;
        let s = s\<lparr>threads := (threads s)(c := (threads s c)\<lparr>RSP := stack_ptr\<rparr>)\<rparr>;
        s \<leftarrow> (if (if state (threads s c) = 0 then 1 else 0) AND THREAD_DEAD \<noteq> 0
              then pool_push c s else destroy_thread c s);
        resume_next d s })"

text \<open>
  A run of the timer.  Each interrupt comes with the stack pointer of the interrupted thread and
  whether that thread has called \<open>thread_exit\<close> before; the result lists the stack pointers the
  handler continues on.
\<close>

definition interrupted :: "device \<Rightarrow> u64 \<times> bool \<Rightarrow> sched \<Rightarrow> (u64 \<times> sched) option" where
  "interrupted d e s = get_next_thread d (fst e) (if snd e then thread_exit s else s)"

fun switches :: "device \<Rightarrow> (u64 \<times> bool) list \<Rightarrow> sched \<Rightarrow> (u64 list \<times> sched) option" where
  "switches d [] s = Some ([], s)"
| "switches d (e # es) s = do {
     (r, s) \<leftarrow> interrupted d e s;
     (rs, s) \<leftarrow> switches d es s;
     Some (r # rs, s) }"

section \<open>Pointers in the buffer\<close>

lemma length_ptr_bytes [simp]: "length (ptr_bytes p) = 8"
  by (simp add: ptr_bytes_def)

lemma bit_bytes_ptr:
  "n < 64 \<Longrightarrow> bit (bytes_ptr bs) n \<longleftrightarrow> n div 8 < length bs \<and> bit (bs ! (n div 8)) (n mod 8)"
proof (induction bs arbitrary: n)
  case (Cons b bs)
  have c: "bytes_ptr (b # bs) = ucast b OR push_bit 8 (bytes_ptr bs)" by (simp add: bytes_ptr_def)
  show ?case
  proof (cases "n < 8")
    case True
    then show ?thesis unfolding c using Cons.prems by (simp add: bit_simps)
  next
    case False
    then have "bit (bytes_ptr (b # bs)) n = bit (bytes_ptr bs) (n - 8)"
      unfolding c using Cons.prems bit_imp_le_length [of b n] by (auto simp: bit_simps)
    moreover have "n div 8 = Suc ((n - 8) div 8)" "(n - 8) mod 8 = n mod 8"
      using False by (simp_all add: le_div_geq le_mod_geq)
    ultimately show ?thesis using Cons.IH [of "n - 8"] Cons.prems by simp
  qed
qed (simp add: bytes_ptr_def)

lemma bytes_ptr_bytes [simp]: "bytes_ptr (ptr_bytes p) = p"
proof (rule bit_word_eqI)
  fix n assume n: "n < LENGTH(64)"
  then have "n div 8 < 8" by auto
  with n show "bit (bytes_ptr (ptr_bytes p)) n = bit p n"
    by (simp add: bit_bytes_ptr) (simp add: ptr_bytes_def bit_simps)
qed

section \<open>Rotation\<close>

text \<open>
  The scheduler runs, the pool holds the threads \<open>q\<close>, oldest first, with room for one more; they
  and the current thread are distinct and alive.  Nothing is asked of their frames: they may be
  threads of the kernel or of a process.
\<close>

definition ready :: "sched \<Rightarrow> u64 list \<Rightarrow> bool" where
  "ready s q \<longleftrightarrow> scheduler_inited s \<and> \<not> first_switch s \<and> length q < 256 \<and>
     (\<exists>cb. thread_pool s = Some cb \<and> cb_rep 8 256 cb (map ptr_bytes q)) \<and>
     distinct (current_thread s # q) \<and>
     (\<forall>t \<in> set (current_thread s # q). state (threads s t) = 0)"

text \<open>The line over which the switch to a process is reported takes bytes again and again.\<close>

abbreviation line_drains :: "device \<Rightarrow> bool" where
  "line_drains d \<equiv> settles d (0x3f8 + 5) (\<lambda>v. v AND 0x20 \<noteq> 0)"

text \<open>Only a thread on a page of its own, which the page map covers, can be given back.\<close>

definition on_page :: "sched \<Rightarrow> u64 \<Rightarrow> bool" where
  "on_page s t \<longleftrightarrow> unat t div 4096 < length (pages_used (pa (kpages s)))"

lemma slot_all [simp]: "length e = w \<Longrightarrow> slot w e 0 = e"
  by (simp add: slot_def)

lemma pool_push_spec:
  assumes "thread_pool s = Some cb" "cb_rep 8 n cb (map ptr_bytes q)" "length q < n"
  shows "\<exists>cb' x. pool_push t s = Some (s\<lparr>thread_pool := Some cb', expected_false := x\<rparr>) \<and>
    cb_rep 8 n cb' (map ptr_bytes (q @ [t]))"
proof -
  have m: "min 1 (n - length (map ptr_bytes q)) = 1" using assms(3) by simp
  from cb_push_rep [OF assms(2), of 1 "ptr_bytes t" "expected_false s"] assms(1)
  show ?thesis unfolding m by (fastforce simp: pool_push_def)
qed

lemma pool_pop_spec:
  assumes "thread_pool s = Some cb" "cb_rep 8 n cb (map ptr_bytes q)"
  shows "\<exists>cb' x. pool_pop s = Some (s\<lparr>thread_pool := Some cb', expected_false := x,
      current_thread := (case q of [] \<Rightarrow> current_thread s | t # _ \<Rightarrow> t)\<rparr>) \<and>
    cb_rep 8 n cb' (map ptr_bytes (tl q))"
  using cb_pop_rep [OF assms(2), of 1 "ptr_bytes (current_thread s)" "expected_false s"] assms(1)
  by (cases q) (fastforce simp: pool_pop_def)+

lemma user_mode_reported:
  assumes "line_drains d"
  shows "\<exists>tr'. print_serial d user_mode_message tr = Some tr'"
proof -
  have "list_all (\<lambda>c. c \<noteq> 0) (of_str ''Attempting to enter user mode'' :: u8 list)" by (simp add: of_str_def)
  with print_serial_sends [OF assms, of "of_str ''Attempting to enter user mode''" "[]" tr] show ?thesis
    unfolding user_mode_message_def by (auto simp: list_all_iff)
qed

lemma resume_spec:
  assumes "line_drains d" and "thread_pool s = Some cb" "cb_rep 8 256 cb (map ptr_bytes (t # q))"
  shows "\<exists>s'. resume_next d s = Some (RSP (threads s t), s') \<and>
    current_thread s' = t \<and> threads s' = threads s \<and> kpages s' = kpages s \<and>
    scheduler_inited s' = scheduler_inited s \<and> first_switch s' = first_switch s \<and>
    (\<exists>cb'. thread_pool s' = Some cb' \<and> cb_rep 8 256 cb' (map ptr_bytes q))"
proof -
  from pool_pop_spec [OF assms(2,3)] obtain cb' x where
    p: "pool_pop s = Some (s\<lparr>thread_pool := Some cb', expected_false := x, current_thread := t\<rparr>)"
      "cb_rep 8 256 cb' (map ptr_bytes q)" by auto
  from user_mode_reported [OF assms(1), of "serial_line s"] obtain tr where
    "print_serial d user_mode_message (serial_line s) = Some tr" by blast
  with p show ?thesis by (simp add: resume_next_def)
qed

text \<open>An interrupt of a live thread: its stack is saved and it joins the end of the pool.\<close>

lemma switch_live:
  fixes p :: u64
  assumes "ready s q" and "line_drains d"
  defines "c \<equiv> current_thread s" and "ts \<equiv> (threads s)(current_thread s := (threads s (current_thread s))\<lparr>RSP := p\<rparr>)"
  shows "\<exists>s'. interrupted d (p, False) s = Some (RSP (ts (hd (q @ [c]))), s') \<and> current_thread s' = hd (q @ [c]) \<and>
    threads s' = ts \<and> ready s' (tl (q @ [c])) \<and> on_page s' = on_page s"
proof -
  let ?s = "s\<lparr>threads := ts\<rparr>"
  obtain cb where cb: "thread_pool ?s = Some cb" "cb_rep 8 256 cb (map ptr_bytes q)"
    using assms(1) by (auto simp: ready_def)
  have len: "length q < 256" using assms(1) by (simp add: ready_def)
  obtain cb1 x1 where 1: "pool_push c ?s = Some (?s\<lparr>thread_pool := Some cb1, expected_false := x1\<rparr>)"
    "cb_rep 8 256 cb1 (map ptr_bytes (q @ [c]))"
    using pool_push_spec [OF cb len] by blast
  let ?s1 = "?s\<lparr>thread_pool := Some cb1, expected_false := x1\<rparr>"
  obtain t q' where q: "q @ [c] = t # q'" by (cases q) auto
  have "thread_pool ?s1 = Some cb1" by simp
  from resume_spec [OF assms(2) this 1(2) [unfolded q]] obtain s' where s': "resume_next d ?s1 = Some (RSP (ts t), s')"
    "current_thread s' = t" "threads s' = ts" "kpages s' = kpages s"
    "scheduler_inited s' = scheduler_inited s" "first_switch s' = first_switch s"
    "\<exists>cb'. thread_pool s' = Some cb' \<and> cb_rep 8 256 cb' (map ptr_bytes q')" by auto
  have "state (threads s c) = 0" using assms(1) by (simp add: ready_def c_def)
  then have "interrupted d (p, False) s = Some (RSP (ts t), s')"
    using assms(1) 1(1) s'(1)
    by (simp add: interrupted_def get_next_thread_def Let_def ready_def c_def ts_def)
  moreover have "state (ts t) = state (threads s t)" for t by (simp add: ts_def)
  then have "ready s' q'"
    using assms(1) s'(2-) len q by (cases q) (auto simp: ready_def c_def)
  moreover have "on_page s' = on_page s" using s'(4) by (simp add: on_page_def fun_eq_iff)
  ultimately show ?thesis using s'(2,3) unfolding q by auto
qed

lemma FREE_PAGE_on_page:
  "adr div 4096 < length (pages_used p) \<Longrightarrow>
   \<exists>p'. FREE_PAGE adr p = Some p' \<and> length (pages_used p') = length (pages_used p)"
  by (simp add: FREE_PAGE_def Let_def arr_get_def)

text \<open>An interrupt of a thread that has exited: its page is given back and it leaves the pool.\<close>

lemma switch_exited:
  assumes "ready s (t # q)" and "line_drains d" and "on_page s (current_thread s)"
  shows "\<exists>s'. interrupted d (p, True) s = Some (RSP (threads s t), s') \<and> current_thread s' = t \<and>
    (\<forall>u. u \<noteq> current_thread s \<longrightarrow> threads s' u = threads s u) \<and> ready s' q \<and> on_page s' = on_page s"
proof -
  let ?c = "current_thread s"
  let ?s = "s\<lparr>threads := (threads s)(?c := (threads s ?c)\<lparr>state := 1, RSP := p\<rparr>)\<rparr>"
  from FREE_PAGE_on_page [OF assms(3) [unfolded on_page_def]] obtain p' where
    p': "FREE_PAGE (unat ?c) (pa (kpages s)) = Some p'" "length (pages_used p') = length (pages_used (pa (kpages s)))"
    by blast
  let ?s1 = "?s\<lparr>kpages := (kpages s)\<lparr>pa := p'\<rparr>\<rparr>"
  have d: "destroy_thread ?c ?s = Some ?s1" using p'(1) by (simp add: destroy_thread_def)
  obtain cb where cb: "thread_pool ?s1 = Some cb" "cb_rep 8 256 cb (map ptr_bytes (t # q))"
    using assms(1) by (auto simp: ready_def)
  have ne: "t \<noteq> ?c" using assms(1) by (auto simp: ready_def)
  from resume_spec [OF assms(2) cb] ne obtain s' where s': "resume_next d ?s1 = Some (RSP (threads s t), s')"
    "current_thread s' = t" "threads s' = threads ?s" "kpages s' = (kpages s)\<lparr>pa := p'\<rparr>"
    "scheduler_inited s' = scheduler_inited s" "first_switch s' = first_switch s"
    "\<exists>cb'. thread_pool s' = Some cb' \<and> cb_rep 8 256 cb' (map ptr_bytes q)" by auto
  have "interrupted d (p, True) s = Some (RSP (threads s t), s')"
    using assms(1) d s'(1)
    by (simp add: interrupted_def get_next_thread_def thread_exit_def Let_def ready_def)
  moreover have "ready s' q" using assms(1) s'(2-) ne by (auto simp: ready_def)
  moreover have "on_page s' = on_page s" using s'(4) p'(2) by (simp add: on_page_def fun_eq_iff)
  ultimately show ?thesis using s'(2,3) by auto
qed

lemma switch_one:
  assumes "ready s (t # q)" and "line_drains d" and "snd e \<Longrightarrow> on_page s (current_thread s)"
  shows "\<exists>s' r. interrupted d e s = Some (RSP (threads s t), s') \<and> current_thread s' = t \<and>
    (\<forall>u. u \<noteq> current_thread s \<longrightarrow> threads s' u = threads s u) \<and> ready s' (q @ r) \<and> on_page s' = on_page s"
proof (cases "snd e")
  case True
  then have "e = (fst e, True)" by (cases e) simp
  with switch_exited [OF assms(1,2) assms(3) [OF True], of "fst e"] show ?thesis
    by (metis append_Nil2)
next
  case False
  then have e: "e = (fst e, False)" by (cases e) simp
  have "t \<noteq> current_thread s" using assms(1) by (auto simp: ready_def)
  with switch_live [OF assms(1,2), of "fst e"] e show ?thesis by fastforce
qed

text \<open>The thread in place \<open>i\<close> of the pool after \<open>i + 1\<close> interrupts.\<close>

lemma switches_reach:
  assumes "ready s q" and "line_drains d" and "i < length q" and "length es = Suc i"
    and "\<And>k. k \<le> i \<Longrightarrow> snd (es ! k) \<Longrightarrow> on_page s ((current_thread s # q) ! k)"
  shows "\<exists>rs s' q'. switches d es s = Some (rs, s') \<and> ready s' q' \<and> current_thread s' = q ! i \<and>
    rs \<noteq> [] \<and> last rs = RSP (threads s (q ! i))"
  using assms(1,3-5)
proof (induction i arbitrary: s q es)
  case 0
  then obtain t q0 e where q: "q = t # q0" "es = [e]" by (cases q) (auto simp: length_Suc_conv)
  have "snd e \<Longrightarrow> on_page s (current_thread s)" using "0.prems"(4) [of 0] q by simp
  from switch_one [where e = e, OF "0.prems"(1) [unfolded q(1)] assms(2) this] obtain s1 r where
    "interrupted d e s = Some (RSP (threads s t), s1)" "current_thread s1 = t" "ready s1 (q0 @ r)" by auto
  with q show ?case by auto
next
  case (Suc i)
  then obtain t q0 e es0 where q: "q = t # q0" "es = e # es0" "i < length q0" "length es0 = Suc i"
    by (cases q; cases es) auto
  have "snd e \<Longrightarrow> on_page s (current_thread s)" using Suc.prems(4) [of 0] q by simp
  from switch_one [where e = e, OF Suc.prems(1) [unfolded q(1)] assms(2) this] obtain s1 r where s1:
    "interrupted d e s = Some (RSP (threads s t), s1)" "current_thread s1 = t"
    "\<And>u. u \<noteq> current_thread s \<Longrightarrow> threads s1 u = threads s u" "ready s1 (q0 @ r)" "on_page s1 = on_page s" by auto
  have "on_page s1 ((current_thread s1 # q0 @ r) ! k)" if "k \<le> i" "snd (es0 ! k)" for k
    using Suc.prems(4) [of "Suc k"] that q s1(2,5) by (cases k) (simp_all add: nth_append)
  from Suc.IH [OF s1(4) _ q(4) this] q(3) obtain rs s' q' where
    "switches d es0 s1 = Some (rs, s')" "ready s' q'" "current_thread s' = (q0 @ r) ! i"
    "rs \<noteq> []" "last rs = RSP (threads s1 ((q0 @ r) ! i))" by auto
  moreover have "q0 ! i \<noteq> current_thread s"
    using Suc.prems(1) q(1) nth_mem [OF q(3)] by (auto simp: ready_def)
  ultimately show ?case using q s1(1,3) by (auto simp: nth_append)
qed

text \<open>
  C9.  Every live thread runs again, where it was stopped.  The timer's interrupt of a live thread
  saves its stack and puts it into the pool.  The thread that waits in place \<open>i\<close> of the pool is the
  current one after \<open>i + 1\<close> interrupts, and the handler goes on with the stack saved for it,
  whatever the stack pointers of the threads interrupted before it, and whichever of those have
  exited; threads of the kernel and of processes are treated alike.
\<close>

theorem every_thread_runs_again:
  assumes "ready s q" and "line_drains d"
  shows "(\<exists>r s' q'. get_next_thread d p s = Some (r, s') \<and> ready s' q' \<and> length q' = length q \<and>
      (current_thread s' # q') ! length q = current_thread s \<and> RSP (threads s' (current_thread s)) = p) \<and>
    (\<forall>i < length q. \<forall>es. length es = Suc i \<longrightarrow>
       (\<forall>k \<le> i. snd (es ! k) \<longrightarrow> on_page s ((current_thread s # q) ! k)) \<longrightarrow>
       (\<exists>rs s' q'. switches d es s = Some (rs, s') \<and> ready s' q' \<and> current_thread s' = q ! i \<and>
          rs \<noteq> [] \<and> last rs = RSP (threads s (q ! i))))"
proof (intro conjI allI impI)
  from switch_live [OF assms, of p] obtain r s' where s': "get_next_thread d p s = Some (r, s')"
    "current_thread s' = hd (q @ [current_thread s])" "RSP (threads s' (current_thread s)) = p"
    "ready s' (tl (q @ [current_thread s]))" by (auto simp: interrupted_def)
  moreover have "hd (q @ [current_thread s]) # tl (q @ [current_thread s]) = q @ [current_thread s]" by (cases q) simp_all
  ultimately show "\<exists>r s' q'. get_next_thread d p s = Some (r, s') \<and> ready s' q' \<and> length q' = length q \<and>
      (current_thread s' # q') ! length q = current_thread s \<and> RSP (threads s' (current_thread s)) = p"
    by (intro exI [of _ r] exI [of _ s'] exI [of _ "tl (q @ [current_thread s])"]) simp
qed (use switches_reach [OF assms] in blast)

definition blank_thread :: thread where
  "blank_thread = \<lparr>tid = 0, parent_pid = 0, RSP = 0, state = 0\<rparr>"

definition kernel_frame :: registers where
  "kernel_frame = \<lparr>rax = 0, rbx = 0, rcx = 0, rdx = 0, rbp = 0, rdi = 0, rsi = 0, r8 = 0, r9 = 0, r10 = 0,
     r11 = 0, r12 = 0, r13 = 0, r14 = 0, r15 = 0, rbp0 = 0, ip = 0, cs = 8, rflags = 0x202, sp = 0, ss = 0x10,
     err = 0, ret = 0\<rparr>"

definition line_ready :: device where
  "line_ready = \<lparr>dev8 = (\<lambda>tr p. 0x20), dev16 = (\<lambda>tr p. 0)\<rparr>"

text \<open>A running scheduler with the current thread at \<open>0x1000\<close>.\<close>

definition sched0 :: "circular_buffer \<Rightarrow> sched" where
  "sched0 cb = \<lparr>scheduler_inited = True, first_switch = False, current_thread = 0x1000, next_tid = 3,
     thread_pool = Some cb, expected_false = False, threads = (\<lambda>a. blank_thread), frames = (\<lambda>a. kernel_frame),
     kheap = heap0, kpages = paging0, serial_line = [], interrupts = True\<rparr>"

lemma sched0_ready:
  "cb_rep 8 256 cb (map ptr_bytes q) \<Longrightarrow> distinct (0x1000 # q) \<Longrightarrow> length q < 256 \<Longrightarrow> ready (sched0 cb) q"
  by (simp add: ready_def sched0_def blank_thread_def)

lemma pool_of:
  "length q \<le> 256 \<Longrightarrow> \<exists>cb. cb_rep 8 256 cb (map ptr_bytes q)"
proof (induction q rule: rev_induct)
  case Nil
  have "cb_rep 8 256 (cb_init 256 8 (replicate 2048 0)) []" by (rule cb_init_rep) simp_all
  then show ?case by auto
next
  case (snoc t q)
  then obtain cb where "cb_rep 8 256 cb (map ptr_bytes q)" by auto
  from pool_push_spec [OF _ this, of "sched0 cb" t] snoc.prems show ?case by (auto simp: sched0_def)
qed

text \<open>Three threads; the running one exits before it is interrupted, the next one runs on.\<close>

theorem every_thread_runs_again_witness:
  "\<exists>cb rs s'. switches line_ready [(0x1F00, True), (0x2F00, False)] (sched0 cb) = Some (rs, s') \<and>
     current_thread s' = 0x3000"
proof -
  obtain cb where "cb_rep 8 256 cb (map ptr_bytes [0x2000, 0x3000])" using pool_of [of "[0x2000, 0x3000]"] by auto
  then have r: "ready (sched0 cb) [0x2000, 0x3000]" by (rule sched0_ready) simp_all
  have l: "line_drains line_ready"
    unfolding settles_def line_ready_def by simp
  have k: "\<forall>k \<le> 1. snd ([(0x1F00 :: u64, True), (0x2F00, False)] ! k) \<longrightarrow>
      on_page (sched0 cb) ((current_thread (sched0 cb) # [0x2000, 0x3000]) ! k)"
  proof (intro allI impI)
    fix k assume "k \<le> 1" "snd ([(0x1F00 :: u64, True), (0x2F00, False)] ! k)"
    then have "k = 0" by (cases k) simp_all
    then show "on_page (sched0 cb) ((current_thread (sched0 cb) # [0x2000, 0x3000]) ! k)"
      by (simp add: on_page_def sched0_def paging0_def)
  qed
  have "(1 :: nat) < length [0x2000 :: u64, 0x3000]" "length [(0x1F00 :: u64, True), (0x2F00, False)] = Suc 1" by simp_all
  from conjunct2 [OF every_thread_runs_again [OF r l, of 0], rule_format, OF this] k obtain rs s' where
    "switches line_ready [(0x1F00, True), (0x2F00, False)] (sched0 cb) = Some (rs, s')" "current_thread s' = [0x2000, 0x3000] ! 1"
    by blast
  then show ?thesis by (intro exI [of _ cb] exI [of _ rs] exI [of _ s']) simp
qed

text \<open>
  A dead thread's page is freed and it does not re-enter the pool.  When the pool is empty the
  pop leaves \<open>current_thread\<close> alone, and the handler returns the stack of the freed page.
\<close>

lemma dead_thread_switch:
  assumes "scheduler_inited s" "\<not> first_switch s" "state (threads s (current_thread s)) \<noteq> 0"
    "thread_pool s = Some cb" "cb_rep 8 256 cb (map ptr_bytes q)" "\<forall>a. cs (frames s a) = 8"
    "FREE_PAGE (unat (current_thread s)) (pa (kpages s)) = Some p'"
  shows "\<exists>r s' cb'. get_next_thread d p s = Some (r, s') \<and> pa (kpages s') = p' \<and>
    current_thread s' = (case q of [] \<Rightarrow> current_thread s | t # _ \<Rightarrow> t) \<and>
    thread_pool s' = Some cb' \<and> cb_rep 8 256 cb' (map ptr_bytes (tl q)) \<and> (q = [] \<longrightarrow> r = p)"
proof -
  let ?c = "current_thread s"
  let ?s = "s\<lparr>threads := (threads s)(?c := (threads s ?c)\<lparr>RSP := p\<rparr>)\<rparr>"
  let ?s1 = "?s\<lparr>kpages := (kpages s)\<lparr>pa := p'\<rparr>\<rparr>"
  have 1: "destroy_thread ?c ?s = Some ?s1" using assms(7) by (simp add: destroy_thread_def)
  have "thread_pool ?s1 = Some cb" using assms(4) by simp
  from pool_pop_spec [OF this assms(5)] obtain cb' x where
    2: "pool_pop ?s1 = Some (?s1\<lparr>thread_pool := Some cb', expected_false := x,
        current_thread := (case q of [] \<Rightarrow> current_thread ?s1 | t # _ \<Rightarrow> t)\<rparr>)"
      "cb_rep 8 256 cb' (map ptr_bytes (tl q))" by blast
  show ?thesis
    using assms(1,2,3,6) 1 2 by (simp add: get_next_thread_def resume_next_def Let_def split: list.splits)
qed

text \<open>
  A new thread starts at its function in kernel mode with interrupts on, on a stack inside its
  page whose return address is \<open>thread_exit\<close>; its argument is nowhere in the frame.
\<close>

lemma new_thread_frame:
  assumes "new_thread exit_adr function arg s = Some (th, s')"
  defines "f \<equiv> frames s' (RSP (threads s' th))"
  shows "RSP (threads s' th) = th + 3912 \<and> ip f = function \<and> cs f = 8 \<and> ret f = exit_adr \<and>
    sp f = th + 4088 \<and> state (threads s' th) = 0 \<and> tid (threads s' th) = next_tid s \<and> next_tid s' = next_tid s + 1"
    and "new_thread exit_adr function arg' s = Some (th, s')"
  using assms(1) by (auto simp: f_def new_thread_def Let_def split: Option.bind_splits if_splits)

end
