(* ===== verification/KernelHeap.thy ===== *)
theory KernelHeap
  imports Threads PagingInit
begin

text \<open>
  The kernel heap over the real page tables and page allocator: the memory part of \<open>_start\<close>
  (\<open>kernel/src/kernel.c\<close>), and \<open>kmalloc\<close> with \<open>map_mem(..., REQUEST_PAGE())\<close> as its page source.  The
  heap is kept \<open>backed\<close>: each of its pages is mapped to a frame of its own, which is not free and
  holds no page table.
\<close>

section \<open>Backed regions\<close>

text \<open>The frame \<open>f\<close> is in use, and not as a table.\<close>

definition data_frame :: "paging \<Rightarrow> nat \<Rightarrow> bool" where
  "data_frame s f \<longleftrightarrow> f < total_pages (pa s) \<and> f \<notin> free_set (pa s) \<and> (\<forall>q. tpath q \<longrightarrow> tbl s q \<noteq> Some (4096 * f))"

definition backed :: "paging \<Rightarrow> nat \<Rightarrow> nat \<Rightarrow> bool" where
  "backed s a e \<longleftrightarrow> 4096 dvd a \<and> 4096 dvd e \<and> e \<le> 2 ^ 47 \<and>
     (\<forall>x. a \<le> 4096 * x \<longrightarrow> 4096 * x < e \<longrightarrow>
        (\<exists>f. data_frame s f \<and> translate s (of_nat (4096 * x)) = Some (of_nat (4096 * f)))) \<and>
     inj_on (\<lambda>x. translate s (of_nat (4096 * x))) {x. a \<le> 4096 * x \<and> 4096 * x < e}"

lemma page36_of_page: "4096 * x < 2 ^ 47 \<Longrightarrow> unat (page36 (of_nat (4096 * x))) = x"
proof -
  assume "4096 * x < 2 ^ 47"
  then have l: "4096 * x < 2 ^ 48" "4096 * x < 2 ^ 64" by simp_all
  note u = unat_of_nat_u64 [OF l(2)] l(1)
  then show ?thesis using unat_page36_small [of "of_nat (4096 * x)"] by (simp only: u)
qed

lemma backed_byte:
  assumes "backed s a e" and "a \<le> unat v" and "unat v < e"
  shows "\<exists>f. data_frame s f \<and> translate s v = Some (of_nat (4096 * f))"
proof -
  let ?x = "unat v div 4096"
  have e: "e \<le> 2 ^ 47" "4096 dvd a" using assms(1) by (simp_all add: backed_def)
  then obtain c where "a = 4096 * c" by (auto elim: dvdE)
  with assms(2) have x: "a \<le> 4096 * ?x" "4096 * ?x < e" using assms(3) by simp_all
  then have "unat (page36 (of_nat (4096 * ?x))) = ?x" using e by (intro page36_of_page) simp
  moreover have "unat (page36 v) = ?x" using assms(3) e by (intro unat_page36_small) simp
  ultimately have "unat (page36 v) = unat (page36 (of_nat (4096 * ?x)))" by (simp only:)
  then have t: "translate s v = translate s (of_nat (4096 * ?x))" by (intro translate_page page36_eqI)
  have "\<forall>x. a \<le> 4096 * x \<longrightarrow> 4096 * x < e \<longrightarrow>
        (\<exists>f. data_frame s f \<and> translate s (of_nat (4096 * x)) = Some (of_nat (4096 * f)))"
    using assms(1) unfolding backed_def by (elim conjE)
  with x show ?thesis unfolding t by blast
qed

lemma of_page_inj:
  assumes "f < 2 ^ 36" and "f' < 2 ^ 36" and "(of_nat (4096 * f) :: u64) = of_nat (4096 * f')" shows "f = f'"
proof -
  have l: "4096 * f < 2 ^ 64" "4096 * f' < 2 ^ 64" using assms(1,2) by simp_all
  have "4096 * f = 4096 * f'"
    using arg_cong [OF assms(3), of unat] unfolding unat_of_nat_u64 [OF l(1)] unat_of_nat_u64 [OF l(2)] .
  then show ?thesis by simp
qed

lemma pt_inv_request:
  assumes "pt_inv s" and "pa_inv p'" and "free_set p' \<subseteq> free_set (pa s)" and "total_pages p' = total_pages (pa s)"
  shows "pt_inv (s\<lparr>pa := p'\<rparr>)"
  using assms unfolding pt_inv_def by (auto 0 3)

lemma table_paths_pa [simp]: "table_paths (s\<lparr>pa := p'\<rparr>) = table_paths s"
  by (simp add: table_paths_def)

lemma aligned_frame: "f < 2 ^ 36 \<Longrightarrow> (of_nat (4096 * f) :: u64) AND 0x000ffffffffff000 = of_nat (4096 * f)"
proof -
  assume f: "f < 2 ^ 36"
  have "4096 * f < 2 ^ 48" using f by simp
  then have b: "bit (of_nat (4096 * f) :: u64) i \<Longrightarrow> 12 \<le> i \<and> i < 48" for i by (rule word_of_page_bits) simp_all
  show ?thesis unfolding adr_masks
  proof (rule bit_word_eqI)
    fix i assume "i < LENGTH(64)"
    then show "bit (of_nat (4096 * f) AND push_bit 12 (mask 40) :: u64) i = bit (of_nat (4096 * f) :: u64) i"
      using b [of i] by (auto simp: bit_and_iff bit_push_bit_iff bit_mask_iff)
  qed
qed

section \<open>Growing a backed region\<close>

lemma backed_empty: "4096 dvd a \<Longrightarrow> a \<le> 2 ^ 47 \<Longrightarrow> backed s a a"
  by (auto simp: backed_def inj_on_def)

lemma backed_total: "pt_inv s \<Longrightarrow> data_frame s f \<Longrightarrow> f < 2 ^ 36"
  unfolding pt_inv_def data_frame_def by linarith

text \<open>\<open>s'\<close> maps the page of \<open>e\<close> to a frame that was free in \<open>s\<close>, and is \<open>s\<close> otherwise.\<close>

definition frame_added :: "nat \<Rightarrow> paging \<Rightarrow> paging \<Rightarrow> bool" where
  "frame_added e s s' \<longleftrightarrow> (\<exists>k. data_frame s' k \<and> k < 2 ^ 36 \<and> translate s' (of_nat e) = Some (of_nat (4096 * k)) \<and>
     (\<forall>f. data_frame s f \<longrightarrow> data_frame s' f \<and> f \<noteq> k)) \<and>
     (\<forall>w. page36 w \<noteq> page36 (of_nat e) \<longrightarrow> translate s' w = translate s w)"

lemma map_fresh_page_spec:
  assumes inv: "pt_inv s" and c: "4 \<le> card (free_set (pa s))"
  shows "\<exists>s'. map_fresh_page (of_nat e) s = Some s' \<and> pt_inv s' \<and> frame_added e s s' \<and>
    card (free_set (pa s)) \<le> card (free_set (pa s')) + 4"
proof -
  have "pa_inv (pa s)" using inv by (simp add: pt_inv_def)
  moreover have "free_set (pa s) \<noteq> {}" using c by auto
  ultimately obtain k p' where k: "REQUEST_PAGE (pa s) = Some (4096 * k, p')" "k \<in> free_set (pa s)"
    "free_set p' = free_set (pa s) - {k}" "pa_inv p'" "total_pages p' = total_pages (pa s)"
    using pages.take_ok by blast
  let ?s = "s\<lparr>pa := p'\<rparr>"
  have inv1: "pt_inv ?s" using inv k by (intro pt_inv_request) auto
  have c1: "card (free_set (pa s)) = card (free_set p') + 1"
    unfolding k(3) using card_Suc_Diff1 [OF free_set_finite k(2)] by simp
  have "affords (va_tables (of_nat e)) ?s" using c c1 by (intro affords_card) (simp_all add: va_tables_card)
  from map_mem_spec [OF inv1 this, of "of_nat (4096 * k)"] obtain s' where
    s': "map_mem (of_nat e) (of_nat (4096 * k)) ?s = Some s'" "page_mapped (of_nat e) (of_nat (4096 * k)) ?s s'" by blast
  then have m: "pt_inv s'" "took ?s s'" "table_paths s' \<subseteq> va_tables (of_nat e) \<union> table_paths s"
    by (simp_all add: page_mapped_def)
  have k36: "k < 2 ^ 36" using inv k(2) by (simp add: pt_inv_def free_set_def)
  have tables: "tbl s q = Some c \<or> c div 4096 \<in> free_set p'" if "tpath q" "tbl s' q = Some c" for q c
    using tookD(5) [OF m(2) that] by simp
  have fr: "total_pages (pa s') = total_pages (pa s)" "free_set (pa s') \<subseteq> free_set p'"
    using tookD(2,3) [OF m(2)] k(5) by simp_all
  have old: "data_frame s' f \<and> f \<noteq> k" if f: "data_frame s f" for f
  proof -
    have "tbl s' q \<noteq> Some (4096 * f)" if "tpath q" for q
      using tables [OF that, of "4096 * f"] f that k(3) by (auto simp: data_frame_def)
    then show ?thesis using f fr k(2,3) unfolding data_frame_def by auto
  qed
  have "tbl s' q \<noteq> Some (4096 * k)" if q: "tpath q" for q
    using tables [OF q, of "4096 * k"] pt_invD(3) [OF inv q, of "4096 * k"] k(2,3) by auto
  then have new: "data_frame s' k" using fr k(2,3) unfolding data_frame_def free_set_def by auto
  have pm: "pages_mapped {of_nat e} (\<lambda>_. of_nat (4096 * k)) ?s s'"
    using pages_mapped_one [OF s'(2)] unfolding aligned_frame [OF k36] .
  have "translate s' (of_nat e) = Some (of_nat (4096 * k))" by (rule pages_mappedD(1) [OF pm]) simp_all
  moreover have "translate s' w = translate s w" if "page36 w \<noteq> page36 (of_nat e)" for w
    using pages_mappedD(2) [OF pm, of w] that by simp
  ultimately have "frame_added e s s'" unfolding frame_added_def using old new k36 by blast
  moreover have "card (table_paths s') \<le> card (va_tables (of_nat e) \<union> table_paths s)"
    by (rule card_mono [OF _ m(3)]) (simp add: va_tables_card)
  then have "card (table_paths s') \<le> card (table_paths s) + 3"
    using card_Un_le [of "va_tables (of_nat e)" "table_paths s"] by (simp add: va_tables_card)
  then have "card (free_set (pa s)) \<le> card (free_set (pa s')) + 4" using tookD(6) [OF m(2)] c1 by simp
  moreover have "map_fresh_page (of_nat e) s = Some s'" using k(1) s'(1) by (simp add: map_fresh_page_def)
  ultimately show ?thesis using m(1) by blast
qed

lemma backedD:
  assumes "backed s a e"
  shows "4096 dvd a" and "4096 dvd e" and "e \<le> 2 ^ 47"
    and "a \<le> 4096 * x \<Longrightarrow> 4096 * x < e \<Longrightarrow>
      \<exists>f. data_frame s f \<and> translate s (of_nat (4096 * x)) = Some (of_nat (4096 * f))"
    and "inj_on (\<lambda>x. translate s (of_nat (4096 * x))) {x. a \<le> 4096 * x \<and> 4096 * x < e}"
  using assms unfolding backed_def by (elim conjE, blast)+

lemma backed_grow:
  assumes inv: "pt_inv s" and b: "backed s a e" and ae: "a \<le> e" "e + 4096 \<le> 2 ^ 47" and add: "frame_added e s s'"
  shows "backed s' a (e + 4096)"
proof -
  let ?X = "{x. a \<le> 4096 * x \<and> 4096 * x < e}" and ?t = "\<lambda>x. translate s' (of_nat (4096 * x))"
  from add obtain k where k: "data_frame s' k" "k < 2 ^ 36" "translate s' (of_nat e) = Some (of_nat (4096 * k))"
    "\<And>f. data_frame s f \<Longrightarrow> data_frame s' f \<and> f \<noteq> k"
    "\<And>w. page36 w \<noteq> page36 (of_nat e) \<Longrightarrow> translate s' w = translate s w" unfolding frame_added_def by blast
  obtain y where y: "e = 4096 * y" using backedD(2) [OF b] by (rule dvdE)
  have ty: "?t y = Some (of_nat (4096 * k))" using k(3) unfolding y .
  have ey: "unat (page36 (of_nat e)) = y" unfolding y by (rule page36_of_page) (use ae(2) y in simp)
  have same: "?t x = translate s (of_nat (4096 * x))" if "4096 * x < e" for x
  proof (rule k(5))
    have "unat (page36 (of_nat (4096 * x))) = x" by (rule page36_of_page) (use that ae(2) in simp)
    moreover have "x \<noteq> y" using that y by simp
    ultimately show "page36 (of_nat (4096 * x)) \<noteq> page36 (of_nat e)" unfolding ey [symmetric] by force
  qed
  have old: "\<exists>f. data_frame s' f \<and> f \<noteq> k \<and> f < 2 ^ 36 \<and> ?t x = Some (of_nat (4096 * f))" if "x \<in> ?X" for x
  proof -
    have x: "a \<le> 4096 * x" "4096 * x < e" using that by simp_all
    from backedD(4) [OF b x] obtain f where "data_frame s f" "translate s (of_nat (4096 * x)) = Some (of_nat (4096 * f))"
      by blast
    with k(4) backed_total [OF inv] show ?thesis unfolding same [OF x(2)] by blast
  qed
  have set: "{x. a \<le> 4096 * x \<and> 4096 * x < e + 4096} = insert y ?X" using ae(1) y by auto
  have "?t y \<notin> ?t ` ?X"
  proof
    assume "?t y \<in> ?t ` ?X"
    then obtain x where x: "?t y = ?t x" "x \<in> ?X" by (rule imageE)
    from old [OF x(2)] obtain f where f: "f \<noteq> k" "f < 2 ^ 36" "?t x = Some (of_nat (4096 * f))" by blast
    have "(of_nat (4096 * k) :: u64) = of_nat (4096 * f)" using ty x(1) f(3) by (metis option.inject)
    from of_page_inj [OF k(2) f(2) this] f(1) show False by simp
  qed
  then have "?t y \<notin> ?t ` (?X - {y})" by (rule contrapos_nn) (rule subsetD [OF image_mono], rule Diff_subset)
  moreover have "inj_on ?t ?X = inj_on (\<lambda>x. translate s (of_nat (4096 * x))) ?X"
    by (rule inj_on_cong) (simp only: mem_Collect_eq same)
  ultimately have inj: "inj_on ?t (insert y ?X)"
    using backedD(5) [OF b] unfolding inj_on_insert by (simp only: simp_thms)
  have frames: "\<exists>f. data_frame s' f \<and> ?t x = Some (of_nat (4096 * f))" if "x \<in> insert y ?X" for x
    using that ty k(1) old [of x] by (cases "x = y") blast+
  show ?thesis
    unfolding backed_def set
  proof (intro conjI allI impI inj)
    show "4096 dvd a" "4096 dvd e + 4096" "e + 4096 \<le> 2 ^ 47" using backedD(1,2) [OF b] ae by simp_all
    show "\<exists>f. data_frame s' f \<and> ?t x = Some (of_nat (4096 * f))" if "a \<le> 4096 * x" "4096 * x < e + 4096" for x
      by (rule frames) (use that set in blast)
  qed
qed

section \<open>Runs of fresh pages\<close>

text \<open>Pages outside the region keep their translation.\<close>

definition kept_outside :: "nat \<Rightarrow> nat \<Rightarrow> paging \<Rightarrow> paging \<Rightarrow> bool" where
  "kept_outside a e s s' \<longleftrightarrow>
     (\<forall>w. unat (page36 w) < a div 4096 \<or> e div 4096 \<le> unat (page36 w) \<longrightarrow> translate s' w = translate s w)"

lemma map_fresh_page_backed:
  assumes inv: "pt_inv s" and b: "backed s a e" and ae: "a \<le> e" "e + 4096 \<le> 2 ^ 47"
    and c: "4 \<le> card (free_set (pa s))"
  shows "\<exists>s'. map_fresh_page (of_nat e) s = Some s' \<and> pt_inv s' \<and> backed s' a (e + 4096) \<and>
    card (free_set (pa s)) \<le> card (free_set (pa s')) + 4 \<and> kept_outside e (e + 4096) s s'"
proof -
  from map_fresh_page_spec [OF inv c, of e] obtain s' where s': "map_fresh_page (of_nat e) s = Some s'" "pt_inv s'"
    "frame_added e s s'" "card (free_set (pa s)) \<le> card (free_set (pa s')) + 4" by blast
  obtain y where y: "e = 4096 * y" using backedD(2) [OF b] by (rule dvdE)
  have "unat (page36 (of_nat e)) = y" unfolding y by (rule page36_of_page) (use ae(2) y in simp)
  then have "kept_outside e (e + 4096) s s'"
    using s'(3) unfolding kept_outside_def frame_added_def y by force
  with s' backed_grow [OF inv b ae s'(3)] show ?thesis by blast
qed

lemma kept_outside_trans:
  assumes "kept_outside a b s s1" and "kept_outside b c s1 s'" and "a \<le> b" and "b \<le> c"
  shows "kept_outside a c s s'"
  unfolding kept_outside_def
proof (intro allI impI)
  fix w assume "unat (page36 w) < a div 4096 \<or> c div 4096 \<le> unat (page36 w)"
  moreover have "a div 4096 \<le> b div 4096" "b div 4096 \<le> c div 4096" using assms(3,4) by (simp_all add: div_le_mono)
  ultimately have w: "unat (page36 w) < a div 4096 \<or> b div 4096 \<le> unat (page36 w)"
    "unat (page36 w) < b div 4096 \<or> c div 4096 \<le> unat (page36 w)" by linarith+
  from assms(1) w(1) have "translate s1 w = translate s w" unfolding kept_outside_def by blast
  moreover from assms(2) w(2) have "translate s' w = translate s1 w" unfolding kept_outside_def by blast
  ultimately show "translate s' w = translate s w" by simp
qed

lemma expand_pages_backed:
  assumes "pt_inv s" and "backed s a (e + 4096 * i)" and "a \<le> e" and "e + 4096 * (i + k) \<le> 2 ^ 47"
    and "i + k \<le> 2 ^ 19" and "4 * k \<le> card (free_set (pa s))"
  shows "\<exists>s'. expand_pages map_heap_page e i k s = Some s' \<and> pt_inv s' \<and> backed s' a (e + 4096 * (i + k)) \<and>
    card (free_set (pa s)) \<le> card (free_set (pa s')) + 4 * k \<and> kept_outside (e + 4096 * i) (e + 4096 * (i + k)) s s'"
  using assms
proof (induction k arbitrary: i s)
  case 0
  then show ?case by (simp add: kept_outside_def)
next
  case (Suc k)
  let ?e = "e + 4096 * i"
  have "wrap_s32 (4096 * int i) = 4096 * int i" using Suc.prems(5) by (intro wrap_s32_small) simp_all
  then have adr: "nat ((int e + wrap_s32 (4096 * int i)) mod 2 ^ 64) = ?e" using Suc.prems(4) by simp
  have "a \<le> ?e" "?e + 4096 \<le> 2 ^ 47" "4 \<le> card (free_set (pa s))" using Suc.prems(3,4,6) by simp_all
  from map_fresh_page_backed [OF Suc.prems(1,2) this] obtain s1 where s1: "map_fresh_page (of_nat ?e) s = Some s1"
    "pt_inv s1" "backed s1 a (?e + 4096)" "card (free_set (pa s)) \<le> card (free_set (pa s1)) + 4"
    "kept_outside ?e (?e + 4096) s s1" by blast
  have n: "?e + 4096 = e + 4096 * Suc i" "Suc i + k = i + Suc k" by simp_all
  have "e + 4096 * (Suc i + k) \<le> 2 ^ 47" "Suc i + k \<le> 2 ^ 19" "4 * k \<le> card (free_set (pa s1))"
    using Suc.prems(4,5,6) s1(4) by simp_all
  from Suc.IH [OF s1(2) s1(3) [unfolded n] Suc.prems(3) this] obtain s' where
    s': "expand_pages map_heap_page e (Suc i) k s1 = Some s'" "pt_inv s'" "backed s' a (e + 4096 * (i + Suc k))"
    "card (free_set (pa s1)) \<le> card (free_set (pa s')) + 4 * k"
    "kept_outside (e + 4096 * Suc i) (e + 4096 * (i + Suc k)) s1 s'" unfolding n by blast
  have "expand_pages map_heap_page e i (Suc k) s = Some s'"
    using adr s1(1) s'(1) by (simp add: map_heap_page_def)
  moreover have "kept_outside ?e (e + 4096 * (i + Suc k)) s s'"
    by (rule kept_outside_trans [OF s1(5) [unfolded n] s'(5)]) simp_all
  moreover have "card (free_set (pa s)) \<le> card (free_set (pa s')) + 4 * Suc k" using s1(4) s'(4) by simp
  ultimately show ?case using s'(2,3) by blast
qed

text \<open>\<open>request_mapped_pages\<close>, which \<open>INIT_HEAP\<close> calls, maps the same pages.\<close>

lemma request_mapped_loop_expand:
  assumes "e + 4096 * (i + k) < 2 ^ 64" and "i + k < 2 ^ 19"
  shows "request_mapped_loop (of_nat e) (4096 * (i + k)) (4096 * i) s = expand_pages map_heap_page e i k s"
  using assms
proof (induction k arbitrary: i s)
  case 0
  then show ?case by (simp add: request_mapped_loop.simps)
next
  case (Suc k)
  have w: "wrap_s32 (4096 * int i) = 4096 * int i" using Suc.prems(2) by (intro wrap_s32_small) simp_all
  then have mh: "map_fresh_page (ptr_add (of_nat e) (int (4096 * i))) s = map_heap_page (e + 4096 * i) s"
    by (simp add: ptr_add_def map_heap_page_def)
  have adr: "nat ((int e + wrap_s32 (4096 * int i)) mod 2 ^ 64) = e + 4096 * i" using w Suc.prems(1) by simp
  have n: "4096 * i + 4096 = 4096 * Suc i" "i + Suc k = Suc i + k" by simp_all
  have "request_mapped_loop (of_nat e) (4096 * (i + Suc k)) (4096 * i) s =
      do { s \<leftarrow> map_heap_page (e + 4096 * i) s;
           request_mapped_loop (of_nat e) (4096 * (i + Suc k)) (4096 * Suc i) s }"
    using Suc.prems(2) by (subst request_mapped_loop.simps) (simp only: mh n, simp)
  also have "\<dots> = expand_pages map_heap_page e i (Suc k) s"
  proof -
    have IH: "request_mapped_loop (of_nat e) (4096 * (i + Suc k)) (4096 * Suc i) s' =
        expand_pages map_heap_page e (Suc i) k s'" for s'
      unfolding n(2) by (rule Suc.IH) (use Suc.prems in simp_all)
    show ?thesis unfolding IH expand_pages.simps adr ..
  qed
  finally show ?case .
qed

section \<open>The heap in backed memory\<close>

text \<open>The memory part of \<open>_start\<close>: paging, then a heap of 16 pages.\<close>

definition start_memory ::
  "EFI_MEMORY_DESCRIPTOR list \<Rightarrow> nat \<Rightarrow> nat \<Rightarrow> u64 \<Rightarrow> nat \<Rightarrow> (nat \<Rightarrow> u64) \<Rightarrow> heap \<Rightarrow> (heap \<times> paging) option" where
  "start_memory memMap KernelStart KernelEnd fb_base fb_size m h = do {
     s \<leftarrow> INIT_PAGING memMap KernelStart KernelEnd fb_base fb_size m;
     INIT_HEAP (\<lambda>a n. request_mapped_pages (of_nat a) n) 0x80000000000 0x10 h s }"

definition heap_in_pages :: "heap \<Rightarrow> paging \<Rightarrow> (nat \<times> nat) set \<Rightarrow> bool" where
  "heap_in_pages h s L \<longleftrightarrow> heap_rep h L \<and> pt_inv s \<and> backed s (heap_start h) (heap_end h)"

lemma heap_rep_bounds: "heap_rep h L \<Longrightarrow> heap_start h \<le> heap_end h \<and> heap_end h < 2 ^ 64"
  by (auto simp: heap_rep_def heap_inv_def)

lemma heap_rep_inside:
  assumes "heap_rep h L" and "(a, n) \<in> L" shows "heap_start h \<le> a \<and> a + n \<le> heap_end h"
  using assms blocks_range by (fastforce simp: heap_rep_def heap_inv_def)

text \<open>The pages for three rounds of growth are free, and the heap stays in the lower half.\<close>

definition kernel_serves :: "nat \<Rightarrow> heap \<Rightarrow> paging \<Rightarrow> bool" where
  "kernel_serves n h s \<longleftrightarrow> 0 < n \<and> n < 2 ^ 31 \<and> heap_end h + 3 * n \<le> 2 ^ 47 \<and>
     12 * (n div 4096) \<le> card (free_set (pa s)) \<and>
     (4096 \<le> n \<or> (\<exists>c. kmalloc_scan h n (heap_start h) = Some (Some c)))"

lemma kmalloc_in_pages:
  assumes ok: "heap_in_pages h s L" and n: "kernel_serves n h s"
  shows "\<exists>a h' s'. kmalloc map_heap_page n h s = Some (a, h', s') \<and> (a, n) \<notin> L \<and>
    heap_in_pages h' s' (insert (a, n) L) \<and> hmem h' = hmem h"
proof -
  let ?q = "n div 4096" and ?a = "heap_start h"
  obtain segs where inv: "heap_inv h segs" and L: "L = set (blocks ?a segs)"
    using ok by (auto simp: heap_in_pages_def heap_rep_def)
  have s: "pt_inv s" "backed s ?a (heap_end h)" "?a \<le> heap_end h"
    using ok heap_rep_bounds by (auto simp: heap_in_pages_def)
  have n': "0 < n" "n < 2 ^ 31" "heap_end h + 3 * n \<le> 2 ^ 47" "12 * ?q \<le> card (free_set (pa s))"
    using n by (simp_all add: kernel_serves_def)
  have q: "4096 * ?q \<le> n" "?q \<le> 2 ^ 19" using n'(2) by simp_all
  have hs: "n + hdr_size < 2 ^ 64" using n'(2) by (simp add: hdr_size_def)
  have "4096 \<le> n \<or> (\<exists>s \<in> set segs. fits n s)"
    using n kmalloc_scan_heap [OF inv hs] first_fit_None [of n ?a segs] by (auto simp: kernel_serves_def)
  then obtain k where k: "(\<exists>s \<in> set segs. fits n s) \<or> n + hdr_size < fst (last segs) + k * (4096 * ?q)" "k \<le> 3"
    using rounds_enough [of n "fst (last segs)"] by (metis le0)
  have kq: "k * (4096 * ?q) \<le> 3 * n" "4 * (k * ?q) \<le> 12 * ?q"
    using mult_le_mono [OF k(2) q(1)] mult_le_mono1 [OF k(2), of "4 * ?q"] by (simp_all add: ac_simps)
  define good where "good = (\<lambda>k e p. pt_inv p \<and> backed p ?a e \<and> ?a \<le> e \<and>
    4 * (k * ?q) \<le> card (free_set (pa p)) \<and> e + k * (4096 * ?q) \<le> 2 ^ 47)"
  have g0: "good k (heap_end h) s" unfolding good_def using s n' kq by linarith
  have lim: "heap_end h + k * (4096 * ?q) < 2 ^ 64" using n'(3) kq(1) by simp
  have step: "\<exists>p'. expand_pages map_heap_page e 0 ?q p = Some p' \<and> good k (e + 4096 * ?q) p'"
    if g: "good (Suc k) e p" for k e p
  proof -
    have "pt_inv p" "backed p ?a (e + 4096 * 0)" "?a \<le> e" "e + 4096 * (0 + ?q) \<le> 2 ^ 47" "0 + ?q \<le> 2 ^ 19"
      "4 * ?q \<le> card (free_set (pa p))" using g q(2) by (simp_all add: good_def)
    from expand_pages_backed [OF this] obtain p' where
      "expand_pages map_heap_page e 0 ?q p = Some p'" "pt_inv p'" "backed p' ?a (e + 4096 * ?q)"
      "card (free_set (pa p)) \<le> card (free_set (pa p')) + 4 * ?q" by auto
    with g show ?thesis by (intro exI [of _ p']) (simp add: good_def algebra_simps)
  qed
  from kmalloc_rounds [where ok = good and k = k and mp = map_heap_page and p = s, OF inv n'(1) hs step g0 lim k(1)]
  obtain a h' p' segs' j us vs where r: "kmalloc map_heap_page n h s = Some (a, h', p')" "heap_inv h' segs'"
    "good j (heap_end h') p'" "heap_start h' = ?a" "hmem h' = hmem h"
    "blocks ?a segs = us @ vs" "blocks ?a segs' = us @ (a, n) # vs" by blast
  have "(a, n) \<notin> L" using blocks_distinct [of ?a segs'] r L by auto
  moreover have "heap_rep h' (insert (a, n) L)"
    unfolding heap_rep_def using r L by (intro exI [of _ segs']) auto
  ultimately show ?thesis using r by (auto simp: heap_in_pages_def good_def)
qed

lemma free_in_pages:
  assumes "heap_in_pages h s L" and "(a, n) \<in> L"
  shows "\<exists>h'. free a h = Some h' \<and> heap_in_pages h' s (L - {(a, n)})"
  using heap_rep_free_frame [of h L a n] assms by (auto simp: heap_in_pages_def)

interpretation pheap: block_allocator
  "\<lambda>(h, s) L. heap_in_pages h s L"
  "\<lambda>n (h, s). kmalloc map_heap_page n h s"
  "\<lambda>a (h, s). map_option (\<lambda>h'. (h', s)) (free a h)"
  "\<lambda>n (h, s). kernel_serves n h s"
proof (unfold_locales, goal_cases)
  case (1 t L n)
  then show ?case using kmalloc_in_pages [of "fst t" "snd t" L n] by (cases t) auto
next
  case (2 t L a n)
  then show ?case using free_in_pages [of "fst t" "snd t" L a n] by (cases t) auto
next
  case (3 t L x y)
  obtain h s where t: "t = (h, s)" by (cases t)
  with 3(1) have "heap_rep h L" by (simp add: heap_in_pages_def)
  then show ?case using 3(2-4) by (rule heap_rep_apart)
qed

lemma block_byte:
  assumes "heap_in_pages h s L" and "(a, n) \<in> L" and "i < n"
  shows "unat (of_nat a + of_nat i :: u64) = a + i"
    and "\<exists>f. data_frame s f \<and> translate s (of_nat a + of_nat i) = Some (of_nat (4096 * f))"
proof -
  have h: "heap_rep h L" "backed s (heap_start h) (heap_end h)" using assms(1) by (simp_all add: heap_in_pages_def)
  from heap_rep_inside [OF h(1) assms(2)] have b: "heap_start h \<le> a" "a + n \<le> heap_end h" by simp_all
  have "a + i < 2 ^ 64" using b(2) assms(3) heap_rep_bounds [OF h(1)] by linarith
  then show u: "unat (of_nat a + of_nat i :: u64) = a + i"
    using unat_of_nat_u64 [of "a + i"] by simp
  show "\<exists>f. data_frame s f \<and> translate s (of_nat a + of_nat i) = Some (of_nat (4096 * f))"
    by (rule backed_byte [OF h(2)]) (use b assms(3) in \<open>simp_all add: u\<close>)
qed

lemma start_memory_spec:
  assumes ok: "paging_memory memMap KernelStart KernelEnd fb_base fb_size"
    and room: "paging_cost memMap KernelStart KernelEnd fb_size + 64 \<le> getMemorySize memMap 0 div 4096 + 1"
  shows "\<exists>h' s. start_memory memMap KernelStart KernelEnd fb_base fb_size m h = Some (h', s) \<and>
    getMemorySize memMap 0 div 4096 + 1 \<le>
      card (free_set (pa s)) + paging_cost memMap KernelStart KernelEnd fb_size + 64 \<and>
    heap_in_pages h' s {} \<and> heap_start h' = 0x80000000000 \<and> heap_end h' = 0x80000010000 \<and>
    (\<forall>w. unat w div 4096 < getMemorySize memMap 0 div 4096 \<longrightarrow>
       translate s w = Some (w AND 0x000ffffffffff000))"
proof -
  let ?I = "INIT_PAGING memMap KernelStart KernelEnd fb_base fb_size m" and ?a = "0x80000000000 :: nat"
  from INIT_PAGING_identity [OF ok, of m] obtain s where s: "?I = Some s" and inv: "pt_inv s"
    and c: "getMemorySize memMap 0 div 4096 + 1 \<le> card (free_set (pa s)) + paging_cost memMap KernelStart KernelEnd fb_size"
    and id: "\<And>w. unat w < 2 ^ 48 \<Longrightarrow> translate s w =
      (if unat w div 4096 < getMemorySize memMap 0 div 4096 \<or>
         unat fb_base \<le> unat w \<and> unat w < unat fb_base + 4096 * ((fb_size + 4095) div 4096)
       then Some (w AND 0x000ffffffffff000) else None)" by blast
  have "64 \<le> card (free_set (pa s))" using c room by linarith
  have "pt_inv s" "backed s ?a (?a + 4096 * 0)" "?a \<le> ?a" "?a + 4096 * (0 + 16) \<le> 2 ^ 47" "0 + 16 \<le> (2 :: nat) ^ 19"
    "4 * 16 \<le> card (free_set (pa s))" using inv \<open>64 \<le> _\<close> backed_empty [of ?a s] by simp_all
  from expand_pages_backed [OF this] obtain s' where s': "expand_pages map_heap_page ?a 0 16 s = Some s'" "pt_inv s'"
    "backed s' ?a 0x80000010000" "kept_outside ?a 0x80000010000 s s'"
    "card (free_set (pa s)) \<le> card (free_set (pa s')) + 64" by auto
  have rm: "request_mapped_pages (of_nat ?a) (4096 * 16) s = Some s'"
    using request_mapped_loop_expand [of ?a 0 16 s] s'(1) by (simp add: request_mapped_pages_def)
  from INIT_HEAP_rep [of ?a 16 "\<lambda>a n. request_mapped_pages (of_nat a) n" s s' h] rm obtain h' where
    h': "INIT_HEAP (\<lambda>a n. request_mapped_pages (of_nat a) n) ?a 16 h s = Some (h', s')"
    "heap_inv h' [(4096 * 16 - hdr_size, True)]" "heap_start h' = ?a" "heap_end h' = 0x80000010000" by auto
  have "heap_rep h' {}" unfolding heap_rep_def using h'(2) by (intro exI [of _ "[(4096 * 16 - hdr_size, True)]"]) simp
  then have "heap_in_pages h' s' {}" using s'(2,3) h'(3,4) by (simp add: heap_in_pages_def)
  moreover have "translate s' w = Some (w AND 0x000ffffffffff000)"
    if w': "unat w div 4096 < getMemorySize memMap 0 div 4096" for w
  proof -
    have "getMemorySize memMap 0 div 4096 \<le> 2 ^ 19" using ok unfolding paging_memory_def Let_def by blast
    then have w: "unat w < 2 ^ 31" using w' by (simp add: div_less_iff_less_mult)
    have "unat (page36 w) = unat w div 4096" using w(1) by (intro unat_page36_small) simp
    then have "unat (page36 w) < ?a div 4096" using w(1) by simp
    then have "translate s' w = translate s w" using s'(4) by (simp add: kept_outside_def)
    with id [of w] w w' show ?thesis by simp
  qed
  moreover have "start_memory memMap KernelStart KernelEnd fb_base fb_size m h = Some (h', s')"
    using s h'(1) by (simp add: start_memory_def)
  moreover have "getMemorySize memMap 0 div 4096 + 1 \<le>
      card (free_set (pa s')) + paging_cost memMap KernelStart KernelEnd fb_size + 64" using c s'(5) by linarith
  ultimately show ?thesis using h'(3,4) by blast
qed

section \<open>Properties\<close>

text \<open>
  C6. After \<open>_start\<close> has set up memory, the heap is well formed and empty, every page of it is
  mapped to a frame of its own that is in use and holds no page table, and the memory
  still translates to itself.
\<close>

theorem start_memory_backs_heap:
  assumes ok: "paging_memory memMap KernelStart KernelEnd fb_base fb_size"
    and room: "paging_cost memMap KernelStart KernelEnd fb_size + 64 \<le> getMemorySize memMap 0 div 4096 + 1"
  shows "\<exists>h' s. start_memory memMap KernelStart KernelEnd fb_base fb_size m h = Some (h', s) \<and>
    heap_in_pages h' s {} \<and> heap_start h' = 0x80000000000 \<and> heap_end h' = 0x80000010000 \<and>
    (\<forall>w. unat w div 4096 < getMemorySize memMap 0 div 4096 \<longrightarrow>
       translate s w = Some (w AND 0x000ffffffffff000))"
  using start_memory_spec [OF assms, of m h] by blast

lemma map0_room: "paging_cost map0 0x2000000 0x2100000 0x400000 + 128 \<le> getMemorySize map0 0 div 4096 + 1"
  unfolding paging_cost_def map0_pages Let_def by (simp add: map0_def reserved_pages_def)

theorem start_memory_backs_heap_witness:
  "\<exists>h' s. start_memory map0 0x2000000 0x2100000 0xfd000000 0x400000 (\<lambda>_. 0)
       heap0 = Some (h', s) \<and>
     heap_in_pages h' s {} \<and> translate s 0x2000000 = Some 0x2000000"
proof -
  have room: "paging_cost map0 0x2000000 0x2100000 0x400000 + 64 \<le> getMemorySize map0 0 div 4096 + 1"
    using map0_room by linarith
  from start_memory_backs_heap [OF map0_ok room, of "\<lambda>_. 0", unfolded map0_pages] obtain h' s where
    s: "start_memory map0 0x2000000 0x2100000 0xfd000000 0x400000 (\<lambda>_. 0)
       heap0 = Some (h', s)"
    "heap_in_pages h' s {}"
    "\<And>w. unat w div 4096 < 262144 \<Longrightarrow> translate s w = Some (w AND 0x000ffffffffff000)" by blast
  show ?thesis using s(1,2) s(3) [of "0x2000000"] by (intro exI [of _ h'] exI [of _ s]) simp
qed

text \<open>
  C4. \<open>kmalloc\<close> in the running kernel.  When pages for its growth are free, a request that a segment
  fits or of at least a page returns a block apart from every live block, the heap stays well
  formed and backed, and each byte of the block lies in a mapped frame that holds no page table:
  writing to a block cannot damage the tables.
\<close>

theorem kmalloc_block_is_backed:
  assumes "heap_in_pages (kheap s) (kpages s) L" and "kernel_serves n (kheap s) (kpages s)"
  shows "\<exists>a s'. kmalloc_k n s = Some (a, s') \<and> heap_in_pages (kheap s') (kpages s') (insert (unat a, n) L) \<and>
    (\<forall>x \<in> L. apart x (unat a, n)) \<and>
    (\<forall>i < n. \<exists>f. data_frame (kpages s') f \<and> translate (kpages s') (a + of_nat i) = Some (of_nat (4096 * f)))"
proof -
  from pheap.alloc_apart [of "(kheap s, kpages s)" L n] assms obtain a h' p' where
    k: "kmalloc map_heap_page n (kheap s) (kpages s) = Some (a, h', p')" "heap_in_pages h' p' (insert (a, n) L)"
    "\<forall>x \<in> L. apart x (a, n)" by auto
  have "0 < n" using assms(2) by (simp add: kernel_serves_def)
  then have u: "unat (of_nat a :: u64) = a" using block_byte(1) [OF k(2), of a n 0] by simp
  show ?thesis
    using k u block_byte(2) [OF k(2), of a n]
    by (intro exI [of _ "of_nat a"] exI [of _ "s\<lparr>kheap := h', kpages := p'\<rparr>"]) (simp add: kmalloc_k_def)
qed

text \<open>Two pages requested right after start-up.\<close>

theorem kmalloc_block_is_backed_witness:
  "\<exists>s a s'. kmalloc_k 8192 s = Some (a, s') \<and> heap_in_pages (kheap s') (kpages s') {(unat a, 8192)} \<and>
     translate (kpages s') a \<noteq> None"
proof -
  have room: "paging_cost map0 0x2000000 0x2100000 0x400000 + 64 \<le> getMemorySize map0 0 div 4096 + 1"
    using map0_room by linarith
  from start_memory_spec [OF map0_ok room, of "\<lambda>_. 0" heap0] obtain h p where
    p: "heap_in_pages h p {}" "heap_end h = 0x80000010000"
    "getMemorySize map0 0 div 4096 + 1 \<le> card (free_set (pa p)) + paging_cost map0 0x2000000 0x2100000 0x400000 + 64"
    by blast
  let ?s = "(sched0 (cb_init 256 8 (replicate 2048 0)))\<lparr>kheap := h, kpages := p\<rparr>"
  have "64 \<le> card (free_set (pa p))" using p(3) map0_room by linarith
  then have ks: "kernel_serves 8192 (kheap ?s) (kpages ?s)" using p(2) by (simp add: kernel_serves_def)
  have hp: "heap_in_pages (kheap ?s) (kpages ?s) {}" using p(1) by simp
  from kmalloc_block_is_backed [OF hp ks] obtain a s' where
    r: "kmalloc_k 8192 ?s = Some (a, s')" "heap_in_pages (kheap s') (kpages s') {(unat a, 8192)}"
    "\<forall>i < 8192. \<exists>f. data_frame (kpages s') f \<and> translate (kpages s') (a + of_nat i) = Some (of_nat (4096 * f))"
    by blast
  have "translate (kpages s') a \<noteq> None" using r(3) [rule_format, of 0] by auto
  with r(1,2) show ?thesis by blast
qed

end
