(* ===== verification/Fat.thy ===== *)
theory Fat
  imports Prelude
begin

text \<open>
  The FAT12 volume of \<open>kernel/src/fat.c\<close>: geometry from the boot sector, the packed 12-bit
  table, cluster chains, and files read and written along them.  The disk is a map from
  sector numbers to 512-byte sectors, the in-memory copies of boot sector, table and root
  directory are byte lists; an access past the end of one of them, a division by zero, or
  a loop that does not end is \<^const>\<open>None\<close>.
\<close>

section \<open>The boot sector\<close>

record fat_BS =
  bytes_per_sector :: nat
  sectors_per_cluster :: nat
  reserved_sector_count :: nat
  table_count :: nat
  root_entry_count :: nat
  total_sectors_16 :: nat
  media_type :: nat
  table_size_16 :: nat
  sectors_per_track :: nat
  head_side_count :: nat
  hidden_sector_count :: nat
  total_sectors_32 :: nat

definition rd16 :: "u8 list \<Rightarrow> nat \<Rightarrow> nat" where
  "rd16 b i = unat (b ! i) + 256 * unat (b ! (i + 1))"

definition rd32 :: "u8 list \<Rightarrow> nat \<Rightarrow> nat" where
  "rd32 b i = rd16 b i + 65536 * rd16 b (i + 2)"

text \<open>The cast \<open>(fat_BS*) boot_sector\<close>: the fields at their packed offsets.\<close>

definition fat_BS_of :: "u8 list \<Rightarrow> fat_BS" where
  "fat_BS_of b = \<lparr>bytes_per_sector = rd16 b 11, sectors_per_cluster = unat (b ! 13),
     reserved_sector_count = rd16 b 14, table_count = unat (b ! 16), root_entry_count = rd16 b 17,
     total_sectors_16 = rd16 b 19, media_type = unat (b ! 21), table_size_16 = rd16 b 22,
     sectors_per_track = rd16 b 24, head_side_count = rd16 b 26, hidden_sector_count = rd32 b 28,
     total_sectors_32 = rd32 b 32\<rparr>"

definition get_total_sectors :: "fat_BS \<Rightarrow> nat" where
  "get_total_sectors part =
     (if total_sectors_16 part = 0 then total_sectors_32 part else total_sectors_16 part)"

definition get_fat_size :: "fat_BS \<Rightarrow> nat" where
  "get_fat_size part = table_size_16 part"

definition get_root_dir_sectors :: "fat_BS \<Rightarrow> nat option" where
  "get_root_dir_sectors part =
     (if bytes_per_sector part = 0 then None
      else Some ((root_entry_count part * 32 + (bytes_per_sector part - 1)) div bytes_per_sector part))"

definition get_first_data_sector :: "fat_BS \<Rightarrow> nat option" where
  "get_first_data_sector part = do {
     r \<leftarrow> get_root_dir_sectors part;
     Some (reserved_sector_count part + table_count part * get_fat_size part + r) }"

definition get_first_fat_sector :: "fat_BS \<Rightarrow> nat" where
  "get_first_fat_sector part = reserved_sector_count part"

text \<open>A 64-bit difference: it wraps on a boot sector whose tables are larger than the volume.\<close>

definition get_data_sectors :: "fat_BS \<Rightarrow> nat option" where
  "get_data_sectors part = do {
     d \<leftarrow> get_first_data_sector part;
     Some (wrap64 (get_total_sectors part + (2 ^ 64 - d))) }"

definition get_total_clusters :: "fat_BS \<Rightarrow> nat option" where
  "get_total_clusters part = do {
     d \<leftarrow> get_data_sectors part;
     if sectors_per_cluster part = 0 then None else Some (d div sectors_per_cluster part) }"

definition get_first_root_dir_sector :: "fat_BS \<Rightarrow> nat option" where
  "get_first_root_dir_sector part = do {
     d \<leftarrow> get_first_data_sector part;
     r \<leftarrow> get_root_dir_sectors part;
     Some (d - r) }"

definition get_first_sector_of_cluster :: "fat_BS \<Rightarrow> nat \<Rightarrow> nat option" where
  "get_first_sector_of_cluster part cluster = do {
     d \<leftarrow> get_first_data_sector part;
     Some (wrap64 (wrap64 (cluster + (2 ^ 64 - 2)) * sectors_per_cluster part + d)) }"

datatype fat_type = FAT12 | FAT16 | FAT32 | ExFAT

definition ident_fat :: "fat_BS \<Rightarrow> fat_type option" where
  "ident_fat part =
     (if bytes_per_sector part = 0 then Some ExFAT
      else do {
        c \<leftarrow> get_total_clusters part;
        Some (if c < 4085 then FAT12 else if c < 65525 then FAT16 else FAT32) })"

section \<open>The 12-bit table\<close>

text \<open>\<open>*(uint16_t* )&fat_table[off]\<close>, read and written.\<close>

definition rd_entry :: "u8 list \<Rightarrow> nat \<Rightarrow> u16 option" where
  "rd_entry fat off = do { lo \<leftarrow> arr_get fat off; hi \<leftarrow> arr_get fat (off + 1); Some (le16 lo hi) }"

definition wr_entry :: "u8 list \<Rightarrow> nat \<Rightarrow> u16 \<Rightarrow> u8 list option" where
  "wr_entry fat off w = do { f \<leftarrow> arr_put fat off (lo8 w); arr_put f (off + 1) (hi8 w) }"

definition get_fat_next_cluster :: "u8 list \<Rightarrow> nat \<Rightarrow> nat option" where
  "get_fat_next_cluster fat_table cluster = do {
     w \<leftarrow> rd_entry fat_table (cluster * 3 div 2);
     Some (unat (if odd cluster then drop_bit 4 w else w AND 0xFFF)) }"

definition set_fat_next_cluster :: "u8 list \<Rightarrow> nat \<Rightarrow> nat \<Rightarrow> u8 list option" where
  "set_fat_next_cluster fat_table start_cluster next_cluster = do {
     w \<leftarrow> rd_entry fat_table (start_cluster * 3 div 2);
     wr_entry fat_table (start_cluster * 3 div 2)
       (if odd start_cluster then (w AND 0x000F) OR push_bit 4 (of_nat next_cluster)
        else (w AND 0xF000) OR (0xFFF AND of_nat next_cluster)) }"

lemma rd_entry_None: "length fat \<le> off + 1 \<Longrightarrow> rd_entry fat off = None"
  by (simp add: rd_entry_def arr_get_def)

text \<open>The search of \<open>get_first_free_cluster\<close>: it leaves the table when no entry is 0.\<close>

function first_zero :: "u8 list \<Rightarrow> nat \<Rightarrow> nat option" where
  "first_zero fat_table cluster =
     (case get_fat_next_cluster fat_table cluster of
        None \<Rightarrow> None
      | Some n \<Rightarrow> if n \<noteq> 0 then first_zero fat_table (cluster + 1) else Some cluster)"
  by pat_completeness auto
termination
proof (relation "measure (\<lambda>(f, c). length f - c)", goal_cases)
  case (2 f c n)
  then have "c * 3 div 2 < length f"
    by (auto simp: get_fat_next_cluster_def rd_entry_def arr_get_def split: bind_splits if_splits)
  then show ?case by auto
qed simp

declare first_zero.simps [simp del]

definition get_first_free_cluster :: "u8 list \<Rightarrow> (nat \<times> u8 list) option" where
  "get_first_free_cluster fat_table = do {
     cluster \<leftarrow> first_zero fat_table 0;
     f \<leftarrow> set_fat_next_cluster fat_table cluster 4095;
     Some (cluster, f) }"

section \<open>The mounted volume\<close>

type_synonym disk = "nat \<Rightarrow> u8 list"

record fat_fs =
  BS :: fat_BS
  FAT_TABLE_0 :: "u8 list"
  root_directory :: "u8 list"
  disk :: disk

text \<open>
  \<open>atapio_read_sectors\<close> and \<open>atapio_write_sectors\<close> at the level of sectors.  The sector
  number is a \<open>uint32_t\<close>; the count is a \<open>char\<close>, from 128 on negative, and nothing is moved.
\<close>

definition sectors_moved :: "u8 \<Rightarrow> nat" where
  "sectors_moved n = nat (sint n)"

definition read_sectors :: "disk \<Rightarrow> nat \<Rightarrow> u8 \<Rightarrow> u8 list" where
  "read_sectors d lba n = (let l = lba mod 2 ^ 32 in concat (map d [l..<l + sectors_moved n]))"

definition write_sectors :: "disk \<Rightarrow> nat \<Rightarrow> u8 \<Rightarrow> u8 list \<Rightarrow> disk option" where
  "write_sectors d lba n buf =
     (if 512 * sectors_moved n \<le> length buf
      then let l = lba mod 2 ^ 32 in
           Some (\<lambda>s. if l \<le> s \<and> s < l + sectors_moved n
                     then take 512 (drop (512 * (s - l)) buf) else d s)
      else None)"

text \<open>The contents of a fresh \<open>kmalloc\<close> buffer are not defined; a transfer fills its start.\<close>

definition into :: "u8 list \<Rightarrow> nat \<Rightarrow> u8 list \<Rightarrow> u8 list option" where
  "into buf off bs = blk_put buf off bs"

definition INIT_FILESYSTEM :: "disk \<Rightarrow> u8 list \<Rightarrow> u8 list \<Rightarrow> (fat_type \<times> fat_fs) option" where
  "INIT_FILESYSTEM d fat_buf root_buf = do {
     let bs = fat_BS_of (read_sectors d 0 1);
     fs_type \<leftarrow> ident_fat bs;
     fat \<leftarrow> into (take (512 * table_size_16 bs) fat_buf) 0
              (read_sectors d (get_first_fat_sector bs) (of_nat (table_size_16 bs)));
     r \<leftarrow> get_root_dir_sectors bs;
     l \<leftarrow> get_first_root_dir_sector bs;
     root \<leftarrow> into (take (512 * r) root_buf) 0 (read_sectors d l (of_nat r));
     Some (fs_type, \<lparr>BS = bs, FAT_TABLE_0 = fat, root_directory = root, disk = d\<rparr>) }"

text \<open>\<open>while (next_cluster != 4095)\<close>: only the value 4095 ends a chain.\<close>

partial_function (option) chain_length :: "u8 list \<Rightarrow> nat \<Rightarrow> nat \<Rightarrow> nat option" where
  "chain_length fat next_cluster c_index =
     (if next_cluster = 4095 then Some c_index
      else do {
        n \<leftarrow> get_fat_next_cluster fat next_cluster;
        chain_length fat n (c_index + 1) })"

definition get_cluster_chain_length :: "fat_fs \<Rightarrow> nat \<Rightarrow> nat option" where
  "get_cluster_chain_length fs next_cluster =
     (if next_cluster = 0 then get_root_dir_sectors (BS fs)
      else chain_length (FAT_TABLE_0 fs) next_cluster 0)"

partial_function (option) load_chain :: "fat_fs \<Rightarrow> nat \<Rightarrow> u8 list \<Rightarrow> u8 list option" where
  "load_chain fs next_cluster file =
     (if next_cluster = 4095 then Some file
      else do {
        s \<leftarrow> get_first_sector_of_cluster (BS fs) next_cluster;
        n \<leftarrow> get_fat_next_cluster (FAT_TABLE_0 fs) next_cluster;
        load_chain fs n (file @ read_sectors (disk fs) s 1) })"

definition load_fat_cluster_chain :: "fat_fs \<Rightarrow> nat \<Rightarrow> u8 list option" where
  "load_fat_cluster_chain fs next_cluster =
     (if next_cluster = 0
      then do { r \<leftarrow> get_root_dir_sectors (BS fs); blk_get (root_directory fs) 0 (512 * r) }
      else do { n \<leftarrow> get_cluster_chain_length fs next_cluster; load_chain fs next_cluster [] })"

text \<open>
  The \<open>while (size > 512)\<close> loop of \<open>write_fat_cluster_chain\<close> and the last sector after it; \<open>k\<close>
  counts the sectors written, \<open>next\<close> is \<open>next_cluster\<close>.
\<close>

function write_loop :: "fat_fs \<Rightarrow> nat \<Rightarrow> nat \<Rightarrow> u8 list \<Rightarrow> nat \<Rightarrow> nat \<Rightarrow> fat_fs option" where
  "write_loop fs cluster nxt data sz k =
     (if 512 < sz
      then do {
        (nx, f) \<leftarrow> get_first_free_cluster (FAT_TABLE_0 fs);
        f \<leftarrow> set_fat_next_cluster f nx 4095;
        f \<leftarrow> set_fat_next_cluster f cluster nx;
        s \<leftarrow> get_first_sector_of_cluster (BS fs) cluster;
        d \<leftarrow> write_sectors (disk fs) s 1 (drop (512 * k) data);
        write_loop (fs\<lparr>FAT_TABLE_0 := f, disk := d\<rparr>) nx nx data (sz - 512) (k + 1) }
      else do {
        s \<leftarrow> get_first_sector_of_cluster (BS fs) nxt;
        d \<leftarrow> write_sectors (disk fs) s 1 (drop (512 * k) data);
        Some (fs\<lparr>disk := d\<rparr>) })"
  by pat_completeness auto
termination
  by (relation "measure (\<lambda>(fs, c, n, d, sz, k). sz)") auto

declare write_loop.simps [simp del]

definition write_fat_cluster_chain :: "fat_fs \<Rightarrow> nat \<Rightarrow> u8 list \<Rightarrow> nat \<Rightarrow> fat_fs option" where
  "write_fat_cluster_chain fs cluster data sz = do {
     fs \<leftarrow> (if cluster = 0
            then do {
              r \<leftarrow> get_root_dir_sectors (BS fs);
              b \<leftarrow> blk_get data 0 (512 * r);
              root \<leftarrow> blk_put (root_directory fs) 0 b;
              Some (fs\<lparr>root_directory := root\<rparr>) }
            else Some fs);
     if sz \<le> 512
     then do {
       f \<leftarrow> set_fat_next_cluster (FAT_TABLE_0 fs) cluster 4095;
       s \<leftarrow> get_first_sector_of_cluster (BS fs) cluster;
       d \<leftarrow> write_sectors (disk fs) s 1 data;
       Some (fs\<lparr>FAT_TABLE_0 := f, disk := d\<rparr>) }
     else write_loop fs cluster 0 data sz 0 }"

text \<open>\<open>read_cluster_chain_from_offset\<close>: skip \<open>base\<close> clusters, then read at most \<open>sectors\<close>.\<close>

fun skip_clusters :: "u8 list \<Rightarrow> nat \<Rightarrow> nat \<Rightarrow> nat option" where
  "skip_clusters fat cluster 0 = Some cluster"
| "skip_clusters fat cluster (Suc n) = do { c \<leftarrow> get_fat_next_cluster fat cluster; skip_clusters fat c n }"

fun read_some :: "fat_fs \<Rightarrow> nat \<Rightarrow> nat \<Rightarrow> u8 list \<Rightarrow> u8 list option" where
  "read_some fs cluster 0 buf = Some buf"
| "read_some fs cluster (Suc n) buf =
     (if cluster = 4095 then Some buf
      else do {
        s \<leftarrow> get_first_sector_of_cluster (BS fs) cluster;
        c \<leftarrow> get_fat_next_cluster (FAT_TABLE_0 fs) cluster;
        read_some fs c n (buf @ read_sectors (disk fs) s 1) })"

definition read_cluster_chain_from_offset :: "fat_fs \<Rightarrow> nat \<Rightarrow> nat \<Rightarrow> nat \<Rightarrow> u8 list option" where
  "read_cluster_chain_from_offset fs cluster base sectors = do {
     c \<leftarrow> skip_clusters (FAT_TABLE_0 fs) cluster base;
     read_some fs c sectors [] }"

section \<open>Entries of the packed table\<close>

lemma bit_u8_less: "bit b n \<Longrightarrow> n < 8" for b :: u8
  using bit_imp_le_length [of b n] by simp

lemma bit_le16: "bit (le16 lo hi) n \<longleftrightarrow> (if n < 8 then bit lo n else bit hi (n - 8))"
proof (cases "n < 8")
  case True
  then show ?thesis by (simp add: le16_def bit_simps)
next
  case False
  then have "\<not> bit lo n" using bit_u8_less by blast
  moreover have "bit hi (n - 8) \<Longrightarrow> n < 16" using bit_u8_less [of hi "n - 8"] by linarith
  ultimately show ?thesis using False by (auto simp: le16_def bit_simps)
qed

lemma bit_lo8: "bit (lo8 w) n \<longleftrightarrow> n < 8 \<and> bit w n"
  by (auto simp: lo8_def bit_simps)

lemma bit_hi8: "bit (hi8 w) n \<longleftrightarrow> n < 8 \<and> bit w (n + 8)"
  by (auto simp: hi8_def bit_simps add.commute)

text \<open>An entry as a word of its 12 bits.\<close>

definition entry12 :: "u8 list \<Rightarrow> nat \<Rightarrow> u16" where
  "entry12 T c = (let w = le16 (T ! (c * 3 div 2)) (T ! (c * 3 div 2 + 1)) in
     if odd c then drop_bit 4 w else w AND 0xFFF)"

definition in_table :: "u8 list \<Rightarrow> nat \<Rightarrow> bool" where
  "in_table T c \<longleftrightarrow> c * 3 div 2 + 1 < length T"

lemma get_entry12: "get_fat_next_cluster T c = (if in_table T c then Some (unat (entry12 T c)) else None)"
  by (simp add: get_fat_next_cluster_def rd_entry_def in_table_def entry12_def arr_get_def Let_def)

lemma mask_fff: "(0xFFF :: u16) = mask 12" "(0xF000 :: u16) = push_bit 12 (mask 4)" "(0x000F :: u16) = mask 4"
  by (simp_all add: mask_eq_exp_minus_1 push_bit_eq_mult)

lemma bit_entry12_odd:
  "odd c \<Longrightarrow> bit (entry12 T c) n \<longleftrightarrow>
     n < 12 \<and> (if n < 4 then bit (T ! (c * 3 div 2)) (n + 4) else bit (T ! (c * 3 div 2 + 1)) (n - 4))"
  using bit_u8_less [of "T ! (c * 3 div 2 + 1)" "n - 4"]
  by (auto simp: entry12_def Let_def bit_drop_bit_eq bit_le16 add.commute)

lemma bit_entry12_even:
  "even c \<Longrightarrow> bit (entry12 T c) n \<longleftrightarrow>
     n < 12 \<and> (if n < 8 then bit (T ! (c * 3 div 2)) n else bit (T ! (c * 3 div 2 + 1)) (n - 8))"
  by (auto simp: entry12_def Let_def mask_fff bit_and_iff bit_mask_iff bit_le16)

lemma bit_entry12_less: "bit (entry12 T c) n \<Longrightarrow> n < 12"
  by (cases "odd c") (auto simp: bit_entry12_odd bit_entry12_even)

lemma entry12_less: "unat (entry12 T c) < 4096"
proof -
  have "entry12 T c = take_bit 12 (entry12 T c)"
    by (rule bit_word_eqI) (auto simp: bit_take_bit_iff dest: bit_entry12_less)
  then have "unat (entry12 T c) = take_bit 12 (unat (entry12 T c))" by (metis unsigned_take_bit_eq)
  also have "\<dots> < 2 ^ 12" by (rule take_bit_nat_less_exp)
  finally show ?thesis by simp
qed

text \<open>What writing an entry does to the three bytes it may touch, and to every entry.\<close>

definition new12 :: "u8 list \<Rightarrow> nat \<Rightarrow> nat \<Rightarrow> u16" where
  "new12 T c x = (let w = le16 (T ! (c * 3 div 2)) (T ! (c * 3 div 2 + 1)) in
     if odd c then (w AND 0x000F) OR push_bit 4 (of_nat x) else (w AND 0xF000) OR (0xFFF AND of_nat x))"

definition put12 :: "u8 list \<Rightarrow> nat \<Rightarrow> nat \<Rightarrow> u8 list" where
  "put12 T c x = T[c * 3 div 2 := lo8 (new12 T c x), c * 3 div 2 + 1 := hi8 (new12 T c x)]"

lemma set_put12: "set_fat_next_cluster T c x = (if in_table T c then Some (put12 T c x) else None)"
  by (simp add: set_fat_next_cluster_def rd_entry_def wr_entry_def in_table_def put12_def new12_def
      arr_get_def arr_put_def Let_def)

lemma length_put12 [simp]: "length (put12 T c x) = length T"
  by (simp add: put12_def)

lemma in_table_put12 [simp]: "in_table (put12 T c x) d = in_table T d"
  by (simp add: in_table_def)

lemma bit_of_nat_u16: "bit (of_nat x :: u16) n \<longleftrightarrow> n < 16 \<and> bit x n"
  by (simp add: bit_simps)

lemma put12_same:
  assumes "in_table T c" shows "entry12 (put12 T c x) c = take_bit 12 (of_nat x)"
proof (rule bit_word_eqI)
  fix n assume "n < LENGTH(16)"
  let ?o = "c * 3 div 2"
  have b: "put12 T c x ! ?o = lo8 (new12 T c x)" "put12 T c x ! (?o + 1) = hi8 (new12 T c x)"
    using assms by (simp_all add: put12_def in_table_def)
  show "bit (entry12 (put12 T c x) c) n = bit (take_bit 12 (of_nat x :: u16)) n"
  proof (cases "odd c")
    case True
    then have "new12 T c x = (le16 (T ! ?o) (T ! (?o + 1)) AND mask 4) OR push_bit 4 (of_nat x)"
      by (simp add: new12_def mask_fff Let_def)
    then show ?thesis
      using True b by (auto simp: bit_entry12_odd bit_lo8 bit_hi8 bit_take_bit_iff bit_or_iff bit_and_iff
        bit_mask_iff bit_shift_mask_iff bit_of_nat_u16)
  next
    case False
    then have "new12 T c x = (le16 (T ! ?o) (T ! (?o + 1)) AND push_bit 12 (mask 4)) OR (mask 12 AND of_nat x)"
      by (simp add: new12_def mask_fff Let_def)
    then show ?thesis
      using False b by (auto simp: bit_entry12_even bit_lo8 bit_hi8 bit_take_bit_iff bit_or_iff bit_and_iff
        bit_mask_iff bit_shift_mask_iff bit_of_nat_u16)
  qed
qed

lemma offs_even: "(2 * k) * 3 div 2 = 3 * k" for k :: nat by simp
lemma offs_odd: "(2 * k + 1) * 3 div 2 = 3 * k + 1" for k :: nat by simp

lemma bit_entry12_odd_idx:
  "bit (entry12 T (Suc (2 * k))) n \<longleftrightarrow>
     n < 12 \<and> (if n < 4 then bit (T ! Suc (3 * k)) (n + 4) else bit (T ! Suc (Suc (3 * k))) (n - 4))"
  using bit_entry12_odd [of "2 * k + 1" T n] unfolding offs_odd by simp

lemma put12_other:
  assumes "in_table T c" and ne: "c \<noteq> d" shows "entry12 (put12 T c x) d = entry12 T d"
proof (rule bit_word_eqI)
  fix n assume "n < LENGTH(16)"
  show "bit (entry12 (put12 T c x) d) n = bit (entry12 T d) n"
  proof (cases "odd c")
    case True
    then obtain k where k: "c = 2 * k + 1" by (auto elim: oddE)
    have len: "3 * k + 2 < length T" using assms(1) by (simp add: in_table_def k offs_odd)
    let ?w = "(le16 (T ! (3 * k + 1)) (T ! (3 * k + 2)) AND mask 4) OR push_bit 4 (of_nat x)"
    have p: "put12 T c x = T[3 * k + 1 := lo8 ?w, 3 * k + 2 := hi8 ?w]"
      unfolding put12_def new12_def k offs_odd mask_fff Let_def by simp
    show ?thesis
    proof (cases "odd d")
      case True
      then obtain m where m: "d = 2 * m + 1" by (auto elim: oddE)
      then have "m \<noteq> k" using ne k by simp
      moreover have "3 * m + 1 \<noteq> 3 * k + 2" "3 * m + 2 \<noteq> 3 * k + 1" by presburger+
      ultimately show ?thesis
        unfolding p m by (simp add: bit_entry12_odd_idx)
    next
      case False
      then obtain m where m: "d = 2 * m" by (auto elim: evenE)
      show ?thesis
      proof (cases "m = k")
        case True
        then show ?thesis
          using False len unfolding p
          by (auto simp: bit_entry12_even m bit_lo8 bit_le16 bit_or_iff bit_and_iff bit_mask_iff bit_shift_mask_iff)
      next
        case False
        then have "3 * m \<noteq> 3 * k + 1" "3 * m \<noteq> 3 * k + 2" "3 * m + 1 \<noteq> 3 * k + 1" "3 * m + 1 \<noteq> 3 * k + 2"
          by presburger+
        with \<open>\<not> odd d\<close> show ?thesis unfolding p by (simp add: bit_entry12_even m)
      qed
    qed
  next
    case False
    then obtain k where k: "c = 2 * k" by (auto elim: evenE)
    have len: "3 * k + 1 < length T" using assms(1) by (simp add: in_table_def k)
    let ?w = "(le16 (T ! (3 * k)) (T ! (3 * k + 1)) AND push_bit 12 (mask 4)) OR (mask 12 AND of_nat x)"
    have p: "put12 T c x = T[3 * k := lo8 ?w, 3 * k + 1 := hi8 ?w]"
      unfolding put12_def new12_def k offs_even mask_fff Let_def by simp
    show ?thesis
    proof (cases "odd d")
      case True
      then obtain m where m: "d = 2 * m + 1" by (auto elim: oddE)
      show ?thesis
      proof (cases "m = k")
        case True
        then show ?thesis
          using len unfolding p m
          by (auto simp: bit_entry12_odd_idx bit_hi8 bit_le16 bit_or_iff bit_and_iff bit_mask_iff
              bit_shift_mask_iff add.commute [of 4])
      next
        case False
        then have "3 * m + 1 \<noteq> 3 * k" "3 * m + 1 \<noteq> 3 * k + 1" "3 * m + 2 \<noteq> 3 * k" "3 * m + 2 \<noteq> 3 * k + 1"
          by presburger+
        then show ?thesis unfolding p m by (simp add: bit_entry12_odd_idx)
      qed
    next
      case False
      then obtain m where m: "d = 2 * m" by (auto elim: evenE)
      then have "m \<noteq> k" using ne k by simp
      then have "3 * m \<noteq> 3 * k" "3 * m \<noteq> 3 * k + 1" "3 * m + 1 \<noteq> 3 * k" "3 * m + 1 \<noteq> 3 * k + 1"
        by presburger+
      with False show ?thesis unfolding p by (simp add: bit_entry12_even m)
    qed
  qed
qed

lemma take12_small: "x < 4096 \<Longrightarrow> unat (take_bit 12 (of_nat x :: u16)) = x"
  by (simp add: unsigned_take_bit_eq unsigned_of_nat take_bit_nat_eq_self)

text \<open>The two functions on a table, as updates of a map from clusters to values below 4096.\<close>

lemma get_set_same:
  assumes "set_fat_next_cluster T c x = Some T'"
  shows "get_fat_next_cluster T' c = Some (x mod 4096)"
proof -
  have t: "in_table T c" "T' = put12 T c x" using assms by (auto simp: set_put12 split: if_splits)
  have "unat (take_bit 12 (of_nat x :: u16)) = x mod 4096"
    by (simp only: unsigned_take_bit_eq unsigned_of_nat take_bit_take_bit)
      (simp add: take_bit_eq_mod mod_mod_cancel)
  with t show ?thesis by (simp add: get_entry12 put12_same)
qed

lemma get_set_other:
  "set_fat_next_cluster T c x = Some T' \<Longrightarrow> d \<noteq> c \<Longrightarrow> get_fat_next_cluster T' d = get_fat_next_cluster T d"
  by (auto simp: set_put12 get_entry12 put12_other split: if_splits)

lemma set_length: "set_fat_next_cluster T c x = Some T' \<Longrightarrow> length T' = length T"
  by (auto simp: set_put12 split: if_splits)

lemma set_Some: "get_fat_next_cluster T c = Some n \<Longrightarrow> \<exists>T'. set_fat_next_cluster T c x = Some T'"
  by (auto simp: set_put12 get_entry12 split: if_splits)

lemma first_zero_spec:
  "first_zero T c = Some z \<Longrightarrow> c \<le> z \<and> get_fat_next_cluster T z = Some 0 \<and>
     (\<forall>j. c \<le> j \<and> j < z \<longrightarrow> (\<exists>n. get_fat_next_cluster T j = Some n \<and> n \<noteq> 0))"
proof (induction T c rule: first_zero.induct)
  case (1 T c)
  show ?case
  proof (cases "get_fat_next_cluster T c")
    case None
    with 1 show ?thesis by (simp add: first_zero.simps)
  next
    case (Some n)
    show ?thesis
    proof (cases "n = 0")
      case True
      with 1 Some show ?thesis by (simp add: first_zero.simps)
    next
      case False
      with 1 Some have "Suc c \<le> z \<and> get_fat_next_cluster T z = Some 0 \<and>
        (\<forall>j. Suc c \<le> j \<and> j < z \<longrightarrow> (\<exists>n. get_fat_next_cluster T j = Some n \<and> n \<noteq> 0))"
        by (simp add: first_zero.simps)
      with Some False show ?thesis by (metis Suc_leD Suc_leI order_le_imp_less_or_eq)
    qed
  qed
qed

lemma first_zero_exists:
  assumes "get_fat_next_cluster T z = Some 0" and "c \<le> z" shows "\<exists>y \<le> z. first_zero T c = Some y"
  using assms(2)
proof (induction "z - c" arbitrary: c)
  case 0
  with assms show ?case by (simp add: first_zero.simps)
next
  case (Suc k)
  have "in_table T z" using assms(1) by (simp add: get_entry12 split: if_splits)
  then have "in_table T c" using Suc.prems by (auto simp: in_table_def intro: le_less_trans [rotated])
  then obtain n where n: "get_fat_next_cluster T c = Some n" by (simp add: get_entry12)
  show ?case
  proof (cases "n = 0")
    case True
    with n Suc.prems show ?thesis by (auto simp: first_zero.simps)
  next
    case False
    have "\<exists>y \<le> z. first_zero T (Suc c) = Some y" using Suc by (intro Suc.hyps) auto
    with n False show ?thesis by (simp add: first_zero.simps)
  qed
qed

section \<open>Chains\<close>

text \<open>\<open>links T c xs m\<close>: from cluster \<open>c\<close> the table leads through \<open>xs\<close> to \<open>m\<close>; a chain ends at 4095.\<close>

fun links :: "u8 list \<Rightarrow> nat \<Rightarrow> nat list \<Rightarrow> nat \<Rightarrow> bool" where
  "links T c [] m \<longleftrightarrow> c = m"
| "links T c (x # xs) m \<longleftrightarrow> c = x \<and> x \<noteq> 4095 \<and> (\<exists>n. get_fat_next_cluster T x = Some n \<and> links T n xs m)"

definition chain_of :: "u8 list \<Rightarrow> nat \<Rightarrow> nat list \<Rightarrow> bool" where
  "chain_of T c xs \<longleftrightarrow> links T c xs 4095"

lemma links_append: "links T c (xs @ ys) m \<longleftrightarrow> (\<exists>k. links T c xs k \<and> links T k ys m)"
  by (induction xs arbitrary: c) auto

lemma links_cong:
  "links T c xs m \<Longrightarrow> (\<And>x. x \<in> set xs \<Longrightarrow> get_fat_next_cluster T' x = get_fat_next_cluster T x) \<Longrightarrow>
   links T' c xs m"
  by (induction xs arbitrary: c) auto

lemma chain_length_links: "chain_of T c xs \<Longrightarrow> chain_length T c i = Some (i + length xs)"
  unfolding chain_of_def
proof (induction xs arbitrary: c i)
  case Nil
  then show ?case by (simp add: chain_length.simps)
next
  case (Cons x xs)
  then obtain n where n: "c = x" "x \<noteq> 4095" "get_fat_next_cluster T x = Some n" "links T n xs 4095" by auto
  from Cons.IH [OF n(4), of "Suc i"] n show ?case by (subst chain_length.simps) simp
qed

text \<open>Geometry under which clusters 2 to 4094 have sectors of their own.\<close>

definition geometry_ok :: "fat_BS \<Rightarrow> bool" where
  "geometry_ok bs \<longleftrightarrow> bytes_per_sector bs \<noteq> 0 \<and> 0 < sectors_per_cluster bs \<and> sectors_per_cluster bs < 256 \<and>
     (\<exists>d. get_first_data_sector bs = Some d \<and> d < 2 ^ 31)"

definition data_start :: "fat_BS \<Rightarrow> nat" where
  "data_start bs = the (get_first_data_sector bs)"

text \<open>The disk sector a cluster is stored in.\<close>

definition cluster_sector :: "fat_BS \<Rightarrow> nat \<Rightarrow> nat" where
  "cluster_sector bs c = (c - 2) * sectors_per_cluster bs + data_start bs"

lemma first_sector_ok:
  assumes "geometry_ok bs" "2 \<le> c" "c < 4096"
  shows "get_first_sector_of_cluster bs c = Some (cluster_sector bs c)" and "cluster_sector bs c < 2 ^ 32"
proof -
  obtain d where d: "get_first_data_sector bs = Some d" "d < 2 ^ 31" "sectors_per_cluster bs < 256"
    using assms(1) by (auto simp: geometry_ok_def)
  have "wrap64 (c + (2 ^ 64 - 2)) = c - 2"
  proof -
    have "c + (2 ^ 64 - 2) = (c - 2) + 2 ^ 64" using assms(2) by simp
    then have "wrap64 (c + (2 ^ 64 - 2)) = (c - 2) mod 2 ^ 64"
      by (simp only: wrap64_def mod_add_self2)
    also have "\<dots> = c - 2" using assms(3) by simp
    finally show ?thesis .
  qed
  moreover have "(c - 2) * sectors_per_cluster bs \<le> 4096 * 256"
    using assms(3) d(3) by (intro mult_le_mono) auto
  moreover from this have "wrap64 ((c - 2) * sectors_per_cluster bs + d) = (c - 2) * sectors_per_cluster bs + d"
    using d(2) by (intro wrap64_small) simp
  ultimately show "get_first_sector_of_cluster bs c = Some (cluster_sector bs c)"
    and "cluster_sector bs c < 2 ^ 32"
    using d by (simp_all add: get_first_sector_of_cluster_def cluster_sector_def data_start_def)
qed

lemma cluster_sector_inj:
  assumes "geometry_ok bs" "2 \<le> c" "2 \<le> d" "cluster_sector bs c = cluster_sector bs d" shows "c = d"
  using assms by (auto simp: cluster_sector_def geometry_ok_def)

lemma sectors_moved_1 [simp]: "sectors_moved 1 = 1"
  by (simp add: sectors_moved_def)

lemma read_one: "l < 2 ^ 32 \<Longrightarrow> read_sectors d l 1 = d l"
  by (simp add: read_sectors_def Let_def)

lemma write_one:
  "l < 2 ^ 32 \<Longrightarrow> 512 \<le> length buf \<Longrightarrow> write_sectors d l 1 buf = Some (d(l := take 512 buf))"
  by (auto simp: write_sectors_def Let_def fun_eq_iff)

lemma load_chain_links:
  assumes "geometry_ok (BS fs)"
  shows "links (FAT_TABLE_0 fs) c xs 4095 \<Longrightarrow> \<forall>x \<in> set xs. 2 \<le> x \<and> x < 4096 \<Longrightarrow>
    load_chain fs c buf = Some (buf @ concat (map (\<lambda>x. disk fs (cluster_sector (BS fs) x)) xs))"
proof (induction xs arbitrary: c buf)
  case Nil
  then show ?case by (simp add: load_chain.simps)
next
  case (Cons x xs)
  then obtain n where n: "c = x" "x \<noteq> 4095" "get_fat_next_cluster (FAT_TABLE_0 fs) x = Some n"
    "links (FAT_TABLE_0 fs) n xs 4095" by auto
  have x: "2 \<le> x" "x < 4096" using Cons.prems by auto
  from Cons.IH [OF n(4)] Cons.prems(2) n first_sector_ok [OF assms x]
  show ?case by (subst load_chain.simps) (simp add: read_one)
qed

lemma load_chain_of:
  assumes "geometry_ok (BS fs)" "chain_of (FAT_TABLE_0 fs) c xs" "\<forall>x \<in> set xs. 2 \<le> x \<and> x < 4096" "c \<noteq> 0"
  shows "load_fat_cluster_chain fs c = Some (concat (map (\<lambda>x. disk fs (cluster_sector (BS fs) x)) xs))"
  using load_chain_links [OF assms(1) _ assms(3), of c "[]"] chain_length_links [OF assms(2), of 0] assms(2,4)
  by (simp add: load_fat_cluster_chain_def get_cluster_chain_length_def chain_of_def)

section \<open>Writing a chain and loading it back\<close>

definition free_clusters :: "u8 list \<Rightarrow> nat set" where
  "free_clusters T = {z. get_fat_next_cluster T z = Some 0}"

lemma free_clusters_finite [simp]: "finite (free_clusters T)"
proof (rule finite_subset)
  show "free_clusters T \<subseteq> {..length T}"
    by (auto simp: free_clusters_def get_entry12 in_table_def split: if_splits)
qed simp

text \<open>A volume on which free clusters are data clusters.\<close>

definition vol_ok :: "fat_fs \<Rightarrow> bool" where
  "vol_ok fs \<longleftrightarrow> geometry_ok (BS fs) \<and> (\<forall>z \<in> free_clusters (FAT_TABLE_0 fs). 2 \<le> z \<and> z < 4095)"

text \<open>
  \<open>wrote fs fs' cs data\<close>: sector \<open>i\<close> of \<open>data\<close> is stored in cluster \<open>i\<close> of \<open>cs\<close>, and neither the
  table entry nor the sector of a cluster that was in use and is not in \<open>cs\<close> has changed.
\<close>

definition stored :: "fat_fs \<Rightarrow> nat list \<Rightarrow> u8 list \<Rightarrow> bool" where
  "stored fs cs data \<longleftrightarrow>
     (\<forall>i < length cs. disk fs (cluster_sector (BS fs) (cs ! i)) = take 512 (drop (512 * i) data))"

definition untouched :: "fat_fs \<Rightarrow> fat_fs \<Rightarrow> nat set \<Rightarrow> bool" where
  "untouched fs fs' C \<longleftrightarrow> BS fs' = BS fs \<and> root_directory fs' = root_directory fs \<and>
     (\<forall>d. 2 \<le> d \<and> d < 4096 \<and> d \<notin> C \<and> d \<notin> free_clusters (FAT_TABLE_0 fs) \<longrightarrow>
        get_fat_next_cluster (FAT_TABLE_0 fs') d = get_fat_next_cluster (FAT_TABLE_0 fs) d \<and>
        disk fs' (cluster_sector (BS fs) d) = disk fs (cluster_sector (BS fs) d))"

lemma get_first_free_spec:
  assumes "free_clusters T \<noteq> {}"
  shows "\<exists>z T'. get_first_free_cluster T = Some (z, T') \<and> z \<in> free_clusters T \<and>
    get_fat_next_cluster T' z = Some 4095 \<and> (\<forall>d. d \<noteq> z \<longrightarrow> get_fat_next_cluster T' d = get_fat_next_cluster T d)"
proof -
  obtain z0 where "get_fat_next_cluster T z0 = Some 0" using assms by (auto simp: free_clusters_def)
  from first_zero_exists [OF this, of 0] obtain z where z: "first_zero T 0 = Some z" by auto
  then have g: "get_fat_next_cluster T z = Some 0" using first_zero_spec by blast
  from set_Some [OF g, of 4095] obtain T' where T': "set_fat_next_cluster T z 4095 = Some T'" by blast
  have "get_first_free_cluster T = Some (z, T')" using z T' by (simp add: get_first_free_cluster_def)
  with g get_set_same [OF T'] get_set_other [OF T'] show ?thesis by (auto simp: free_clusters_def)
qed

text \<open>One round of the loop, on the table: the new cluster is appended to the chain.\<close>

lemma link_new_cluster:
  assumes ch: "chain_of T c0 (dn @ [cl])" and d: "distinct (dn @ [cl])" and nf: "set (dn @ [cl]) \<inter> free_clusters T = {}"
    and free: "free_clusters T \<noteq> {}" and ok: "\<forall>z \<in> free_clusters T. 2 \<le> z \<and> z < 4095"
  shows "\<exists>nx f1 f2 T'. get_first_free_cluster T = Some (nx, f1) \<and> set_fat_next_cluster f1 nx 4095 = Some f2 \<and>
    set_fat_next_cluster f2 cl nx = Some T' \<and> nx \<in> free_clusters T \<and> chain_of T' c0 (dn @ [cl, nx]) \<and>
    free_clusters T' = free_clusters T - {nx} \<and>
    (\<forall>d. d \<noteq> nx \<longrightarrow> d \<noteq> cl \<longrightarrow> get_fat_next_cluster T' d = get_fat_next_cluster T d)"
proof -
  obtain nx f1 where f1: "get_first_free_cluster T = Some (nx, f1)" "nx \<in> free_clusters T"
    "get_fat_next_cluster f1 nx = Some 4095" "\<forall>d. d \<noteq> nx \<longrightarrow> get_fat_next_cluster f1 d = get_fat_next_cluster T d"
    using get_first_free_spec [OF free] by blast
  obtain f2 where f2: "set_fat_next_cluster f1 nx 4095 = Some f2" using set_Some [OF f1(3)] by blast
  have f2g: "get_fat_next_cluster f2 nx = Some 4095" "\<forall>d. d \<noteq> nx \<longrightarrow> get_fat_next_cluster f2 d = get_fat_next_cluster T d"
    using get_set_same [OF f2] get_set_other [OF f2] f1(4) by auto
  have ne: "nx \<noteq> cl" "nx \<notin> set dn" using nf f1(2) by auto
  obtain k where k: "links T c0 dn cl" "cl \<noteq> 4095" "get_fat_next_cluster T cl = Some 4095"
    using ch by (auto simp: chain_of_def links_append)
  then have "get_fat_next_cluster f2 cl = Some 4095" using f2g(2) ne(1) by simp
  then obtain T' where T': "set_fat_next_cluster f2 cl nx = Some T'" using set_Some by blast
  have nx: "2 \<le> nx" "nx < 4095" using ok f1(2) by auto
  have g: "get_fat_next_cluster T' cl = Some nx" "get_fat_next_cluster T' nx = Some 4095"
    "\<forall>d. d \<noteq> nx \<longrightarrow> d \<noteq> cl \<longrightarrow> get_fat_next_cluster T' d = get_fat_next_cluster T d"
    using get_set_same [OF T'] get_set_other [OF T'] f2g ne(1) nx by auto
  have "links T' c0 dn cl"
    by (rule links_cong [OF k(1)]) (use g(3) ne(2) d in auto)
  then have "chain_of T' c0 (dn @ [cl, nx])"
    using g k(2) nx by (auto simp: chain_of_def links_append)
  moreover have "free_clusters T' = free_clusters T - {nx}"
  proof (rule set_eqI)
    fix d
    show "d \<in> free_clusters T' \<longleftrightarrow> d \<in> free_clusters T - {nx}"
      using g k(3) nx by (cases "d = nx"; cases "d = cl") (auto simp: free_clusters_def)
  qed
  ultimately show ?thesis using f1(1,2) f2 T' g(3) by blast
qed

lemma stored_snoc:
  assumes st: "stored fs dn data" and g: "geometry_ok (BS fs)" and cl: "2 \<le> cl" "cl < 4095" "cl \<notin> set dn"
    and dn: "\<forall>x \<in> set dn. 2 \<le> x \<and> x < 4095"
  shows "stored (fs\<lparr>FAT_TABLE_0 := T, disk := (disk fs)(cluster_sector (BS fs) cl := take 512 (drop (512 * length dn) data))\<rparr>)
    (dn @ [cl]) data"
  unfolding stored_def
proof (intro allI impI)
  fix i assume i: "i < length (dn @ [cl])"
  show "disk (fs\<lparr>FAT_TABLE_0 := T, disk := (disk fs)(cluster_sector (BS fs) cl := take 512 (drop (512 * length dn) data))\<rparr>)
      (cluster_sector (BS (fs\<lparr>FAT_TABLE_0 := T, disk := (disk fs)(cluster_sector (BS fs) cl :=
        take 512 (drop (512 * length dn) data))\<rparr>)) ((dn @ [cl]) ! i)) = take 512 (drop (512 * i) data)"
  proof (cases "i = length dn")
    case False
    with i have "i < length dn" by simp
    moreover from this have "dn ! i \<in> set dn" by simp
    with dn cl have "cluster_sector (BS fs) (dn ! i) \<noteq> cluster_sector (BS fs) cl"
      using cluster_sector_inj [OF g] by metis
    ultimately show ?thesis using st by (simp add: stored_def nth_append)
  qed simp
qed

lemma untouched_step:
  assumes g: "geometry_ok (BS fs)" and cl: "2 \<le> cl" "cl \<in> C" and nx: "nx \<in> free_clusters (FAT_TABLE_0 fs) \<or> nx \<in> C"
    and T: "\<forall>d. d \<noteq> nx \<longrightarrow> d \<noteq> cl \<longrightarrow> get_fat_next_cluster T d = get_fat_next_cluster (FAT_TABLE_0 fs) d"
  shows "untouched fs (fs\<lparr>FAT_TABLE_0 := T, disk := (disk fs)(cluster_sector (BS fs) cl := b)\<rparr>) C"
  unfolding untouched_def
proof (intro conjI allI impI)
  fix d assume d: "2 \<le> d \<and> d < 4096 \<and> d \<notin> C \<and> d \<notin> free_clusters (FAT_TABLE_0 fs)"
  then have "d \<noteq> nx" "d \<noteq> cl" using nx cl by auto
  moreover have "cluster_sector (BS fs) d \<noteq> cluster_sector (BS fs) cl"
    using cluster_sector_inj [OF g, of d cl] d cl(1) \<open>d \<noteq> cl\<close> by blast
  ultimately show
    "get_fat_next_cluster (FAT_TABLE_0 (fs\<lparr>FAT_TABLE_0 := T, disk := (disk fs)(cluster_sector (BS fs) cl := b)\<rparr>)) d =
       get_fat_next_cluster (FAT_TABLE_0 fs) d"
    "disk (fs\<lparr>FAT_TABLE_0 := T, disk := (disk fs)(cluster_sector (BS fs) cl := b)\<rparr>) (cluster_sector (BS fs) d) =
       disk fs (cluster_sector (BS fs) d)"
    using T by simp_all
qed simp_all

lemma untouched_trans:
  assumes "untouched fs fs1 C" and "untouched fs1 fs2 (insert nx C)" and "nx \<in> free_clusters (FAT_TABLE_0 fs)"
    and "free_clusters (FAT_TABLE_0 fs1) \<subseteq> free_clusters (FAT_TABLE_0 fs)"
  shows "untouched fs fs2 C"
  using assms unfolding untouched_def by (auto simp: subset_iff)

lemma write_loop_spec:
  assumes "vol_ok fs" and "chain_of (FAT_TABLE_0 fs) c0 (dn @ [cl])" and "distinct (dn @ [cl])"
    and "set (dn @ [cl]) \<inter> free_clusters (FAT_TABLE_0 fs) = {}" and "\<forall>x \<in> set (dn @ [cl]). 2 \<le> x \<and> x < 4095"
    and "stored fs dn data" and "512 < sz \<or> nxt = cl" and "0 < sz"
    and "512 * (length dn + (sz + 511) div 512) \<le> length data"
    and "(sz + 511) div 512 \<le> card (free_clusters (FAT_TABLE_0 fs)) + 1"
  shows "\<exists>fs' cs. write_loop fs cl nxt data sz (length dn) = Some fs' \<and> chain_of (FAT_TABLE_0 fs') c0 cs \<and>
    length cs = length dn + (sz + 511) div 512 \<and> (\<forall>x \<in> set cs. 2 \<le> x \<and> x < 4095) \<and>
    stored fs' cs data \<and> untouched fs fs' (set (dn @ [cl]))"
  using assms
proof (induction sz arbitrary: fs dn cl nxt rule: less_induct)
  case (less sz)
  let ?T = "FAT_TABLE_0 fs"
  have g: "geometry_ok (BS fs)" and fr: "\<forall>z \<in> free_clusters ?T. 2 \<le> z \<and> z < 4095"
    using less.prems(1) by (auto simp: vol_ok_def)
  have cl: "2 \<le> cl" "cl < 4095" "cl \<notin> set dn" "\<forall>x \<in> set dn. 2 \<le> x \<and> x < 4095"
    using less.prems(3,5) by auto
  have "1 \<le> (sz + 511) div 512" using less.prems(8) by auto
  then have len: "512 \<le> length (drop (512 * length dn) data)" using less.prems(9) by simp
  have fsec: "get_first_sector_of_cluster (BS fs) cl = Some (cluster_sector (BS fs) cl)"
    "cluster_sector (BS fs) cl < 2 ^ 32" using first_sector_ok [OF g, of cl] cl by auto
  let ?b = "take 512 (drop (512 * length dn) data)"
  let ?d = "(disk fs)(cluster_sector (BS fs) cl := ?b)"
  have wr: "write_sectors (disk fs) (cluster_sector (BS fs) cl) 1 (drop (512 * length dn) data) = Some ?d"
    by (rule write_one [OF fsec(2) len])
  show ?case
  proof (cases "512 < sz")
    case False
    then have m: "(sz + 511) div 512 = 1" using less.prems(8) by auto
    have "write_loop fs cl nxt data sz (length dn) = Some (fs\<lparr>disk := ?d\<rparr>)"
      using False less.prems(7) fsec wr by (subst write_loop.simps) simp
    moreover have "stored (fs\<lparr>disk := ?d\<rparr>) (dn @ [cl]) data"
      using stored_snoc [OF less.prems(6) g cl, of ?T] by simp
    moreover have "untouched fs (fs\<lparr>disk := ?d\<rparr>) (set (dn @ [cl]))"
      using untouched_step [OF g cl(1), of "set (dn @ [cl])" cl ?T ?b] by simp
    ultimately show ?thesis
      using less.prems(2,5) m by (intro exI [of _ "fs\<lparr>disk := ?d\<rparr>"] exI [of _ "dn @ [cl]"]) auto
  next
    case True
    have div: "(sz + 511) div 512 = Suc ((sz - 512 + 511) div 512)"
    proof -
      have "sz + 511 = (sz - 512 + 511) + 512" using True by simp
      then show ?thesis by (simp only: div_add_self2 [of 512, simplified])
    qed
    have "1 \<le> (sz - 512 + 511) div 512" using True by auto
    then have "free_clusters ?T \<noteq> {}" using less.prems(10) div by auto
    from link_new_cluster [OF less.prems(2,3,4) this fr] obtain nx f1 f2 T' where T':
      "get_first_free_cluster ?T = Some (nx, f1)" "set_fat_next_cluster f1 nx 4095 = Some f2"
      "set_fat_next_cluster f2 cl nx = Some T'" "nx \<in> free_clusters ?T" "chain_of T' c0 (dn @ [cl, nx])"
      "free_clusters T' = free_clusters ?T - {nx}"
      "\<forall>d. d \<noteq> nx \<longrightarrow> d \<noteq> cl \<longrightarrow> get_fat_next_cluster T' d = get_fat_next_cluster ?T d" by blast
    let ?fs = "fs\<lparr>FAT_TABLE_0 := T', disk := ?d\<rparr>"
    have unf: "write_loop fs cl nxt data sz (length dn) = write_loop ?fs nx nx data (sz - 512) (length (dn @ [cl]))"
      using True T'(1-3) fsec wr by (subst write_loop.simps) simp
    have 1: "vol_ok ?fs" using less.prems(1) T'(6) by (simp add: vol_ok_def)
    have 2: "chain_of (FAT_TABLE_0 ?fs) c0 ((dn @ [cl]) @ [nx])" using T'(5) by simp
    have 3: "distinct ((dn @ [cl]) @ [nx])" using less.prems(3,4) T'(4) by auto
    have 4: "set ((dn @ [cl]) @ [nx]) \<inter> free_clusters (FAT_TABLE_0 ?fs) = {}" using less.prems(4) T'(6) by auto
    have 5: "\<forall>x \<in> set ((dn @ [cl]) @ [nx]). 2 \<le> x \<and> x < 4095" using less.prems(5) T'(4) fr by auto
    have 6: "stored ?fs (dn @ [cl]) data" by (rule stored_snoc [OF less.prems(6) g cl])
    have 9: "512 * (length (dn @ [cl]) + (sz - 512 + 511) div 512) \<le> length data" using less.prems(9) div by simp
    have 10: "(sz - 512 + 511) div 512 \<le> card (free_clusters (FAT_TABLE_0 ?fs)) + 1"
      using less.prems(10) div T'(4,6) by (simp add: card_Diff_singleton)
    have lt: "sz - 512 < sz" "0 < sz - 512" using True by simp_all
    from less.IH [OF lt(1) 1 2 3 4 5 6 _ lt(2) 9 10, of nx] obtain fs' cs where IH:
      "write_loop ?fs nx nx data (sz - 512) (length (dn @ [cl])) = Some fs'"
      "chain_of (FAT_TABLE_0 fs') c0 cs" "length cs = length (dn @ [cl]) + (sz - 512 + 511) div 512"
      "\<forall>x \<in> set cs. 2 \<le> x \<and> x < 4095" "stored fs' cs data" "untouched ?fs fs' (set ((dn @ [cl]) @ [nx]))"
      by blast
    have u1: "untouched fs ?fs (set (dn @ [cl]))"
      using T'(4,7) by (intro untouched_step [OF g cl(1)]) auto
    have "set ((dn @ [cl]) @ [nx]) = insert nx (set (dn @ [cl]))" by auto
    with IH(6) have u2: "untouched ?fs fs' (insert nx (set (dn @ [cl])))" by (simp only:)
    have "free_clusters (FAT_TABLE_0 ?fs) \<subseteq> free_clusters ?T" using T'(6) by auto
    then have "untouched fs fs' (set (dn @ [cl]))" by (rule untouched_trans [OF u1 u2 T'(4)])
    moreover have "length cs = length dn + (sz + 511) div 512" using IH(3) div by simp
    moreover have "write_loop fs cl nxt data sz (length dn) = Some fs'" using unf IH(1) by (rule trans)
    ultimately show ?thesis using IH(2,4,5) by blast
  qed
qed

lemma concat_sectors:
  "512 * n \<le> length data \<Longrightarrow> concat (map (\<lambda>i. take 512 (drop (512 * i) data)) [0..<n]) = take (512 * n) data"
proof (induction n)
  case (Suc n)
  have "take (512 * Suc n) data = take (512 * n) data @ take 512 (drop (512 * n) data)"
    by (metis add.commute mult_Suc_right take_add)
  with Suc show ?case by simp
qed simp

lemma write_chain_spec:
  assumes v: "vol_ok fs" and c: "get_fat_next_cluster (FAT_TABLE_0 fs) c = Some 4095" "2 \<le> c" "c < 4095"
    and sz: "0 < sz" "512 * ((sz + 511) div 512) \<le> length data"
    and free: "(sz + 511) div 512 \<le> card (free_clusters (FAT_TABLE_0 fs)) + 1"
  shows "\<exists>fs' cs. write_fat_cluster_chain fs c data sz = Some fs' \<and> chain_of (FAT_TABLE_0 fs') c cs \<and>
    length cs = (sz + 511) div 512 \<and> (\<forall>x \<in> set cs. 2 \<le> x \<and> x < 4095) \<and>
    stored fs' cs data \<and> untouched fs fs' {c}"
proof -
  let ?T = "FAT_TABLE_0 fs"
  have g: "geometry_ok (BS fs)" using v by (simp add: vol_ok_def)
  have ch: "chain_of ?T c ([] @ [c])" using c by (simp add: chain_of_def)
  have nf: "set ([] @ [c]) \<inter> free_clusters ?T = {}" using c(1) by (simp add: free_clusters_def)
  have rng: "\<forall>x \<in> set ([] @ [c]). 2 \<le> x \<and> x < 4095" using c by simp
  show ?thesis
  proof (cases "sz \<le> 512")
    case False
    then have "512 < sz \<or> (0 :: nat) = c" by simp
    from write_loop_spec [OF v ch _ nf rng _ this sz(1) _ free, of data] sz(2)
    have "\<exists>fs' cs. write_loop fs c 0 data sz 0 = Some fs' \<and> chain_of (FAT_TABLE_0 fs') c cs \<and>
      length cs = (sz + 511) div 512 \<and> (\<forall>x \<in> set cs. 2 \<le> x \<and> x < 4095) \<and>
      stored fs' cs data \<and> untouched fs fs' {c}" by (simp add: stored_def)
    with False c(2) show ?thesis by (simp add: write_fat_cluster_chain_def)
  next
    case True
    then have m: "(sz + 511) div 512 = 1" using sz(1) by auto
    obtain T' where T': "set_fat_next_cluster ?T c 4095 = Some T'" using set_Some [OF c(1)] by blast
    have gT: "get_fat_next_cluster T' c = Some 4095" "\<forall>d. d \<noteq> c \<longrightarrow> get_fat_next_cluster T' d = get_fat_next_cluster ?T d"
      using get_set_same [OF T'] get_set_other [OF T'] by auto
    have fsec: "get_first_sector_of_cluster (BS fs) c = Some (cluster_sector (BS fs) c)"
      "cluster_sector (BS fs) c < 2 ^ 32" using first_sector_ok [OF g, of c] c by auto
    let ?d = "(disk fs)(cluster_sector (BS fs) c := take 512 data)"
    let ?fs = "fs\<lparr>FAT_TABLE_0 := T', disk := ?d\<rparr>"
    have "write_sectors (disk fs) (cluster_sector (BS fs) c) 1 data = Some ?d"
      using sz(2) m by (intro write_one [OF fsec(2)]) simp
    then have w: "write_fat_cluster_chain fs c data sz = Some ?fs"
      using True c(2) T' fsec by (simp add: write_fat_cluster_chain_def)
    have u: "untouched fs ?fs {c}"
      using gT(2) c by (intro untouched_step [OF g c(2), of "{c}" c T']) auto
    have "stored ?fs [c] data" by (simp add: stored_def)
    moreover have "chain_of (FAT_TABLE_0 ?fs) c [c]" using gT c by (simp add: chain_of_def)
    ultimately show ?thesis using w u m c by (intro exI [of _ ?fs] exI [of _ "[c]"]) simp
  qed
qed

lemma chain_cycle_None:
  assumes "chain_length T c i = Some y" shows "\<not> (\<exists>xs. xs \<noteq> [] \<and> links T c xs c)"
proof -
  have "\<forall>zs xs. links T c zs d \<longrightarrow> xs \<noteq> [] \<longrightarrow> links T d xs d \<longrightarrow> False" for d
    using assms
  proof (rule chain_length.raw_induct [rotated])
    fix cl T c i y
    assume IH: "\<And>T c i y. cl T c i = Some y \<Longrightarrow> \<forall>zs xs. links T c zs d \<longrightarrow> xs \<noteq> [] \<longrightarrow> links T d xs d \<longrightarrow> False"
      and b: "(if c = 4095 then Some i else do { n \<leftarrow> get_fat_next_cluster T c; cl T n (i + 1) }) = Some y"
    show "\<forall>zs xs. links T c zs d \<longrightarrow> xs \<noteq> [] \<longrightarrow> links T d xs d \<longrightarrow> False"
    proof (intro allI impI)
      fix zs xs assume z: "links T c zs d" and x: "xs \<noteq> []" "links T d xs d"
      have "links T c (zs @ xs) d" using z x by (auto simp: links_append)
      moreover obtain w ws where w: "zs @ xs = w # ws" using x(1) by (cases "zs @ xs") auto
      ultimately obtain n where n: "c \<noteq> 4095" "get_fat_next_cluster T c = Some n" "links T n ws d" by auto
      with b have "cl T n (i + 1) = Some y" by simp
      from IH [OF this] n(3) x show False by blast
    qed
  qed
  then show ?thesis by (metis links.simps(1))
qed

section \<open>Properties\<close>

text \<open>
  C24. The packed table behaves as an array of 12-bit entries: after \<open>set_fat_next_cluster\<close> of
  cluster \<open>c\<close>, reading \<open>c\<close> gives the value modulo 4096 and reading any other cluster gives what
  it gave before, although neighbours share a byte.
\<close>

theorem fat12_set_get:
  assumes "set_fat_next_cluster T c x = Some T'"
  shows "get_fat_next_cluster T' d = (if d = c then Some (x mod 4096) else get_fat_next_cluster T d)"
  using get_set_same [OF assms] get_set_other [OF assms] by simp

theorem fat12_set_get_witness:
  "\<exists>T'. set_fat_next_cluster [0xF8, 0xFF, 0xFF, 0, 0, 0] 3 0xABC = Some T' \<and>
     get_fat_next_cluster T' 3 = Some 0xABC \<and> get_fat_next_cluster T' 2 = Some 0"
proof -
  obtain T' where T': "set_fat_next_cluster [0xF8, 0xFF, 0xFF, 0, 0, 0] 3 0xABC = Some T'"
    by (simp add: set_put12 in_table_def)
  have "get_fat_next_cluster [0xF8, 0xFF, 0xFF, 0, 0, 0] 2 = Some 0"
    by (simp add: get_fat_next_cluster_def rd_entry_def le16_def)
  with T' fat12_set_get [OF T', of 3] fat12_set_get [OF T', of 2] show ?thesis by simp
qed

text \<open>
  C10. A file written with \<open>write_fat_cluster_chain\<close> from a reserved cluster is read back sector by
  sector by \<open>load_fat_cluster_chain\<close>, given enough free clusters, and neither the table entry
  nor the data of any cluster in use outside the file changes.
\<close>

theorem fat_write_then_load:
  assumes "vol_ok fs" and "get_fat_next_cluster (FAT_TABLE_0 fs) c = Some 4095" and "2 \<le> c" and "c < 4095"
    and "0 < sz" and "512 * ((sz + 511) div 512) \<le> length data"
    and "(sz + 511) div 512 \<le> card (free_clusters (FAT_TABLE_0 fs)) + 1"
  shows "\<exists>fs'. write_fat_cluster_chain fs c data sz = Some fs' \<and>
    load_fat_cluster_chain fs' c = Some (take (512 * ((sz + 511) div 512)) data) \<and> untouched fs fs' {c}"
proof -
  obtain fs' cs where w: "write_fat_cluster_chain fs c data sz = Some fs'" "chain_of (FAT_TABLE_0 fs') c cs"
    "length cs = (sz + 511) div 512" "\<forall>x \<in> set cs. 2 \<le> x \<and> x < 4095" "stored fs' cs data" "untouched fs fs' {c}"
    using write_chain_spec [OF assms] by blast
  have g: "geometry_ok (BS fs')" using assms(1) w(6) by (simp add: vol_ok_def untouched_def)
  have "\<forall>x \<in> set cs. 2 \<le> x \<and> x < 4096" using w(4) by auto
  from load_chain_of [OF g w(2) this] assms(3)
  have l: "load_fat_cluster_chain fs' c = Some (concat (map (\<lambda>x. disk fs' (cluster_sector (BS fs') x)) cs))" by simp
  have "map (\<lambda>x. disk fs' (cluster_sector (BS fs') x)) cs = map (\<lambda>i. take 512 (drop (512 * i) data)) [0..<length cs]"
    by (rule nth_equalityI) (use w(5) in \<open>auto simp: stored_def\<close>)
  with l concat_sectors [of "length cs" data] assms(6) w(3)
  have "load_fat_cluster_chain fs' c = Some (take (512 * ((sz + 511) div 512)) data)" by simp
  with w show ?thesis by blast
qed

text \<open>A small volume: 6 clusters, of which 2 is reserved and 3 to 5 are free.\<close>

definition vol0 :: fat_fs where
  "vol0 = \<lparr>BS = \<lparr>bytes_per_sector = 512, sectors_per_cluster = 1, reserved_sector_count = 1, table_count = 1,
       root_entry_count = 16, total_sectors_16 = 10, media_type = 0xF8, table_size_16 = 1, sectors_per_track = 1,
       head_side_count = 1, hidden_sector_count = 0, total_sectors_32 = 0\<rparr>,
     FAT_TABLE_0 = [0xF8, 0xFF, 0xFF, 0xFF, 0x0F, 0, 0, 0, 0], root_directory = [], disk = \<lambda>s. replicate 512 0\<rparr>"

lemma vol0_free: "free_clusters (FAT_TABLE_0 vol0) = {3, 4, 5}"
proof (rule set_eqI)
  fix z
  show "z \<in> free_clusters (FAT_TABLE_0 vol0) \<longleftrightarrow> z \<in> {3, 4, 5}"
  proof (cases "z < 6")
    case True
    then have "z \<in> {0, 1, 2, 3, 4, 5}" by auto
    then show ?thesis
      by (auto simp: free_clusters_def vol0_def get_fat_next_cluster_def rd_entry_def le16_def)
  next
    case False
    then have "\<not> in_table (FAT_TABLE_0 vol0) z" by (auto simp: in_table_def vol0_def)
    with False show ?thesis by (auto simp: free_clusters_def get_entry12)
  qed
qed

theorem fat_write_then_load_witness:
  "\<exists>fs'. write_fat_cluster_chain vol0 2 (replicate 1024 7) 700 = Some fs' \<and>
     load_fat_cluster_chain fs' 2 = Some (replicate 1024 7)"
proof -
  have v: "vol_ok vol0"
    unfolding vol_ok_def vol0_free
    by (simp add: geometry_ok_def vol0_def get_first_data_sector_def get_root_dir_sectors_def get_fat_size_def)
  have r: "get_fat_next_cluster (FAT_TABLE_0 vol0) 2 = Some 4095"
    by (simp add: vol0_def get_fat_next_cluster_def rd_entry_def le16_def)
  have f: "(700 + 511) div 512 \<le> card (free_clusters (FAT_TABLE_0 vol0)) + 1" unfolding vol0_free by simp
  have "take (512 * ((700 + 511) div 512)) (replicate 1024 (7 :: u8)) = replicate 1024 7" by simp
  with fat_write_then_load [OF v r _ _ _ _ f, of "replicate 1024 7"] show ?thesis by auto
qed

text \<open>
  C26. On a table whose chain runs into a cycle \<open>get_cluster_chain_length\<close> does not return: only the
  value 4095 ends its loop.
\<close>

theorem fat_chain_cycle_diverges:
  assumes "links (FAT_TABLE_0 fs) c xs c" and "xs \<noteq> []" and "c \<noteq> 0"
  shows "get_cluster_chain_length fs c = None"
proof (rule ccontr)
  assume "\<not> ?thesis"
  then obtain y where "chain_length (FAT_TABLE_0 fs) c 0 = Some y"
    using assms(3) by (auto simp: get_cluster_chain_length_def)
  from chain_cycle_None [OF this] assms show False by blast
qed

theorem fat_chain_cycle_diverges_witness:
  "get_cluster_chain_length (vol0\<lparr>FAT_TABLE_0 := [0xF8, 0xFF, 0xFF, 3, 0x20, 0, 0, 0, 0]\<rparr>) 2 = None"
proof -
  let ?fs = "vol0\<lparr>FAT_TABLE_0 := [0xF8, 0xFF, 0xFF, 3, 0x20, 0, 0, 0, 0]\<rparr>"
  have "links (FAT_TABLE_0 ?fs) 2 [2, 3] 2"
    by (simp add: get_fat_next_cluster_def rd_entry_def le16_def)
  from fat_chain_cycle_diverges [OF this] show ?thesis by simp
qed

end
