(* ===== verification/FatDir.thy ===== *)
theory FatDir
  imports Fat CString
begin

text \<open>
  Directories of the FAT12 volume (\<open>kernel/src/fat.c\<close>): the 32-byte entries, short and long
  names, lookup and creation of entries, and files reached by a path.  A directory is the
  byte list of its sectors; a pointer to an entry is an offset into it, NULL the inner
  \<^const>\<open>None\<close>.  \<open>listing\<close> is the specification of a directory's contents; the main lemma says
  that lookup on its encoding returns the first entry with the wanted name, and the last
  entry when there is none.
\<close>

section \<open>Entries\<close>

record FAT_DIRECTORY_ENTRY =
  de_name :: "u8 list"
  attributes :: u8
  reserved_nt :: u8
  creation_durration :: u8
  creation_time :: nat
  creation_date :: nat
  last_accessed_date :: nat
  first_cluster_high_16 :: nat
  last_modified_time :: nat
  last_modified_date :: nat
  first_cluster_low_16 :: nat
  de_size :: nat

record FAT_LONG_NAME_ENTRY =
  order :: u8
  first_5 :: "nat list"
  lfn_attribute :: u8
  lfn_type :: u8
  checksum :: u8
  next_6 :: "nat list"
  lfn_zero :: nat
  last_2 :: "nat list"

text \<open>The casts of \<open>&start_entry[i]\<close>: 32 bytes read as one of the two packed structs.\<close>

definition entry_of :: "u8 list \<Rightarrow> FAT_DIRECTORY_ENTRY" where
  "entry_of b = \<lparr>de_name = take 11 b, attributes = b ! 11, reserved_nt = b ! 12,
     creation_durration = b ! 13, creation_time = rd16 b 14, creation_date = rd16 b 16,
     last_accessed_date = rd16 b 18, first_cluster_high_16 = rd16 b 20,
     last_modified_time = rd16 b 22, last_modified_date = rd16 b 24,
     first_cluster_low_16 = rd16 b 26, de_size = rd32 b 28\<rparr>"

definition lfn_of :: "u8 list \<Rightarrow> FAT_LONG_NAME_ENTRY" where
  "lfn_of b = \<lparr>order = b ! 0, first_5 = map (\<lambda>i. rd16 b (1 + 2 * i)) [0..<5],
     lfn_attribute = b ! 11, lfn_type = b ! 12, checksum = b ! 13,
     next_6 = map (\<lambda>i. rd16 b (14 + 2 * i)) [0..<6], lfn_zero = rd16 b 26,
     last_2 = map (\<lambda>i. rd16 b (28 + 2 * i)) [0..<2]\<rparr>"

text \<open>The three copy loops, each \<open>(char)\<close> of a 16-bit unit, at \<open>buf + off\<close>.\<close>

definition read_lfn_entry_name :: "u8 list \<Rightarrow> int \<Rightarrow> FAT_LONG_NAME_ENTRY \<Rightarrow> u8 list option" where
  "read_lfn_entry_name buf off lfn =
     (if off < 0 then None
      else do {
        b \<leftarrow> blk_put buf (nat off) (map of_nat (first_5 lfn));
        b \<leftarrow> blk_put b (nat off + 5) (map of_nat (next_6 lfn));
        blk_put b (nat off + 11) (map of_nat (last_2 lfn)) })"

fun f12_loop :: "u8 list \<Rightarrow> u8 list \<Rightarrow> nat \<Rightarrow> nat \<Rightarrow> u8 list \<Rightarrow> (nat \<times> u8 list) option" where
  "f12_loop nm [] i index buf = Some (index, buf)"
| "f12_loop nm (c # cs) i index buf = do {
     (index, buf) \<leftarrow> (if c \<noteq> 32 then do { b \<leftarrow> arr_put buf index c; Some (index + 1, b) }
                      else Some (index, buf));
     (index, buf) \<leftarrow> (if i = 7 \<and> isalpha (scast (nm ! 8))
                      then do { b \<leftarrow> arr_put buf index 46; Some (index + 1, b) }
                      else Some (index, buf));
     f12_loop nm cs (i + 1) index buf }"

definition read_f12_entry_name :: "u8 list \<Rightarrow> FAT_DIRECTORY_ENTRY \<Rightarrow> u8 list option" where
  "read_f12_entry_name buf entry = do {
     (index, buf) \<leftarrow> f12_loop (de_name entry) (de_name entry) 0 0 buf;
     arr_put buf index 0 }"

section \<open>Looking up and creating entries\<close>

text \<open>The 32 bytes of the entry at \<open>i\<close>.\<close>

definition ent_at :: "u8 list \<Rightarrow> nat \<Rightarrow> u8 list option" where
  "ent_at dir i = blk_get dir i 32"

text \<open>
  The body both loops share for a long-name entry: clear \<open>tmp\<close> at the first one, then copy 13
  characters at \<open>13 * loc\<close>, \<open>loc = (order & 0x1f) - 1\<close>.
\<close>

definition lfn_step :: "u8 list \<Rightarrow> bool \<Rightarrow> u8 list \<Rightarrow> u8 list option" where
  "lfn_step tmp lfn_found b =
     read_lfn_entry_name (if lfn_found then tmp else replicate 256 0)
       (13 * (int (unat (order (lfn_of b) AND 0x1f)) - 1)) (lfn_of b)"

text \<open>
  The loop of \<open>get_entry_from_directory\<close> at offset \<open>i\<close>.  \<open>tmp_name\<close> starts out zeroed here; on the
  stack it is not, but bytes behind its first NUL are never read.
\<close>

function find_entry ::
  "u8 list \<Rightarrow> u8 list \<Rightarrow> nat \<Rightarrow> u8 list \<Rightarrow> nat option \<Rightarrow> bool \<Rightarrow> nat option option" where
  "find_entry dir nm i tmp entry lfn_found =
     (if length dir \<le> i then None
      else if dir ! i = 0 then Some entry
      else if dir ! i = 0xE5 then find_entry dir nm (i + 32) tmp entry lfn_found
      else case ent_at dir i of None \<Rightarrow> None | Some b \<Rightarrow>
        if b ! 11 = 0xf
        then (case lfn_step tmp lfn_found b of None \<Rightarrow> None
              | Some t \<Rightarrow> find_entry dir nm (i + 32) t entry True)
        else (case (if lfn_found then Some tmp else read_f12_entry_name tmp (entry_of b)) of
                None \<Rightarrow> None
              | Some t \<Rightarrow>
                  (case strcasecmp t nm of None \<Rightarrow> None
                   | Some x \<Rightarrow> if x = 0 then Some (Some i)
                               else find_entry dir nm (i + 32) t (Some i) False)))"
  by pat_completeness auto
termination
  by (relation "measure (\<lambda>(dir, nm, i, tmp, e, l). length dir - i)") auto

declare find_entry.simps [simp del]

definition get_entry_from_directory :: "u8 list \<Rightarrow> u8 list \<Rightarrow> nat option option" where
  "get_entry_from_directory start_entry nm = find_entry start_entry nm 0 (replicate 256 0) None False"

text \<open>
  The loop of \<open>create_entry_in_directory\<close>, bounded by one sector.  \<open>tmp_long\<close> collects the long
  name, but \<open>tmp_name\<close> is what is compared: after a long name it still holds the last short one
  (\<^const>\<open>None\<close> when there was none, an indeterminate array).  A blank entry clears the entry
  found last.
\<close>

function create_entry ::
  "u8 list \<Rightarrow> u8 list \<Rightarrow> nat \<Rightarrow> u8 list \<Rightarrow> u8 list option \<Rightarrow> nat option \<Rightarrow> bool \<Rightarrow>
   (nat option \<times> u8 list) option" where
  "create_entry dir nm i tmp_long tmp_name entry lfn_found =
     (if 512 \<le> i then Some (entry, dir)
      else if length dir \<le> i then None
      else if dir ! i = 0xE5 then create_entry dir nm (i + 32) tmp_long tmp_name entry lfn_found
      else case ent_at dir i of None \<Rightarrow> None | Some b \<Rightarrow>
        if b ! 11 = 0xf
        then (case lfn_step tmp_long lfn_found b of None \<Rightarrow> None
              | Some t \<Rightarrow> create_entry dir nm (i + 32) t tmp_name entry True)
        else if dir ! i \<noteq> 0
        then (case (if lfn_found then tmp_name
                    else read_f12_entry_name (replicate 256 0) (entry_of b)) of
                None \<Rightarrow> None
              | Some t \<Rightarrow>
                  (case strcasecmp t nm of None \<Rightarrow> None
                   | Some x \<Rightarrow> if x = 0 then Some (Some i, dir)
                               else create_entry dir nm (i + 32) tmp_long (Some t) (Some i) False))
        else (case entry of None \<Rightarrow> None
              | Some e \<Rightarrow> map_option (Pair (Some e)) (blk_put dir e (replicate 32 0))))"
  by pat_completeness auto
termination
  by (relation "measure (\<lambda>(dir, nm, i, tl, tn, e, l). 512 - i)") auto

declare create_entry.simps [simp del]

definition create_entry_in_directory :: "u8 list \<Rightarrow> u8 list \<Rightarrow> (nat option \<times> u8 list) option" where
  "create_entry_in_directory start_entry nm =
     create_entry start_entry nm 0 (replicate 256 0) None None False"

section \<open>Files by path\<close>

text \<open>\<open>entry->first_cluster_low_16\<close> behind the pointer a lookup returned.\<close>

definition entry_cluster :: "u8 list \<Rightarrow> nat option \<Rightarrow> nat option" where
  "entry_cluster dir e = do { i \<leftarrow> e; b \<leftarrow> ent_at dir i; Some (first_cluster_low_16 (entry_of b)) }"

fun base_loop :: "fat_fs \<Rightarrow> u8 list list \<Rightarrow> nat \<Rightarrow> nat option" where
  "base_loop fs [] cluster = Some cluster"
| "base_loop fs (p # ps) cluster = do {
     x \<leftarrow> strcasecmp p [0];
     if x \<noteq> 0
     then do {
       cur_dir \<leftarrow> load_fat_cluster_chain fs cluster;
       e \<leftarrow> get_entry_from_directory cur_dir p;
       c \<leftarrow> entry_cluster cur_dir e;
       base_loop fs ps c }
     else base_loop fs ps cluster }"

definition get_file_base_cluster :: "fat_fs \<Rightarrow> u8 list \<Rightarrow> nat option" where
  "get_file_base_cluster fs filepath = do {
     (sections, secs, start) \<leftarrow> split_string_by_char filepath 47;
     let paths = map (\<lambda>o1. drop o1 start) (take sections secs);
     p0 \<leftarrow> arr_get paths 0;
     e \<leftarrow> get_entry_from_directory (root_directory fs) p0;
     c \<leftarrow> entry_cluster (root_directory fs) e;
     base_loop fs (drop 1 paths) c }"

definition read_file :: "fat_fs \<Rightarrow> u8 list \<Rightarrow> u8 list option" where
  "read_file fs filepath = do {
     c \<leftarrow> get_file_base_cluster fs filepath;
     load_fat_cluster_chain fs c }"

text \<open>
  The loop of \<open>write_file\<close> over \<open>paths[1], ..., paths[sections - 1]\<close>: the state is the entry's
  cluster field, \<open>entry_location\<close> and \<open>cur_dir\<close> (unset and NULL before the first round).  A
  directory is freed before it is searched, except in the last round; the model reads it as
  it still is.
\<close>

fun write_walk ::
  "fat_fs \<Rightarrow> u8 list list \<Rightarrow> nat option \<Rightarrow> (nat \<times> u8 list) option \<Rightarrow> (nat \<times> u8 list) option option" where
  "write_walk fs [] ec cur = Some cur"
| "write_walk fs (p # ps) ec cur = do {
     x \<leftarrow> strcasecmp p [0];
     if x \<noteq> 0
     then do {
       loc \<leftarrow> ec;
       dir \<leftarrow> load_fat_cluster_chain fs loc;
       e \<leftarrow> get_entry_from_directory dir p;
       write_walk fs ps (entry_cluster dir e) (Some (loc, dir)) }
     else write_walk fs ps ec cur }"

text \<open>Fields stored through the entry pointer: little-endian at their offsets.\<close>

definition put16 :: "u8 list \<Rightarrow> nat \<Rightarrow> nat \<Rightarrow> u8 list option" where
  "put16 b i v = blk_put b i [of_nat v, of_nat (v div 256)]"

definition put32 :: "u8 list \<Rightarrow> nat \<Rightarrow> nat \<Rightarrow> u8 list option" where
  "put32 b i v = blk_put b i (map (\<lambda>k. of_nat (v div 256 ^ k)) [0..<4])"

definition write_file :: "fat_fs \<Rightarrow> u8 list \<Rightarrow> u8 list \<Rightarrow> nat \<Rightarrow> fat_fs option" where
  "write_file fs filepath data sz = do {
     (sections, secs, start) \<leftarrow> split_string_by_char filepath 47;
     let paths = map (\<lambda>o1. drop o1 start) (take sections secs);
     p0 \<leftarrow> arr_get paths 0;
     e \<leftarrow> get_entry_from_directory (root_directory fs) p0;
     cur \<leftarrow> write_walk fs (drop 1 paths) (entry_cluster (root_directory fs) e) None;
     (entry_location, cur_dir) \<leftarrow> cur;
     (e, cur_dir) \<leftarrow> create_entry_in_directory cur_dir (last paths);
     ent \<leftarrow> e;
     nm \<leftarrow> blk_get (last paths) 0 11;
     cur_dir \<leftarrow> blk_put cur_dir ent nm;
     (cluster, f) \<leftarrow> get_first_free_cluster (FAT_TABLE_0 fs);
     let fs = fs\<lparr>FAT_TABLE_0 := f\<rparr>;
     cur_dir \<leftarrow> put16 cur_dir (ent + 26) cluster;
     cur_dir \<leftarrow> put32 cur_dir (ent + 28) sz;
     fs \<leftarrow> write_fat_cluster_chain fs (cluster mod 2 ^ 16) data sz;
     s \<leftarrow> get_first_sector_of_cluster (BS fs) entry_location;
     n \<leftarrow> get_cluster_chain_length fs entry_location;
     d \<leftarrow> write_sectors (disk fs) s (of_nat n) cur_dir;
     let t = table_size_16 (BS fs);
     let fat0 = get_first_fat_sector (BS fs);
     d \<leftarrow> write_sectors d fat0 (of_nat t) (FAT_TABLE_0 fs);
     d \<leftarrow> write_sectors d (fat0 + 9) (of_nat t) (FAT_TABLE_0 fs);
     Some (fs\<lparr>disk := d\<rparr>) }"

section \<open>What a directory lists\<close>

text \<open>
  A deleted entry; a short entry; a long name, its pieces in the order they are on the disk (the
  last piece first), with the short entry they belong to.
\<close>

datatype listing = Deleted "u8 list" | Short "u8 list" | Long "u8 list list" "u8 list"

text \<open>The 13 characters of a long-name piece, and the name of a short entry.\<close>

definition lfn13 :: "u8 list \<Rightarrow> u8 list" where
  "lfn13 b = [b ! 1, b ! 3, b ! 5, b ! 7, b ! 9, b ! 14, b ! 16, b ! 18, b ! 20, b ! 22, b ! 24, b ! 28, b ! 30]"

definition short_name :: "u8 list \<Rightarrow> u8 list" where
  "short_name e = filter (\<lambda>c. c \<noteq> 32) (take 8 e) @ (if isalpha (scast (e ! 8)) then [46] else []) @
     filter (\<lambda>c. c \<noteq> 32) (take 3 (drop 8 e))"

fun enc_item :: "listing \<Rightarrow> u8 list" where
  "enc_item (Deleted b) = b"
| "enc_item (Short e) = e"
| "enc_item (Long cs e) = concat cs @ e"

fun item_name :: "listing \<Rightarrow> u8 list" where
  "item_name (Deleted b) = []"
| "item_name (Short e) = short_name e"
| "item_name (Long cs e) = takeWhile (\<lambda>c. c \<noteq> 0) (concat (map lfn13 (rev cs)))"

definition entry_ok :: "u8 list \<Rightarrow> bool" where
  "entry_ok e \<longleftrightarrow> length e = 32 \<and> e ! 0 \<noteq> 0xE5 \<and> e ! 11 \<noteq> 0xf \<and> (\<forall>c \<in> set (take 11 e). c \<noteq> 0)"

text \<open>Pieces \<open>n, n - 1, ..., 1\<close> of a long name.\<close>

fun pieces_ok :: "u8 list list \<Rightarrow> bool" where
  "pieces_ok [] \<longleftrightarrow> True"
| "pieces_ok (c # cs) \<longleftrightarrow> length c = 32 \<and> c ! 0 \<noteq> 0 \<and> c ! 0 \<noteq> 0xE5 \<and> c ! 11 = 0xf \<and>
     unat (c ! 0 AND 0x1f) = Suc (length cs) \<and> pieces_ok cs"

fun item_ok :: "listing \<Rightarrow> bool" where
  "item_ok (Deleted b) \<longleftrightarrow> length b = 32 \<and> b ! 0 = 0xE5"
| "item_ok (Short e) \<longleftrightarrow> entry_ok e"
| "item_ok (Long cs e) \<longleftrightarrow> cs \<noteq> [] \<and> length cs \<le> 19 \<and> pieces_ok cs \<and> entry_ok e"

definition casefold :: "u8 list \<Rightarrow> u8 list" where
  "casefold s = map (\<lambda>c. c OR 32) s"

text \<open>Where the entry called \<open>nm\<close> is; the last entry seen (\<open>dflt\<close> at first) when there is none.\<close>

fun find_name :: "u8 list \<Rightarrow> nat \<Rightarrow> nat option \<Rightarrow> listing list \<Rightarrow> nat option" where
  "find_name nm off dflt [] = dflt"
| "find_name nm off dflt (Deleted b # ds) = find_name nm (off + 32) dflt ds"
| "find_name nm off dflt (d # ds) =
     (let p = off + length (enc_item d) - 32 in
      if casefold (item_name d) = casefold nm then Some p
      else find_name nm (off + length (enc_item d)) (Some p) ds)"

section \<open>Reading names\<close>

fun f12_out :: "u8 list \<Rightarrow> u8 list \<Rightarrow> nat \<Rightarrow> u8 list" where
  "f12_out nm [] i = []"
| "f12_out nm (c # cs) i = (if c \<noteq> 32 then [c] else []) @
     (if i = 7 \<and> isalpha (scast (nm ! 8)) then [46] else []) @ f12_out nm cs (i + 1)"

lemma f12_loop_out:
  "index + length (f12_out nm cs i) \<le> length buf \<Longrightarrow>
   f12_loop nm cs i index buf = Some (index + length (f12_out nm cs i),
     take index buf @ f12_out nm cs i @ drop (index + length (f12_out nm cs i)) buf)"
proof (induction nm cs i index buf rule: f12_loop.induct)
  case (2 nm c cs i index buf)
  show ?case
  proof (cases "c \<noteq> 32"; cases "i = 7 \<and> isalpha (scast (nm ! 8))")
    assume a: "c \<noteq> 32" "i = 7 \<and> isalpha (scast (nm ! 8))"
    with 2 show ?thesis by (simp add: take_Suc_update take_Suc_conv_app_nth nth_list_update)
  next
    assume a: "c \<noteq> 32" "\<not> (i = 7 \<and> isalpha (scast (nm ! 8)))"
    with 2 show ?thesis by (auto simp: take_Suc_update)
  next
    assume a: "\<not> c \<noteq> 32" "i = 7 \<and> isalpha (scast (nm ! 8))"
    with 2 show ?thesis by (simp add: take_Suc_update)
  next
    assume a: "\<not> c \<noteq> 32" "\<not> (i = 7 \<and> isalpha (scast (nm ! 8)))"
    with 2 show ?thesis by auto
  qed
qed simp

lemma f12_out_append: "f12_out nm (xs @ ys) i = f12_out nm xs i @ f12_out nm ys (i + length xs)"
  by (induction xs arbitrary: i) auto

lemma f12_out_plain:
  "i + length cs \<le> 7 \<or> 7 < i \<Longrightarrow> f12_out nm cs i = filter (\<lambda>c. c \<noteq> 32) cs"
  by (induction cs arbitrary: i) auto

lemma f12_out_name:
  assumes "length nm = 11"
  shows "f12_out nm nm 0 = short_name nm"
proof -
  have nm: "nm = take 7 nm @ nm ! 7 # drop 8 nm"
    using id_take_nth_drop [of 7 nm] assms by simp
  have t: "take 8 nm = take 7 nm @ [nm ! 7]" using take_Suc_conv_app_nth [of 7 nm] assms by simp
  have "f12_out nm nm 0 = f12_out nm (take 7 nm @ nm ! 7 # drop 8 nm) 0"
    using nm by simp
  also have "\<dots> = f12_out nm (take 7 nm) 0 @ f12_out nm (nm ! 7 # drop 8 nm) 7"
    using assms by (simp only: f12_out_append) simp
  also have "\<dots> = short_name nm"
    using assms t by (simp add: short_name_def f12_out_plain)
  finally show ?thesis .
qed

lemma length_short_name: "length (short_name e) \<le> 12"
proof -
  have "length (filter (\<lambda>c. c \<noteq> 32) (take 8 e)) \<le> 8"
    using length_filter_le [of "\<lambda>c. c \<noteq> 32" "take 8 e"] by simp
  moreover have "length (filter (\<lambda>c. c \<noteq> 32) (take 3 (drop 8 e))) \<le> 3"
    using length_filter_le [of "\<lambda>c. c \<noteq> 32" "take 3 (drop 8 e)"] by simp
  ultimately show ?thesis by (simp add: short_name_def)
qed

lemma short_name_take: "short_name (take 11 e) = short_name e"
  by (simp add: short_name_def drop_take)

lemma read_f12_name:
  assumes "length buf = 256" "length e = 32"
  shows "\<exists>r. read_f12_entry_name buf (entry_of e) = Some (short_name e @ 0 # r) \<and>
    length (short_name e @ 0 # r) = 256"
proof -
  let ?s = "short_name e"
  have l: "f12_out (take 11 e) (take 11 e) 0 = ?s"
    using f12_out_name [of "take 11 e"] assms(2) by (simp add: short_name_take)
  have n: "length ?s \<le> 12" by (rule length_short_name)
  have "read_f12_entry_name buf (entry_of e) = arr_put (?s @ drop (length ?s) buf) (length ?s) 0"
    using f12_loop_out [of 0 "take 11 e" "take 11 e" 0 buf] l n assms
    by (simp add: read_f12_entry_name_def entry_of_def)
  also have "\<dots> = Some (?s @ 0 # drop (Suc (length ?s)) buf)"
    using n assms by (simp add: arr_put_def list_update_append upd_conv_take_nth_drop)
  finally show ?thesis using n assms by auto
qed

lemma blk_put_seq:
  "blk_put xs i ys = Some zs \<Longrightarrow> blk_put zs (i + length ys) ws = blk_put xs i (ys @ ws)"
  by (auto simp: blk_put_def add_ac split: if_splits)

lemma low_byte: "of_nat (rd16 b i) = b ! i"
proof -
  have z: "(256 :: u8) = 0" by simp
  have "256 * x = 0" for x :: u8 unfolding z by (rule mult_zero_left)
  then show ?thesis by (simp add: rd16_def)
qed

lemma lfn_units:
  "map of_nat (first_5 (lfn_of b)) @ map of_nat (next_6 (lfn_of b)) @ map of_nat (last_2 (lfn_of b)) = lfn13 b"
  by (simp add: lfn_of_def lfn13_def low_byte upt_rec)

lemma length_lfn13 [simp]: "length (lfn13 b) = 13"
  by (simp add: lfn13_def)

lemma read_lfn_name:
  assumes "13 * k + 13 \<le> length buf"
  shows "read_lfn_entry_name buf (int (13 * k)) (lfn_of b) =
    Some (take (13 * k) buf @ lfn13 b @ drop (13 * k + 13) buf)"
proof -
  let ?l = "lfn_of b"
  have n: "length (first_5 ?l) = 5" "length (next_6 ?l) = 6" "length (last_2 ?l) = 2"
    by (simp_all add: lfn_of_def)
  obtain b1 where b1: "blk_put buf (13 * k) (map of_nat (first_5 ?l)) = Some b1"
    using assms n by (simp add: blk_put_def)
  have s2: "blk_put b1 (13 * k + 5) ws = blk_put buf (13 * k) (map of_nat (first_5 ?l) @ ws)" for ws
    using blk_put_seq [OF b1, of ws] n by simp
  obtain b2 where b2: "blk_put buf (13 * k) (map of_nat (first_5 ?l) @ map of_nat (next_6 ?l)) = Some b2"
    using assms n by (simp add: blk_put_def)
  have s3: "blk_put b2 (13 * k + 11) ws = blk_put buf (13 * k) ((map of_nat (first_5 ?l) @ map of_nat (next_6 ?l)) @ ws)" for ws
    using blk_put_seq [OF b2, of ws] n by (simp add: add.assoc)
  have nn: "nat (int (13 * k)) = 13 * k" by simp
  have "read_lfn_entry_name buf (int (13 * k)) ?l = blk_put buf (13 * k) (lfn13 b)"
    unfolding read_lfn_entry_name_def nn
    using b1 s2 [of "map of_nat (next_6 ?l)"] b2 s3 [of "map of_nat (last_2 ?l)"] lfn_units [of b]
    by (simp del: of_nat_mult)
  also have "\<dots> = Some (take (13 * k) buf @ lfn13 b @ drop (13 * k + 13) buf)"
    using assms by (simp add: blk_put_def)
  finally show ?thesis .
qed

section \<open>Lookup on a listing\<close>

lemma find_entry_pieces:
  assumes "cs \<noteq> []" "pieces_ok cs" "length cs \<le> 19" "length tmp = 256"
    and "dir = pre @ concat cs @ post"
  shows "find_entry dir nm (length pre) tmp entry found =
     find_entry dir nm (length pre + 32 * length cs)
       (concat (map lfn13 (rev cs)) @ drop (13 * length cs) (if found then tmp else replicate 256 0)) entry True"
  using assms
proof (induction cs arbitrary: pre tmp found)
  case (Cons c cs)
  let ?T = "if found then tmp else replicate 256 0"
  have c: "length c = 32" "c ! 0 \<noteq> 0" "c ! 0 \<noteq> 0xE5" "c ! 11 = 0xf"
    "unat (c ! 0 AND 0x1f) = Suc (length cs)" "pieces_ok cs" using Cons.prems(2) by simp_all
  have dir: "dir = pre @ c @ concat cs @ post" using Cons.prems by simp
  have at: "length pre < length dir" "dir ! length pre = c ! 0" "ent_at dir (length pre) = Some c"
    using c(1) by (auto simp: dir ent_at_def blk_get_def nth_append)
  have lt: "length ?T = 256" using Cons.prems by simp
  define t where "t = take (13 * length cs) ?T @ lfn13 c @ drop (13 * length cs + 13) ?T"
  have st: "lfn_step tmp found c = Some t"
    using read_lfn_name [of "length cs" ?T c] Cons.prems(3) lt c(5)
    by (simp add: lfn_step_def lfn_of_def t_def)
  have one: "find_entry dir nm (length pre) tmp entry found =
      find_entry dir nm (length (pre @ c)) t entry True"
    using at c st by (subst find_entry.simps) simp
  have tl: "length t = 256" using lt Cons.prems(3) by (simp add: t_def)
  show ?case
  proof (cases "cs = []")
    case True
    then show ?thesis using one c(1) by (simp add: t_def)
  next
    case False
    have d: "drop (13 * length cs) t = lfn13 c @ drop (13 * length cs + 13) ?T"
      using lt Cons.prems(3) by (simp add: t_def)
    have "find_entry dir nm (length (pre @ c)) t entry True =
      find_entry dir nm (length (pre @ c) + 32 * length cs)
        (concat (map lfn13 (rev cs)) @ drop (13 * length cs) t) entry True"
      using Cons.IH [OF False c(6) _ tl, of "pre @ c" True] Cons.prems(3) dir by simp
    then show ?thesis unfolding one d using c(1) by (simp add: add_ac)
  qed
qed simp

lemma cstr_short_name: "entry_ok e \<Longrightarrow> cstr (short_name e) \<and> 0x20 \<notin> set (short_name e)"
proof -
  assume e: "entry_ok e"
  have "set (take 8 e) \<subseteq> set (take 11 e)" by (rule set_take_subset_set_take) simp
  moreover have "set (take 3 (drop 8 e)) \<subseteq> set (take 11 e)"
  proof -
    have "take 3 (drop 8 e) = drop 8 (take 11 e)" by (simp add: drop_take)
    then show ?thesis by (simp add: set_drop_subset)
  qed
  ultimately show ?thesis using e by (auto simp: entry_ok_def short_name_def cstr_def)
qed

lemma takeWhile_NUL: "\<exists>r. s @ 0 # t = takeWhile (\<lambda>c. c \<noteq> 0) s @ 0 # r" for s :: "u8 list"
  by (induction s) auto

lemma cstr_takeWhile: "cstr (takeWhile (\<lambda>c. c \<noteq> 0) s)"
  by (auto simp: cstr_def dest: set_takeWhileD)

text \<open>One short entry, its name either read from it (\<open>found\<close> is false) or already in \<open>tmp\<close>.\<close>

lemma find_entry_short:
  assumes e: "entry_ok e" and dir: "dir = pre @ e @ post" and tmp: "length tmp = 256"
    and n: "if found then tmp = n @ 0 # r else n = short_name e"
    and ok: "cstr n" "0x20 \<notin> set n" and m: "cstr m"
  shows "\<exists>t. length t = 256 \<and> find_entry dir (m @ 0 # s) (length pre) tmp entry found =
    (if casefold n = casefold m then Some (Some (length pre))
     else find_entry dir (m @ 0 # s) (length pre + 32) t (Some (length pre)) False)"
proof -
  have el: "length e = 32" "e ! 0 \<noteq> 0xE5" "e ! 11 \<noteq> 0xf" using e by (simp_all add: entry_ok_def)
  have "e ! 0 \<in> set (take 11 e)" using el(1) by (metis length_greater_0_conv length_take list.size(3)
      min_less_iff_conj nth_mem nth_take numeral_neq_zero zero_less_numeral)
  then have e0: "e ! 0 \<noteq> 0" using e by (auto simp: entry_ok_def)
  have at: "length pre < length dir" "dir ! length pre = e ! 0" "ent_at dir (length pre) = Some e"
    using el(1) by (auto simp: dir ent_at_def blk_get_def nth_append)
  obtain t r' where t: "(if found then Some tmp else read_f12_entry_name tmp (entry_of e)) = Some t"
    "t = n @ 0 # r'" "length t = 256"
    using n tmp read_f12_name [OF tmp el(1)] by (cases found) auto
  obtain x where x: "strcasecmp t (m @ 0 # s) = Some x" "x = 0 \<longleftrightarrow> casefold n = casefold m"
    using strcasecmp_cstr [OF ok(1) m ok(2)] t(2) unfolding casefold_def by blast
  have "find_entry dir (m @ 0 # s) (length pre) tmp entry found =
    (if casefold n = casefold m then Some (Some (length pre))
     else find_entry dir (m @ 0 # s) (length pre + 32) t (Some (length pre)) False)"
    using at el e0 t(1) x by (subst find_entry.simps) simp
  then show ?thesis using t(3) by blast
qed

lemma find_entry_listing:
  assumes "\<forall>d \<in> set ds. item_ok d \<and> 0x20 \<notin> set (item_name d)" and "cstr m" and "length tmp = 256"
    and "dir = pre @ concat (map enc_item ds) @ 0 # post"
  shows "find_entry dir (m @ 0 # s) (length pre) tmp dflt False = Some (find_name m (length pre) dflt ds)"
  using assms
proof (induction ds arbitrary: pre tmp dflt)
  case Nil
  then show ?case by (subst find_entry.simps) simp
next
  case (Cons d ds)
  have ds: "\<forall>d \<in> set ds. item_ok d \<and> 0x20 \<notin> set (item_name d)" using Cons.prems(1) by simp
  have IH: "find_entry dir (m @ 0 # s) (length pre + length (enc_item d)) t df False =
      Some (find_name m (length pre + length (enc_item d)) df ds)" if "length t = 256" for t df
    using Cons.IH [OF ds Cons.prems(2) that, of "pre @ enc_item d"] Cons.prems(4) by simp
  show ?case
  proof (cases d)
    case (Deleted b)
    then have b: "length b = 32" "b ! 0 = 0xE5" using Cons.prems(1) by auto
    then have "length pre < length dir" "dir ! length pre = 0xE5"
      using Cons.prems(4) Deleted by (auto simp: nth_append)
    then show ?thesis using IH [OF Cons.prems(3)] Deleted b(1) by (subst find_entry.simps) simp
  next
    case (Short e)
    then have e: "entry_ok e" "length e = 32" using Cons.prems(1) by (auto simp: entry_ok_def)
    have dir: "dir = pre @ e @ (concat (map enc_item ds) @ 0 # post)" using Cons.prems(4) Short by simp
    from find_entry_short [OF e(1) dir Cons.prems(3), of False "short_name e" _ m s dflt]
      cstr_short_name [OF e(1)] Cons.prems(2)
    obtain t where t: "length t = 256" "find_entry dir (m @ 0 # s) (length pre) tmp dflt False =
      (if casefold (short_name e) = casefold m then Some (Some (length pre))
       else find_entry dir (m @ 0 # s) (length pre + 32) t (Some (length pre)) False)" by auto
    show ?thesis using t(2) IH [OF t(1)] Short e(2) by (simp add: Let_def)
  next
    case (Long cs e)
    then have e: "entry_ok e" "length e = 32" and cs: "cs \<noteq> []" "pieces_ok cs" "length cs \<le> 19"
      and sp: "0x20 \<notin> set (item_name d)" using Cons.prems(1) by (auto simp: entry_ok_def)
    have l32: "length (concat cs) = 32 * length cs" using cs(2) by (induction cs) auto
    let ?X = "concat (map lfn13 (rev cs))"
    have lX: "length ?X = 13 * length cs" by (simp add: length_concat comp_def sum_list_triv)
    obtain k where k: "256 - 13 * length cs = Suc k" using cs(3) by (cases "256 - 13 * length cs") auto
    let ?t = "?X @ drop (13 * length cs) (replicate 256 0)"
    have z: "?t = ?X @ 0 # replicate k 0" using k by simp
    obtain r where r: "?t = item_name d @ 0 # r"
      using takeWhile_NUL [of ?X "replicate k 0"] z Long by auto
    have tl: "length ?t = 256" using lX cs(3) by simp
    have dir: "dir = pre @ concat cs @ (e @ concat (map enc_item ds) @ 0 # post)"
      and dir': "dir = (pre @ concat cs) @ e @ (concat (map enc_item ds) @ 0 # post)"
      using Cons.prems(4) Long by simp_all
    have p: "length (pre @ concat cs) = length pre + 32 * length cs" using l32 by simp
    have one: "find_entry dir (m @ 0 # s) (length pre) tmp dflt False =
        find_entry dir (m @ 0 # s) (length (pre @ concat cs)) ?t dflt True"
      unfolding p using find_entry_pieces [OF cs Cons.prems(3) dir, of "m @ 0 # s" dflt False] by simp
    from find_entry_short [OF e(1) dir' tl, of True "item_name d" r m s dflt] r sp Cons.prems(2)
      cstr_takeWhile [of ?X] Long
    obtain t where t: "length t = 256" "find_entry dir (m @ 0 # s) (length (pre @ concat cs)) ?t dflt True =
      (if casefold (item_name d) = casefold m then Some (Some (length (pre @ concat cs)))
       else find_entry dir (m @ 0 # s) (length (pre @ concat cs) + 32) t (Some (length (pre @ concat cs))) False)"
      by auto
    show ?thesis unfolding one using t(2) IH [OF t(1)] Long e(2) l32 by (simp add: add_ac Let_def)
  qed
qed

lemma lookup_listing:
  assumes "\<forall>d \<in> set ds. item_ok d \<and> 0x20 \<notin> set (item_name d)" and "cstr m"
  shows "get_entry_from_directory (concat (map enc_item ds) @ 0 # post) (m @ 0 # s) =
    Some (find_name m 0 None ds)"
  using find_entry_listing [of ds m "replicate 256 0" _ "[]" post s None] assms
  by (simp add: get_entry_from_directory_def)

section \<open>Paths\<close>

text \<open>
  The directories \<open>D\<close> of a volume, by first cluster (0 is the root), and what they list.
\<close>

definition volume_lists :: "fat_fs \<Rightarrow> (nat \<Rightarrow> listing list) \<Rightarrow> nat set \<Rightarrow> bool" where
  "volume_lists fs L D \<longleftrightarrow>
     (\<exists>R. root_directory fs = concat (map enc_item (L 0)) @ 0 # R) \<and>
     (\<forall>c \<in> D. \<exists>R. load_fat_cluster_chain fs c = Some (concat (map enc_item (L c)) @ 0 # R)) \<and>
     (\<forall>c \<in> insert 0 D. \<forall>d \<in> set (L c). item_ok d \<and> 0x20 \<notin> set (item_name d))"

definition cluster_at :: "(nat \<Rightarrow> listing list) \<Rightarrow> nat \<Rightarrow> nat \<Rightarrow> nat" where
  "cluster_at L c off = first_cluster_low_16 (entry_of (take 32 (drop off (concat (map enc_item (L c))))))"

fun walk :: "(nat \<Rightarrow> listing list) \<Rightarrow> nat set \<Rightarrow> nat \<Rightarrow> u8 list list \<Rightarrow> nat option" where
  "walk L D c [] = Some c"
| "walk L D c (p # ps) =
     (if p = [] then walk L D c ps
      else if c \<in> D then do { off \<leftarrow> find_name p 0 None (L c); walk L D (cluster_at L c off) ps }
      else None)"

lemma enc_item_length: "item_ok d \<Longrightarrow> 32 \<le> length (enc_item d)"
  by (cases d) (auto simp: entry_ok_def)

lemma find_name_bound:
  "\<forall>d \<in> set ds. item_ok d \<Longrightarrow> find_name m off dflt ds = Some p \<Longrightarrow> dflt = Some p \<or>
   off \<le> p \<and> p + 32 \<le> off + length (concat (map enc_item ds))"
proof (induction m off dflt ds rule: find_name.induct, goal_cases)
  case (3 nm off dflt e ds)
  then show ?case using enc_item_length [of "Short e"] by (fastforce simp: Let_def split: if_splits)
next
  case (4 nm off dflt cs e ds)
  then show ?case using enc_item_length [of "Long cs e"] by (fastforce simp: Let_def split: if_splits)
qed auto

lemma entry_cluster_at:
  assumes "\<forall>d \<in> set (L c). item_ok d" and "find_name m 0 None (L c) = Some off"
  shows "entry_cluster (concat (map enc_item (L c)) @ 0 # R) (Some off) = Some (cluster_at L c off)"
  using find_name_bound [OF assms]
  by (simp add: entry_cluster_def ent_at_def blk_get_def cluster_at_def)

lemma strcasecmp_empty:
  assumes "cstr p" "0x20 \<notin> set p"
  shows "\<exists>k. strcasecmp (p @ 0 # q) [0] = Some k \<and> (k = 0 \<longleftrightarrow> p = [])"
  using strcasecmp_cstr [OF assms(1), of "[]" q "[]"] assms by simp

lemma components_set: "p \<in> set (components sep s) \<Longrightarrow> set p \<subseteq> set s"
proof (induction s arbitrary: p)
  case (Cons c s)
  have "hd (components sep s) \<in> set (components sep s)" using components_ne by simp
  moreover have "set (tl (components sep s)) \<subseteq> set (components sep s)"
    by (metis list.set_sel(2) components_ne subsetI)
  ultimately show ?case using Cons by (fastforce split: if_splits)
qed simp

lemma base_loop_walk:
  assumes v: "volume_lists fs L D" and "\<forall>p \<in> set ps. cstr p \<and> 0x20 \<notin> set p"
    and "list_all2 (\<lambda>b p. \<exists>q. b = p @ 0 # q) bs ps" and "walk L D c ps = Some c'"
  shows "base_loop fs bs c = Some c'"
  using assms(3,2,4)
proof (induction arbitrary: c rule: list_all2_induct)
  case (Cons b bs p ps)
  obtain q where b: "b = p @ 0 # q" using Cons.hyps by blast
  obtain k where k: "strcasecmp b [0] = Some k" "k = 0 \<longleftrightarrow> p = []"
    using strcasecmp_empty [of p q] Cons.prems(1) b by auto
  show ?case
  proof (cases "p = []")
    case True
    then show ?thesis using Cons k by simp
  next
    case False
    then obtain off where w: "c \<in> D" "find_name p 0 None (L c) = Some off"
      "walk L D (cluster_at L c off) ps = Some c'"
      using Cons.prems(2) by (auto split: if_splits bind_splits)
    obtain R where R: "load_fat_cluster_chain fs c = Some (concat (map enc_item (L c)) @ 0 # R)"
      and ok: "\<forall>d \<in> set (L c). item_ok d \<and> 0x20 \<notin> set (item_name d)"
      using v w(1) unfolding volume_lists_def by blast
    have "get_entry_from_directory (concat (map enc_item (L c)) @ 0 # R) b = Some (Some off)"
      using lookup_listing [OF ok, of p R q] Cons.prems(1) w(2) b by simp
    moreover have "entry_cluster (concat (map enc_item (L c)) @ 0 # R) (Some off) = Some (cluster_at L c off)"
      using entry_cluster_at [of L c p off R] w(2) ok by blast
    ultimately show ?thesis using Cons k False R w(3) by simp
  qed
qed simp

text \<open>The components of a path, a leading slash dropped.\<close>

definition path_components :: "u8 list \<Rightarrow> u8 list list" where
  "path_components s = components 47 (if s \<noteq> [] \<and> hd s = 47 then tl s else s)"

lemma base_cluster_walk:
  assumes v: "volume_lists fs L D" and s: "cstr s" "0x20 \<notin> set s"
    and pc: "path_components s = p # ps" and f: "find_name p 0 None (L 0) = Some off"
    and w: "walk L D (cluster_at L 0 off) ps = Some c"
  shows "get_file_base_cluster fs (s @ 0 # r) = Some c"
proof -
  obtain secs start where sp: "split_string_by_char (s @ 0 # r) 47 = Some (length secs, secs, start)"
    and mc: "map (cstr_at start) secs = p # ps"
    and dr: "\<forall>k \<in> set secs. \<exists>q. drop k start = cstr_at start k @ 0 # q"
    using split_string_paths [OF s(1), of 47 r] pc unfolding path_components_def by auto
  let ?paths = "map (\<lambda>o1. drop o1 start) secs"
  have "list_all2 (\<lambda>b p. \<exists>q. b = p @ 0 # q) ?paths (map (cstr_at start) secs)"
    using dr by (simp add: list_all2_conv_all_nth)
  then have "list_all2 (\<lambda>b p. \<exists>q. b = p @ 0 # q) ?paths (p # ps)" unfolding mc .
  then obtain b bs q where b: "?paths = b # bs" "b = p @ 0 # q"
    "list_all2 (\<lambda>b p. \<exists>q. b = p @ 0 # q) bs ps"
    by (auto simp: list_all2_Cons2)
  have "\<forall>x \<in> set (p # ps). set x \<subseteq> set s"
    using components_set [of _ 47 "if s \<noteq> [] \<and> hd s = 47 then tl s else s"] pc
    unfolding path_components_def by (fastforce dest: list.set_sel(2) split: if_splits)
  then have ok: "\<forall>x \<in> set (p # ps). cstr x \<and> 0x20 \<notin> set x" using s by (auto simp: cstr_def)
  obtain R where R: "root_directory fs = concat (map enc_item (L 0)) @ 0 # R"
    and lok: "\<forall>d \<in> set (L 0). item_ok d \<and> 0x20 \<notin> set (item_name d)"
    using v unfolding volume_lists_def by blast
  have "get_entry_from_directory (root_directory fs) b = Some (Some off)"
    using lookup_listing [OF lok, of p R q] ok f b(2) R by simp
  moreover have "entry_cluster (root_directory fs) (Some off) = Some (cluster_at L 0 off)"
    unfolding R using entry_cluster_at [of L 0 p off R] f lok by blast
  moreover have "base_loop fs bs (cluster_at L 0 off) = Some c"
    by (rule base_loop_walk [OF v _ b(3) w]) (use ok in simp)
  ultimately show ?thesis using sp b(1) by (simp add: get_file_base_cluster_def)
qed

section \<open>Creating an entry\<close>

text \<open>A directory of short entries none of which has the name, with a blank entry after the last.\<close>

lemma create_entry_shorts:
  assumes "\<forall>e \<in> set es. entry_ok e \<and> casefold (short_name e) \<noteq> casefold m" and "cstr m"
    and "dir = pre @ concat es @ replicate 32 0 @ post" and "length pre + length (concat es) < 512"
  shows "create_entry dir (m @ 0 # s) (length pre) (replicate 256 0) tn dflt False =
    (case (if es = [] then dflt else Some (length pre + 32 * (length es - 1))) of
       None \<Rightarrow> None
     | Some e \<Rightarrow> map_option (Pair (Some e)) (blk_put dir e (replicate 32 0)))"
  using assms
proof (induction es arbitrary: pre tn dflt)
  case Nil
  have "dir ! length pre = 0" "ent_at dir (length pre) = Some (replicate 32 0)" "length pre < length dir"
    using Nil.prems(3) by (auto simp: nth_append ent_at_def blk_get_def)
  then show ?case using Nil.prems(4) by (subst create_entry.simps) simp
next
  case (Cons e es)
  have e: "entry_ok e" "length e = 32" "e ! 0 \<noteq> 0xE5" "e ! 11 \<noteq> 0xf"
    "casefold (short_name e) \<noteq> casefold m" using Cons.prems(1) by (simp_all add: entry_ok_def)
  have "e ! 0 = take 11 e ! 0" by simp
  then have e0: "e ! 0 \<noteq> 0" using e(1,2) nth_mem [of 0 "take 11 e"] by (auto simp: entry_ok_def)
  have at: "length pre < length dir" "dir ! length pre = e ! 0" "ent_at dir (length pre) = Some e"
    using e(2) Cons.prems(3) by (auto simp: ent_at_def blk_get_def nth_append)
  obtain r where r: "read_f12_entry_name (replicate 256 0) (entry_of e) = Some (short_name e @ 0 # r)"
    using read_f12_name [of "replicate 256 0" e] e(2) by auto
  obtain x where x: "strcasecmp (short_name e @ 0 # r) (m @ 0 # s) = Some x" "x \<noteq> 0"
    using strcasecmp_cstr [of "short_name e" m r s] cstr_short_name [OF e(1)] Cons.prems(2) e(5)
    unfolding casefold_def by auto
  have "create_entry dir (m @ 0 # s) (length pre) (replicate 256 0) tn dflt False =
    create_entry dir (m @ 0 # s) (length (pre @ e)) (replicate 256 0) (Some (short_name e @ 0 # r))
      (Some (length pre)) False"
    using at e(2-4) e0 r x Cons.prems(4) by (subst create_entry.simps) simp
  also have "\<dots> = (case (if es = [] then Some (length pre) else Some (length (pre @ e) + 32 * (length es - 1))) of
       None \<Rightarrow> None
     | Some e \<Rightarrow> map_option (Pair (Some e)) (blk_put dir e (replicate 32 0)))"
    by (rule Cons.IH) (use Cons.prems in auto)
  finally show ?case using e(2) by (cases es) (simp_all add: algebra_simps)
qed

section \<open>Properties\<close>

text \<open>
  C29. Looking a name up in a directory: deleted entries are skipped, long names are put together
  from their pieces, short names get their dot, and the offset of the first entry whose name
  is the wanted one up to case is returned; when no entry has the name, the last entry is
  returned instead of NULL.
\<close>

theorem fat_dir_lookup:
  assumes "\<forall>d \<in> set ds. item_ok d \<and> 0x20 \<notin> set (item_name d)" and "cstr nm"
  shows "get_entry_from_directory (concat (map enc_item ds) @ 0 # r) (nm @ 0 # s) =
    Some (find_name nm 0 None ds)"
  using assms by (rule lookup_listing)

definition kernel_elf :: "u8 list" where
  "kernel_elf = of_str ''KERNEL  ELF'' @ replicate 15 0 @ [7, 0, 0, 2, 0, 0]"

definition startup_piece :: "u8 list" where
  "startup_piece = [0x41, 115, 0, 116, 0, 97, 0, 114, 0, 116, 0, 0xf, 0, 0, 117, 0, 112, 0, 46, 0, 110,
     0, 115, 0, 104, 0, 0, 0, 0, 0, 0xff, 0xff]"

definition startup_nsh :: "u8 list" where
  "startup_nsh = of_str ''STARTUP NSH'' @ [0x20] @ replicate 14 0 @ [3, 0, 1, 0, 0, 0]"

theorem fat_dir_lookup_witness:
  "get_entry_from_directory
     (concat (map enc_item [Short kernel_elf, Long [startup_piece] startup_nsh]) @ [0]) (of_str ''Startup.nsh'' @ [0]) =
     Some (Some 64) \<and>
   get_entry_from_directory (concat (map enc_item [Short kernel_elf]) @ [0]) (of_str ''nothing'' @ [0]) =
     Some (Some 0)"
proof -
  have h: "\<forall>d \<in> set [Short kernel_elf, Long [startup_piece] startup_nsh]. item_ok d \<and> 0x20 \<notin> set (item_name d)"
    "cstr (of_str ''Startup.nsh'')" "cstr (of_str ''nothing'')" by code_simp+
  have v: "find_name (of_str ''Startup.nsh'') 0 None [Short kernel_elf, Long [startup_piece] startup_nsh] = Some 64"
    "find_name (of_str ''nothing'') 0 None [Short kernel_elf] = Some 0" by code_simp+
  show ?thesis
    using fat_dir_lookup [OF h(1,2), of "[]" "[]"]
      fat_dir_lookup [of "[Short kernel_elf]" "of_str ''nothing''" "[]" "[]"] h v by auto
qed

text \<open>
  C11. A path is resolved one component after the other: when the walk along the listings of a volume
  finds a cluster for \<open>path\<close> (empty components after the first are skipped), \<open>read_file\<close> loads
  exactly the cluster chain that starts there.
\<close>

theorem read_file_follows_path:
  assumes "volume_lists fs L D" and "cstr path" and "0x20 \<notin> set path"
    and "path_components path = p # ps" and "find_name p 0 None (L 0) = Some off"
    and "walk L D (cluster_at L 0 off) ps = Some c"
  shows "read_file fs (path @ 0 # r) = load_fat_cluster_chain fs c"
  using base_cluster_walk [OF assms] by (simp add: read_file_def)

definition boot_dir :: "u8 list" where
  "boot_dir = of_str ''BOOT       '' @ [0x10] @ replicate 14 0 @ [2, 0, 0, 0, 0, 0]"

definition vol1_lists :: "nat \<Rightarrow> listing list" where
  "vol1_lists c = (if c = 0 then [Short kernel_elf, Short boot_dir] else [Long [startup_piece] startup_nsh])"

definition vol1_disk :: disk where
  "vol1_disk s = (if s = 3 then concat (map enc_item (vol1_lists 2)) @ replicate 448 0 else replicate 512 66)"

definition vol1 :: fat_fs where
  "vol1 = vol0\<lparr>FAT_TABLE_0 := [0xF8, 0xFF, 0xFF, 0xFF, 0xFF, 0xFF, 0, 0, 0],
     root_directory := concat (map enc_item (vol1_lists 0)) @ replicate 448 0,
     disk := vol1_disk\<rparr>"

lemma blank_448: "replicate 448 (0 :: u8) = 0 # replicate 447 0"
proof -
  have "448 = Suc 447" by simp
  then show ?thesis by (simp only: replicate_Suc)
qed

lemma vol1_disk: "disk vol1 = vol1_disk"
  by (simp only: vol1_def vol0_def fat_fs.simps)

lemma vol1_disk_at: "vol1_disk 3 = concat (map enc_item (vol1_lists 2)) @ 0 # replicate 447 0"
  unfolding vol1_disk_def blank_448 by (rule if_P) simp

lemma vol1_next: "c = 2 \<or> c = 3 \<Longrightarrow> get_fat_next_cluster (FAT_TABLE_0 vol1) c = Some 4095"
  by (auto simp: vol1_def get_fat_next_cluster_def rd_entry_def le16_def)

lemma vol1_chain: "c = 2 \<or> c = 3 \<Longrightarrow> load_fat_cluster_chain vol1 c = Some (disk vol1 (c + 1))"
proof -
  assume c: "c = 2 \<or> c = 3"
  then have n: "c \<noteq> 4095" "c \<noteq> 0" "get_fat_next_cluster (FAT_TABLE_0 vol1) c = Some 4095"
    by (auto simp: vol1_next)
  have s: "get_first_sector_of_cluster (BS vol1) c = Some (c + 1)"
    using c by (auto simp: vol1_def vol0_def get_first_sector_of_cluster_def get_first_data_sector_def
        get_root_dir_sectors_def get_fat_size_def wrap64_def)
  have "chain_length (FAT_TABLE_0 vol1) c 0 = Some 1"
    using n by (simp add: chain_length.simps [of _ c] chain_length.simps [of _ 4095])
  moreover have "load_chain vol1 c [] = Some (disk vol1 (c + 1))"
    using n s c by (auto simp: load_chain.simps [of _ c] load_chain.simps [of _ 4095] read_one)
  ultimately show ?thesis using n by (simp add: load_fat_cluster_chain_def get_cluster_chain_length_def)
qed

lemma vol1_ok: "volume_lists vol1 vol1_lists {2}"
proof -
  have r: "root_directory vol1 = concat (map enc_item (vol1_lists 0)) @ 0 # replicate 447 0"
    by (simp only: vol1_def vol0_def blank_448 fat_fs.simps)
  have d: "load_fat_cluster_chain vol1 2 = Some (concat (map enc_item (vol1_lists 2)) @ 0 # replicate 447 0)"
    using vol1_chain [of 2] by (simp add: vol1_disk vol1_disk_at)
  have l: "\<forall>c \<in> insert 0 {2 :: nat}. \<forall>d \<in> set (vol1_lists c). item_ok d \<and> 0x20 \<notin> set (item_name d)"
    by code_simp
  show ?thesis unfolding volume_lists_def using r d l by blast
qed

lemma vol1_walk:
  "find_name (of_str ''boot'') 0 None (vol1_lists 0) = Some 32" "cluster_at vol1_lists 0 32 = 2"
  "walk vol1_lists {2} 2 [of_str ''startup.nsh''] = Some 3"
proof -
  have l: "vol1_lists 0 = [Short kernel_elf, Short boot_dir]" "vol1_lists 2 = [Long [startup_piece] startup_nsh]"
    by (simp_all add: vol1_lists_def)
  have c: "casefold (item_name (Short kernel_elf)) = casefold (of_str ''kernel.elf'')"
    "casefold (item_name (Short boot_dir)) = casefold (of_str ''boot'')"
    "casefold (item_name (Long [startup_piece] startup_nsh)) = casefold (of_str ''startup.nsh'')"
    "casefold (of_str ''kernel.elf'') \<noteq> casefold (of_str ''boot'')"
    "length kernel_elf = 32" "length boot_dir = 32" "length startup_piece = 32" "length startup_nsh = 32"
    by code_simp+
  show "find_name (of_str ''boot'') 0 None (vol1_lists 0) = Some 32" unfolding l by (simp add: c Let_def del: item_name.simps)
  have "rd16 boot_dir 26 = 2" "rd16 startup_nsh 26 = 3"
    by (simp_all add: rd16_def boot_dir_def startup_nsh_def of_str_def nth_append)
  note e = this
  show "cluster_at vol1_lists 0 32 = 2" unfolding cluster_at_def l entry_of_def by (simp add: c e)
  have "find_name (of_str ''startup.nsh'') 0 None (vol1_lists 2) = Some 32" unfolding l by (simp add: c Let_def del: item_name.simps)
  moreover have "cluster_at vol1_lists 2 32 = 3" unfolding cluster_at_def l entry_of_def by (simp add: c e)
  ultimately show "walk vol1_lists {2} 2 [of_str ''startup.nsh''] = Some 3" by (simp add: of_str_def)
qed

theorem read_file_follows_path_witness:
  "read_file vol1 (of_str ''/boot/startup.nsh'' @ [0]) = Some (replicate 512 66)"
proof -
  have h: "cstr (of_str ''/boot/startup.nsh'')" "0x20 \<notin> set (of_str ''/boot/startup.nsh'')"
    by (simp_all add: of_str_def)
  have s: "of_str ''/boot/startup.nsh'' = 47 # of_str ''boot'' @ 47 # of_str ''startup.nsh''"
    "47 \<notin> set (of_str ''boot'')" "47 \<notin> set (of_str ''startup.nsh'')" by (simp_all add: of_str_def)
  have p: "path_components (of_str ''/boot/startup.nsh'') = [of_str ''boot'', of_str ''startup.nsh'']"
    unfolding s(1) by (simp add: path_components_def components_split components_single s(2,3))
  have w: "walk vol1_lists {2} (cluster_at vol1_lists 0 32) [of_str ''startup.nsh''] = Some 3"
    unfolding vol1_walk(2) by (rule vol1_walk(3))
  have "disk vol1 (3 + 1) = replicate 512 66"
    unfolding vol1_disk vol1_disk_def by (rule if_not_P) simp
  moreover have "read_file vol1 (of_str ''/boot/startup.nsh'' @ [0]) = load_fat_cluster_chain vol1 3"
    by (rule read_file_follows_path [OF vol1_ok h p vol1_walk(1) w])
  moreover have "load_fat_cluster_chain vol1 3 = Some (disk vol1 (3 + 1))" by (rule vol1_chain) (rule disjI2, rule refl)
  ultimately show ?thesis by (simp only:)
qed

text \<open>
  Creating an entry in a directory that still has a blank entry does not use the blank one: the
  last entry in use is cleared and returned, and a directory with no entry at all is a NULL
  write.
\<close>

theorem create_entry_overwrites_last:
  assumes "\<forall>e \<in> set es. entry_ok e \<and> casefold (short_name e) \<noteq> casefold nm" and "cstr nm"
    and "length (concat es) < 512"
  shows "create_entry_in_directory (concat es @ replicate 32 0 @ r) (nm @ 0 # s) =
    (if es = [] then None
     else Some (Some (32 * (length es - 1)), concat (butlast es) @ replicate 64 0 @ r))"
proof (cases es rule: rev_cases)
  case Nil
  then show ?thesis
    using create_entry_shorts [OF assms(1,2), of _ "[]" r s None None] by (simp add: create_entry_in_directory_def)
next
  case (snoc es' e)
  have l: "length (concat es') = 32 * length es'" "length e = 32"
    using assms(1) snoc by (auto simp: length_concat entry_ok_def sum_list_triv cong: map_cong)
  have "blk_put (concat es @ replicate 32 0 @ r) (32 * length es') (replicate 32 0) =
      Some (concat es' @ replicate 64 0 @ r)"
    using l snoc by (simp add: blk_put_def replicate_add [of 32 32, simplified])
  then show ?thesis
    using create_entry_shorts [OF assms(1,2), of "concat es @ replicate 32 0 @ r" "[]" r s None None] assms(3) snoc
    by (simp add: create_entry_in_directory_def)
qed

theorem create_entry_overwrites_last_witness:
  "create_entry_in_directory (concat [kernel_elf, startup_nsh] @ replicate 32 0 @ replicate 416 0)
     (of_str ''NEW'' @ [0]) = Some (Some 32, kernel_elf @ replicate 64 0 @ replicate 416 0)"
proof -
  have "\<forall>e \<in> set [kernel_elf, startup_nsh]. entry_ok e \<and> casefold (short_name e) \<noteq> casefold (of_str ''NEW'')"
    "cstr (of_str ''NEW'')" "length (concat [kernel_elf, startup_nsh]) < 512" by code_simp+
  from create_entry_overwrites_last [OF this, of "replicate 416 0" "[]"] show ?thesis by simp
qed

end
