(* ===== verification/Vfs.thy ===== *)
theory Vfs
  imports SortedList RingBuffer FatDir
begin

text \<open>
  The virtual file system of \<open>kernel/src/vfs.c\<close>: nodes that point to their parent and to a sorted
  list of children, path navigation, creation of folders, files and pipes, reading and writing,
  and the population of the tree from the FAT12 volume (\<open>fat_populate_vfs_directory\<close> of
  \<open>kernel/src/fat.c\<close>).  Nodes live in a store from addresses to records, so that parents,
  children, open files and working directories share them as the C pointers do.  Directories
  are shown to satisfy the contract of a sorted directory (\<open>sorted_dir\<close>).
\<close>

section \<open>Nodes\<close>

definition VFS_ROOT :: u64 where "VFS_ROOT = 1"
definition VFS_MOUNT :: u64 where "VFS_MOUNT = 2"
definition VFS_DIRECTORY :: u64 where "VFS_DIRECTORY = 4"
definition VFS_FILE :: u64 where "VFS_FILE = 8"
definition VFS_PIPE :: u64 where "VFS_PIPE = 16"
definition VFS_VOLATILE :: u64 where "VFS_VOLATILE = 32"

text \<open>What \<open>data_cache\<close> points to: nothing yet, a file's bytes, a pipe's queue, freed memory.\<close>

datatype cache = Uncached | Bytes "u8 list" | Queue circular_buffer | Freed

text \<open>
  \<open>children\<close> is \<^const>\<open>None\<close> for a pointer that was never set.  The four function pointers and
  \<open>segment_table\<close> of the struct are never used.
\<close>

record vfs_node =
  name :: "u8 list"
  parent :: nat
  flags :: u64
  fsize :: nat
  drive_id :: nat
  location :: nat
  owner :: nat
  permissions :: nat
  block_size :: nat
  data_cache :: cache
  open_references :: nat
  children :: "(nat, u8 list) sorted_list option"

text \<open>
  \<open>spare\<close> are the blocks the next calls of \<open>kmalloc(sizeof(vfs_node))\<close> return, with what their
  memory holds; when it runs out, the allocation never returns.  \<open>exp_false\<close> is the
  compare-and-exchange global of the circular buffers.
\<close>

record vfs =
  nodes :: "nat \<Rightarrow> vfs_node option"
  spare :: "(nat \<times> vfs_node) list"
  vol :: fat_fs
  exp_false :: bool

definition kmalloc_node :: "vfs \<Rightarrow> (nat \<times> vfs_node \<times> vfs) option" where
  "kmalloc_node s = (case spare s of [] \<Rightarrow> None | (p, n) # r \<Rightarrow> Some (p, n, s\<lparr>spare := r\<rparr>))"

definition put_node :: "nat \<Rightarrow> vfs_node \<Rightarrow> vfs \<Rightarrow> vfs" where
  "put_node p n s = s\<lparr>nodes := (nodes s)(p \<mapsto> n)\<rparr>"

text \<open>The two comparators follow the pointers they are given in the memory of the moment.\<close>

definition cmp_vfs_node_by_filename :: "(nat \<Rightarrow> vfs_node option) \<Rightarrow> nat \<Rightarrow> nat \<Rightarrow> int option" where
  "cmp_vfs_node_by_filename H a b = do { x \<leftarrow> H a; y \<leftarrow> H b; strcmp (name x) (name y) }"

definition search_cmp_vfs_node :: "(nat \<Rightarrow> vfs_node option) \<Rightarrow> nat \<Rightarrow> u8 list \<Rightarrow> int option" where
  "search_cmp_vfs_node H a k = do { x \<leftarrow> H a; strcmp (name x) k }"

definition new_children :: "(nat, u8 list) sorted_list" where
  "new_children = create_sorted_list (cmp_vfs_node_by_filename Map.empty) (search_cmp_vfs_node Map.empty)"

text \<open>
  A children list with its function pointers resolved against the store: all lists are created
  with the two comparators above, by \<open>vfs_create_root\<close> or copied by \<open>vfs_create_folder\<close>.
\<close>

definition with_store :: "(nat \<Rightarrow> vfs_node option) \<Rightarrow> (nat, u8 list) sorted_list \<Rightarrow> (nat, u8 list) sorted_list" where
  "with_store H l = l\<lparr>sl_cmp := cmp_vfs_node_by_filename H, sl_search_cmp := search_cmp_vfs_node H\<rparr>"

text \<open>\<open>sorted_list_insert(cur->children, n)\<close>\<close>

definition add_child :: "nat \<Rightarrow> nat \<Rightarrow> vfs \<Rightarrow> vfs option" where
  "add_child cur p s = do {
     d \<leftarrow> nodes s cur;
     l \<leftarrow> children d;
     l \<leftarrow> sorted_list_insert (with_store (nodes s) l) p;
     Some (put_node cur (d\<lparr>children := Some l\<rparr>) s) }"

definition vfs_create_root :: "nat \<Rightarrow> vfs \<Rightarrow> (nat \<times> vfs) option" where
  "vfs_create_root root_drive s = do {
     (root, n, s) \<leftarrow> kmalloc_node s;
     nm \<leftarrow> strcpy (name n) [47, 0];
     Some (root, put_node root (n\<lparr>name := nm, fsize := 0, flags := VFS_DIRECTORY OR VFS_MOUNT OR VFS_ROOT,
       drive_id := root_drive, children := Some new_children, parent := root\<rparr>) s) }"

definition slots :: "(nat, u8 list) sorted_list \<Rightarrow> nat slot list option" where
  "slots l = blk_get (sl_data l) 0 (sl_size l)"

text \<open>\<open>vfs_free\<close> on each of a list of pointers; the caller's is \<open>vfs_free(root)\<close>.\<close>

partial_function (option) free_nodes :: "nat slot list \<Rightarrow> vfs \<Rightarrow> vfs option" where
  "free_nodes ps s = (case ps of [] \<Rightarrow> Some s
     | e # es \<Rightarrow> (case e of Ptr p \<Rightarrow> do {
         n \<leftarrow> nodes s p;
         s \<leftarrow> (if flags n AND VFS_DIRECTORY \<noteq> 0
               then do { l \<leftarrow> children n; ds \<leftarrow> slots l; free_nodes ds s }
               else Some s);
         free_nodes es (s\<lparr>nodes := (nodes s)(p := None)\<rparr>) }
       | Null \<Rightarrow> None | Unset \<Rightarrow> None))"

definition vfs_free :: "nat \<Rightarrow> vfs \<Rightarrow> vfs option" where
  "vfs_free root s = free_nodes [Ptr root] s"

definition vfs_insert_file ::
  "nat \<Rightarrow> u8 list \<Rightarrow> u64 \<Rightarrow> nat \<Rightarrow> nat \<Rightarrow> nat \<Rightarrow> nat \<Rightarrow> vfs \<Rightarrow> vfs option" where
  "vfs_insert_file cur filename fl sz drive loc bsz s = do {
     (p, n, s) \<leftarrow> kmalloc_node s;
     nm \<leftarrow> strcpy (name n) filename;
     add_child cur p (put_node p (n\<lparr>name := nm, flags := fl, fsize := sz, drive_id := drive, location := loc,
       block_size := bsz, open_references := 0, parent := cur\<rparr>) s) }"

section \<open>Navigation\<close>

text \<open>The loop of \<open>vfs_get_single_entry_from_dir\<close> over the remaining slots.\<close>

fun find_child :: "(nat \<Rightarrow> vfs_node option) \<Rightarrow> u8 list \<Rightarrow> nat slot list \<Rightarrow> nat option option" where
  "find_child H filename [] = Some None"
| "find_child H filename (Ptr p # es) = do {
     n \<leftarrow> H p;
     x \<leftarrow> strcasecmp (name n) filename;
     if x = 0 then Some (Some p) else find_child H filename es }"
| "find_child H filename (Null # es) = None"
| "find_child H filename (Unset # es) = None"

definition vfs_get_single_entry_from_dir ::
  "(nat \<Rightarrow> vfs_node option) \<Rightarrow> nat \<Rightarrow> u8 list \<Rightarrow> nat option option" where
  "vfs_get_single_entry_from_dir H dir filename = do {
     d \<leftarrow> H dir;
     if flags d AND VFS_DIRECTORY = 0 then Some None
     else do {
       x \<leftarrow> strcmp filename [46, 0];
       if x = 0 then Some (Some dir)
       else do {
         y \<leftarrow> strcmp filename [46, 46, 0];
         if y = 0 then Some (Some (parent d))
         else do {
           l \<leftarrow> children d;
           es \<leftarrow> slots l;
           find_child H filename es } } } }"

lemma ucast_scast [simp]: "ucast (scast w :: s32) = w" for w :: u8
  by (rule bit_word_eqI) (auto simp: bit_simps)

lemma strchr_pos: "strchr s c = Some (Some k) \<Longrightarrow> k < length s \<and> scast (s ! k) = c"
  by (induction s c arbitrary: k rule: strchr.induct) (auto split: if_splits)

text \<open>
  The loop of \<open>vfs_navigate_to\<close> at \<open>f\<close>: skip slashes, copy up to the next slash into the cleared
  256-byte array, look it up; \<open>skip_final\<close> stops before the last component.  The inner
  \<^const>\<open>None\<close> is NULL.
\<close>

function navigate_from ::
  "(nat \<Rightarrow> vfs_node option) \<Rightarrow> nat \<Rightarrow> u8 list \<Rightarrow> bool \<Rightarrow> nat option option" where
  "navigate_from H cur f skip_final =
     (let f = dropWhile (\<lambda>c. c = 47) f in
      case strchr f 47 of
        None \<Rightarrow> None
      | Some tok_end \<Rightarrow>
          if skip_final \<and> tok_end = None then Some (Some cur)
          else (case strncpy (replicate 256 0) f (case tok_end of None \<Rightarrow> 256 | Some k \<Rightarrow> k) of
                  None \<Rightarrow> None
                | Some cur_file_name \<Rightarrow>
                    (case vfs_get_single_entry_from_dir H cur cur_file_name of
                       None \<Rightarrow> None
                     | Some None \<Rightarrow> Some None
                     | Some (Some c) \<Rightarrow>
                         (case tok_end of
                            None \<Rightarrow> Some (Some c)
                          | Some k \<Rightarrow> navigate_from H c (drop k f) skip_final))))"
  by pat_completeness auto
termination
proof (relation "measure (\<lambda>(H, cur, f, skip). length (dropWhile (\<lambda>c. c = 47) f))", goal_cases)
  case (2 H cur f skip_final f' tok_end nm r c k)
  then have k: "k < length f'" and at: "scast (f' ! k) = (47 :: s32)" by (auto dest: strchr_pos)
  have "f' ! k = 47"
    using arg_cong [OF at, of "ucast :: s32 \<Rightarrow> u8"] by simp
  then have "dropWhile (\<lambda>c. c = 47) (drop k f') = dropWhile (\<lambda>c. c = 47) (drop (Suc k) f')"
    using k by (simp flip: Cons_nth_drop_Suc)
  moreover have "length (dropWhile (\<lambda>c. c = 47) (drop (Suc k) f')) \<le> length (drop (Suc k) f')"
    by (rule length_dropWhile_le)
  ultimately show ?case using k 2 by auto
qed simp

declare navigate_from.simps [simp del]

definition vfs_navigate_to :: "(nat \<Rightarrow> vfs_node option) \<Rightarrow> nat \<Rightarrow> u8 list \<Rightarrow> bool \<Rightarrow> nat option option" where
  "vfs_navigate_to H cur filepath skip_final = navigate_from H cur filepath skip_final"

section \<open>Opening, creating\<close>

text \<open>
  A path that is not found makes \<open>vfs_open\<close> read through NULL.  The queue of a pipe gets fresh,
  uncleared storage, all of it written before it is read.
\<close>

definition vfs_open :: "nat \<Rightarrow> u8 list \<Rightarrow> vfs \<Rightarrow> (nat \<times> vfs) option" where
  "vfs_open cur filepath s = do {
     r \<leftarrow> vfs_navigate_to (nodes s) cur filepath False;
     p \<leftarrow> r;
     n \<leftarrow> nodes s p;
     n \<leftarrow> (if open_references n = 0
           then if flags n AND VFS_PIPE \<noteq> 0
                then Some (n\<lparr>data_cache := Queue (cb_init 4096 1 (replicate 4096 0))\<rparr>)
                else do { b \<leftarrow> load_fat_cluster_chain (vol s) (location n mod 2 ^ 16);
                          Some (n\<lparr>data_cache := Bytes b\<rparr>) }
           else Some n);
     Some (p, put_node p (n\<lparr>open_references := wrap64 (open_references n + 1)\<rparr>) s) }"

definition vfs_close :: "nat \<Rightarrow> vfs \<Rightarrow> vfs option" where
  "vfs_close file s = do {
     n \<leftarrow> nodes s file;
     Some (if open_references n > 0
           then let r = open_references n - 1 in
                put_node file (n\<lparr>open_references := r, data_cache := (if r = 0 then Freed else data_cache n)\<rparr>) s
           else s) }"

text \<open>\<open>char* ending = strrchr(path, '/'); strncpy(n->name, ending ? ending + 1 : path, 256)\<close>\<close>

definition final_name :: "u8 list \<Rightarrow> u8 list \<Rightarrow> u8 list option" where
  "final_name buf path = do {
     e \<leftarrow> strrchr path 47;
     strncpy buf (case e of None \<Rightarrow> path | Some k \<Rightarrow> drop (k + 1) path) 256 }"

definition vfs_create_pipe :: "nat \<Rightarrow> u8 list \<Rightarrow> vfs \<Rightarrow> (u64 \<times> vfs) option" where
  "vfs_create_pipe cur filename s = do {
     r \<leftarrow> vfs_navigate_to (nodes s) cur filename True;
     case r of None \<Rightarrow> Some (- 1, s)
     | Some cur \<Rightarrow> do {
         (p, n, s) \<leftarrow> kmalloc_node s;
         nm \<leftarrow> final_name (name n) filename;
         s \<leftarrow> add_child cur p (put_node p (n\<lparr>name := nm, fsize := 0,
           flags := VFS_FILE OR VFS_PIPE OR VFS_VOLATILE, open_references := 0, parent := cur\<rparr>) s);
         Some (0, s) } }"

definition vfs_create_folder :: "nat \<Rightarrow> u8 list \<Rightarrow> u64 \<Rightarrow> vfs \<Rightarrow> (u64 \<times> vfs) option" where
  "vfs_create_folder cur dirname extra_flags s = do {
     r \<leftarrow> vfs_navigate_to (nodes s) cur dirname True;
     case r of None \<Rightarrow> Some (- 1, s)
     | Some cur \<Rightarrow> do {
         (p, n, s) \<leftarrow> kmalloc_node s;
         nm \<leftarrow> final_name (name n) dirname;
         d \<leftarrow> nodes s cur;
         l \<leftarrow> children d;
         let kids = create_sorted_list (sl_cmp l) (sl_search_cmp l);
         s \<leftarrow> add_child cur p (put_node p (n\<lparr>name := nm, fsize := 0,
           flags := VFS_DIRECTORY OR extra_flags, open_references := 0, parent := cur,
           children := Some kids\<rparr>) s);
         Some (0, s) } }"

section \<open>Reading and writing\<close>

text \<open>
  The caller's buffer is a byte list that is written from its start; \<open>size_t\<close> sums and differences
  wrap.
\<close>

definition vfs_file_read :: "vfs_node \<Rightarrow> u8 list \<Rightarrow> nat \<Rightarrow> nat \<Rightarrow> (u8 list \<times> nat) option" where
  "vfs_file_read n buf offset cnt = do {
     let cnt = (if wrap64 (offset + cnt) > fsize n then wrap64 (fsize n + (2 ^ 64 - offset)) else cnt);
     bs \<leftarrow> (case data_cache n of Bytes b \<Rightarrow> blk_get b offset cnt | _ \<Rightarrow> None);
     buf \<leftarrow> blk_put buf 0 bs;
     Some (buf, cnt) }"

definition vfs_pipe_read :: "vfs_node \<Rightarrow> bool \<Rightarrow> u8 list \<Rightarrow> nat \<Rightarrow> (vfs_node \<times> bool \<times> u8 list \<times> nat) option" where
  "vfs_pipe_read n x buf cnt = (case data_cache n of
     Queue cb \<Rightarrow> do { (cb, x, buf, k) \<leftarrow> cb_pop cb x buf cnt; Some (n\<lparr>data_cache := Queue cb\<rparr>, x, buf, k) }
   | _ \<Rightarrow> None)"

definition vfs_pipe_write :: "vfs_node \<Rightarrow> bool \<Rightarrow> u8 list \<Rightarrow> nat \<Rightarrow> (vfs_node \<times> bool \<times> nat) option" where
  "vfs_pipe_write n x buf cnt = (case data_cache n of
     Queue cb \<Rightarrow> do { (cb, x, k) \<leftarrow> cb_push cb x buf cnt; Some (n\<lparr>data_cache := Queue cb\<rparr>, x, k) }
   | _ \<Rightarrow> None)"

definition ROUND_4K :: "nat \<Rightarrow> nat" where
  "ROUND_4K x = wrap64 (x + 4095) div 4096 * 4096"

text \<open>\<open>krealloc\<close> keeps the old bytes and zeroes the rest.\<close>

definition grow :: "u8 list \<Rightarrow> nat \<Rightarrow> u8 list" where
  "grow b k = take k b @ replicate (k - length b) 0"

definition vfs_file_write :: "vfs_node \<Rightarrow> u8 list \<Rightarrow> nat \<Rightarrow> nat \<Rightarrow> (vfs_node \<times> nat) option" where
  "vfs_file_write n buf offset cnt = do {
     b \<leftarrow> (case data_cache n of Bytes b \<Rightarrow> Some b | _ \<Rightarrow> None);
     let new_end = wrap64 (offset + cnt);
     let b = (if new_end > ROUND_4K (fsize n) then grow b (ROUND_4K (fsize n) + 4096) else b);
     let sz = (if new_end > fsize n then new_end else fsize n);
     bs \<leftarrow> blk_get buf 0 cnt;
     b \<leftarrow> blk_put b offset bs;
     Some (n\<lparr>data_cache := Bytes b, fsize := sz\<rparr>, cnt) }"

definition vfs_read :: "nat \<Rightarrow> u8 list \<Rightarrow> nat \<Rightarrow> nat \<Rightarrow> vfs \<Rightarrow> (int \<times> u8 list \<times> vfs) option" where
  "vfs_read file buf offset cnt s = do {
     n \<leftarrow> nodes s file;
     if flags n AND VFS_PIPE \<noteq> 0 then do {
       (n, x, buf, k) \<leftarrow> vfs_pipe_read n (exp_false s) buf cnt;
       Some (int k, buf, put_node file n (s\<lparr>exp_false := x\<rparr>)) }
     else if flags n AND VFS_FILE \<noteq> 0 then do {
       (buf, k) \<leftarrow> vfs_file_read n buf offset cnt;
       Some (int k, buf, s) }
     else Some (- 1, buf, s) }"

definition vfs_write :: "nat \<Rightarrow> u8 list \<Rightarrow> nat \<Rightarrow> nat \<Rightarrow> vfs \<Rightarrow> (int \<times> vfs) option" where
  "vfs_write file buf offset cnt s = do {
     n \<leftarrow> nodes s file;
     if flags n AND VFS_PIPE \<noteq> 0 then do {
       (n, x, k) \<leftarrow> vfs_pipe_write n (exp_false s) buf cnt;
       Some (int k, put_node file n (s\<lparr>exp_false := x\<rparr>)) }
     else if flags n AND VFS_FILE \<noteq> 0 then do {
       (n, k) \<leftarrow> vfs_file_write n buf offset cnt;
       Some (int k, put_node file n s) }
     else Some (- 1, s) }"

section \<open>Paths of nodes, printing\<close>

text \<open>The result is the buffer and the index behind the path; it does not end on a parent cycle.\<close>

partial_function (option) vfs_get_full_filepath ::
  "(nat \<Rightarrow> vfs_node option) \<Rightarrow> nat \<Rightarrow> u8 list \<Rightarrow> nat \<Rightarrow> (u8 list \<times> nat) option" where
  "vfs_get_full_filepath H node buf max_sz = do {
     n \<leftarrow> H node;
     if flags n AND VFS_ROOT \<noteq> 0 then do {
       buf \<leftarrow> arr_put buf 0 47;
       buf \<leftarrow> arr_put buf 1 0;
       Some (buf, 1) }
     else do {
       (buf, index) \<leftarrow> vfs_get_full_filepath H (parent n) buf max_sz;
       len \<leftarrow> strlen (name n);
       (buf, index) \<leftarrow> (if index + 1 + len < max_sz then do {
           p \<leftarrow> H (parent n);
           (buf, index) \<leftarrow> (if flags p AND VFS_ROOT = 0
                            then do { b \<leftarrow> arr_put buf index 47; Some (b, index + 1) }
                            else Some (buf, index));
           buf \<leftarrow> strncpy_loop buf index (name n) 256;
           Some (buf, index) }
         else Some (buf, index));
       Some (buf, index + len) } }"

text \<open>What \<open>print_vfs_recursive\<close> sends to \<open>kprintf\<close>, for a list of nodes at one level.\<close>

partial_function (option) print_nodes :: "(nat \<Rightarrow> vfs_node option) \<Rightarrow> nat slot list \<Rightarrow> nat \<Rightarrow> u8 list option" where
  "print_nodes H es level = (case es of [] \<Rightarrow> Some []
     | e # es \<Rightarrow> (case e of Ptr p \<Rightarrow> do {
         n \<leftarrow> H p;
         len \<leftarrow> strlen (name n);
         sub \<leftarrow> (if flags n AND VFS_DIRECTORY \<noteq> 0
                 then do { l \<leftarrow> children n; ds \<leftarrow> slots l; print_nodes H ds (level + 1) }
                 else Some []);
         rest \<leftarrow> print_nodes H es level;
         Some (replicate level 9 @ [27, 91, 51, if flags n AND VFS_DIRECTORY \<noteq> 0 then 50 else 51, 109] @
           take len (name n) @ [10] @ sub @ rest) }
       | Null \<Rightarrow> None | Unset \<Rightarrow> None))"

definition print_vfs_recursive :: "(nat \<Rightarrow> vfs_node option) \<Rightarrow> nat \<Rightarrow> nat \<Rightarrow> u8 list option" where
  "print_vfs_recursive H dir level = print_nodes H [Ptr dir] level"

section \<open>The tree of a FAT12 volume\<close>

text \<open>
  The loop of \<open>fat_populate_vfs_directory\<close> at offset \<open>i\<close>; names are read as in \<open>find_entry\<close>.  The
  entry after the last one is read before the bound is tested.
\<close>

function populate_loop ::
  "u8 list \<Rightarrow> nat \<Rightarrow> nat \<Rightarrow> nat \<Rightarrow> u8 list \<Rightarrow> bool \<Rightarrow> vfs \<Rightarrow> vfs option" where
  "populate_loop dir dir_size node i tmp lfn_found s =
     (if length dir \<le> i then None
      else if dir ! i = 0 \<or> 512 * dir_size \<le> i then Some s
      else if dir ! i = 0xE5 then populate_loop dir dir_size node (i + 32) tmp lfn_found s
      else case ent_at dir i of None \<Rightarrow> None | Some b \<Rightarrow>
        if b ! 11 = 0xf
        then (case lfn_step tmp lfn_found b of None \<Rightarrow> None
              | Some t \<Rightarrow> populate_loop dir dir_size node (i + 32) t True s)
        else (case (if lfn_found then Some tmp else read_f12_entry_name tmp (entry_of b)) of
                None \<Rightarrow> None
              | Some t \<Rightarrow>
                  (case (do { x \<leftarrow> strcmp t [46, 0]; y \<leftarrow> strcmp t [46, 46, 0];
                              if x = 0 \<or> y = 0 then Some s
                              else if attributes (entry_of b) AND 0x10 \<noteq> 0
                              then map_option snd (vfs_create_folder node t 0 s)
                              else vfs_insert_file node t VFS_FILE (de_size (entry_of b)) 0
                                     (first_cluster_low_16 (entry_of b)) 512 s }) of
                     None \<Rightarrow> None
                   | Some s' \<Rightarrow> populate_loop dir dir_size node (i + 32) t False s')))"
  by pat_completeness auto
termination
  by (relation "measure (\<lambda>(dir, ds, node, i, tmp, l, s). length dir - i)") auto

declare populate_loop.simps [simp del]

definition fat_populate_vfs_directory :: "nat \<Rightarrow> u8 list \<Rightarrow> vfs \<Rightarrow> vfs option" where
  "fat_populate_vfs_directory dir dir_path s = do {
     x \<leftarrow> strcmp dir_path [47, 0];
     (start_entry, dir_size) \<leftarrow>
       (if x = 0 then Some (root_directory (vol s), 14)
        else do {
          base_cluster \<leftarrow> get_file_base_cluster (vol s) dir_path;
          b \<leftarrow> load_fat_cluster_chain (vol s) base_cluster;
          k \<leftarrow> get_cluster_chain_length (vol s) base_cluster;
          Some (b, k) });
     populate_loop start_entry dir_size dir 0 (replicate 256 0) False s }"

text \<open>
  \<open>vfs_recursive_populate\<close>, the \<open>for\<close> loop at index \<open>i\<close> (\<open>todo\<close> is true before the directory itself
  has been populated).
\<close>

partial_function (option) populate_tree ::
  "nat \<Rightarrow> u8 list \<Rightarrow> nat \<Rightarrow> nat option \<Rightarrow> vfs \<Rightarrow> vfs option" where
  "populate_tree root path max_level idx s = (case idx of
     None \<Rightarrow> do {
       s \<leftarrow> fat_populate_vfs_directory root path s;
       if max_level = 0 then Some s else populate_tree root path max_level (Some 0) s }
   | Some i \<Rightarrow> do {
       n \<leftarrow> nodes s root;
       l \<leftarrow> children n;
       if i < sl_size l then do {
         e \<leftarrow> arr_get (sl_data l) i;
         cur \<leftarrow> (case e of Ptr p \<Rightarrow> Some p | _ \<Rightarrow> None);
         c \<leftarrow> nodes s cur;
         s \<leftarrow> (if flags c AND VFS_DIRECTORY \<noteq> 0 \<and> flags c AND VFS_VOLATILE = 0
               then do {
                 pathlen \<leftarrow> strlen path;
                 dir \<leftarrow> strcpy (replicate (pathlen + 257) 0) path;
                 dir \<leftarrow> strncpy_loop dir pathlen (name c) 256;
                 k \<leftarrow> strlen dir;
                 dir \<leftarrow> strcpy_loop dir k [47, 0];
                 populate_tree cur dir (max_level - 1) None s }
               else Some s);
         populate_tree root path max_level (Some (i + 1)) s }
       else Some s })"

definition vfs_recursive_populate :: "nat \<Rightarrow> u8 list \<Rightarrow> nat \<Rightarrow> vfs \<Rightarrow> vfs option" where
  "vfs_recursive_populate root path max_level s = populate_tree root path max_level None s"

section \<open>Directories are sorted lists of names\<close>

definition node_name :: "(nat \<Rightarrow> vfs_node option) \<Rightarrow> nat \<Rightarrow> u8 list" where
  "node_name H p = cstr_at (name (the (H p))) 0"

definition named :: "(nat \<Rightarrow> vfs_node option) \<Rightarrow> nat \<Rightarrow> bool" where
  "named H p \<longleftrightarrow> (\<exists>n. H p = Some n \<and> 0 \<in> set (name n))"

abbreviation name_key :: "(nat \<Rightarrow> vfs_node option) \<Rightarrow> nat \<Rightarrow> int list" where
  "name_key H p \<equiv> strkey (node_name H p)"

lemma terminated: "0 \<in> set b \<Longrightarrow> \<exists>r. b = cstr_at b 0 @ 0 # r" for b :: "u8 list"
  by (induction b) (auto simp: cstr_at_def)

lemma cstr_cstr_at [simp]: "cstr (cstr_at b 0)"
  unfolding cstr_at_def by (rule cstr_takeWhile)

lemma cstr_at_cstr [simp]: "cstr s \<Longrightarrow> cstr_at (s @ 0 # r) 0 = s"
  by (induction s) (auto simp: cstr_at_def)

lemma strcmp_terminated:
  assumes "0 \<in> set a" "0 \<in> set b"
  shows "\<exists>x. strcmp a b = Some x \<and> (x = 0 \<longleftrightarrow> strkey (cstr_at a 0) = strkey (cstr_at b 0)) \<and>
    (x < 0 \<longleftrightarrow> strkey (cstr_at a 0) < strkey (cstr_at b 0))"
proof -
  obtain r r' where "a = cstr_at a 0 @ 0 # r" "b = cstr_at b 0 @ 0 # r'"
    using terminated [OF assms(1)] terminated [OF assms(2)] by blast
  then show ?thesis
    using strcmp_cstr [of "cstr_at a 0" "cstr_at b 0" r r'] by (simp add: strkey_inj)
qed

interpretation vdir: sorted_dir "cmp_vfs_node_by_filename H" "search_cmp_vfs_node H"
  "name_key H" "\<lambda>k. strkey (cstr_at k 0)" "named H" "\<lambda>k. 0 \<in> set k" for H
proof unfold_locales
  fix a k assume "named H a" "named H k"
  then show "\<exists>x. cmp_vfs_node_by_filename H a k = Some x \<and> (x = 0 \<longleftrightarrow> name_key H a = name_key H k) \<and>
      (x < 0 \<longleftrightarrow> name_key H a < name_key H k)"
    using strcmp_terminated by (auto simp: named_def cmp_vfs_node_by_filename_def node_name_def)
next
  fix a and k :: "u8 list" assume "named H a" "0 \<in> set k"
  then show "\<exists>x. search_cmp_vfs_node H a k = Some x \<and> (x = 0 \<longleftrightarrow> name_key H a = strkey (cstr_at k 0)) \<and>
      (x < 0 \<longleftrightarrow> name_key H a < strkey (cstr_at k 0))"
    using strcmp_terminated by (auto simp: named_def search_cmp_vfs_node_def node_name_def)
qed

text \<open>
  A usable file name, and a directory in order: its children are named, distinct up to case,
  sorted, and know their parent.
\<close>

definition good_name :: "u8 list \<Rightarrow> bool" where
  "good_name c \<longleftrightarrow> cstr c \<and> c \<noteq> [] \<and> 47 \<notin> set c \<and> 32 \<notin> set c \<and> c \<noteq> [46] \<and> c \<noteq> [46, 46] \<and> length c < 255"

definition kids :: "(nat \<Rightarrow> vfs_node option) \<Rightarrow> nat \<Rightarrow> nat list \<Rightarrow> bool" where
  "kids H d xs \<longleftrightarrow> (\<exists>n l. H d = Some n \<and> flags n AND VFS_DIRECTORY \<noteq> 0 \<and> children n = Some l \<and>
     sl_rep (cmp_vfs_node_by_filename H) (search_cmp_vfs_node H) (name_key H) (named H) (with_store H l) xs)"

definition dir_ok :: "(nat \<Rightarrow> vfs_node option) \<Rightarrow> nat \<Rightarrow> nat list \<Rightarrow> bool" where
  "dir_ok H d xs \<longleftrightarrow> kids H d xs \<and> distinct (map (casefold \<circ> node_name H) xs) \<and>
     (\<forall>x \<in> set xs. good_name (node_name H x) \<and>
        (\<exists>m. H x = Some m \<and> parent m = d \<and> flags m AND VFS_ROOT = 0))"

text \<open>Every directory is in order, every parent is a directory, and spare blocks are unused.\<close>

definition vfs_inv :: "vfs \<Rightarrow> bool" where
  "vfs_inv s \<longleftrightarrow>
     (\<forall>d n. nodes s d = Some n \<and> flags n AND VFS_DIRECTORY \<noteq> 0 \<longrightarrow> (\<exists>xs. dir_ok (nodes s) d xs)) \<and>
     distinct (map fst (spare s)) \<and>
     (\<forall>(p, n) \<in> set (spare s). nodes s p = None \<and> length (name n) = 256)"

lemma kids_slots:
  "kids H d xs \<Longrightarrow> \<exists>n l. H d = Some n \<and> flags n AND VFS_DIRECTORY \<noteq> 0 \<and> children n = Some l \<and>
     slots l = Some (map Ptr xs)"
  unfolding kids_def
proof (elim exE conjE)
  fix n l
  assume "H d = Some n" "flags n AND VFS_DIRECTORY \<noteq> 0" "children n = Some l"
    and rep: "sl_rep (cmp_vfs_node_by_filename H) (search_cmp_vfs_node H) (name_key H) (named H) (with_store H l) xs"
  moreover have "slots l = Some (map Ptr xs)"
    using rep by (auto simp: sl_rep_def sl_holds_def with_store_def slots_def blk_get_def)
  ultimately show ?thesis by blast
qed

lemma kids_named: "kids H d xs \<Longrightarrow> x \<in> set xs \<Longrightarrow> named H x"
  by (auto simp: kids_def sl_rep_def)

section \<open>Lookup in a directory\<close>

lemma find_child_find:
  assumes "\<forall>x \<in> set xs. named H x \<and> 0x20 \<notin> set (node_name H x)" and "cstr c"
  shows "find_child H (c @ 0 # r) (map Ptr xs) =
    Some (find (\<lambda>x. casefold (node_name H x) = casefold c) xs)"
  using assms(1)
proof (induction xs)
  case (Cons x xs)
  then obtain n where n: "H x = Some n" "0 \<in> set (name n)" by (auto simp: named_def)
  obtain r' where r': "name n = node_name H x @ 0 # r'"
    using terminated [OF n(2)] n(1) by (auto simp: node_name_def)
  have "cstr (node_name H x)" by (simp add: node_name_def)
  then obtain k where "strcasecmp (name n) (c @ 0 # r) = Some k"
    "k = 0 \<longleftrightarrow> casefold (node_name H x) = casefold c"
    using strcasecmp_cstr [of "node_name H x" c r' r] assms(2) Cons.prems unfolding r' casefold_def by auto
  then show ?case using n Cons by auto
qed simp

lemma strcmp_const:
  "cstr c \<Longrightarrow> cstr t \<Longrightarrow> \<exists>x. strcmp (c @ 0 # r) (t @ [0]) = Some x \<and> (x = 0 \<longleftrightarrow> c = t)"
  using strcmp_cstr [of c t r "[]"] by auto

lemma get_single_entry:
  assumes "dir_ok H d xs" and "good_name c"
  shows "vfs_get_single_entry_from_dir H d (c @ 0 # r) =
    Some (find (\<lambda>x. casefold (node_name H x) = casefold c) xs)"
proof -
  have k: "kids H d xs" and g: "\<forall>x \<in> set xs. good_name (node_name H x)"
    using assms(1) by (auto simp: dir_ok_def)
  obtain n l where n: "H d = Some n" "flags n AND VFS_DIRECTORY \<noteq> 0" "children n = Some l"
    "slots l = Some (map Ptr xs)" using kids_slots [OF k] by blast
  have c: "cstr c" "c \<noteq> [46]" "c \<noteq> [46, 46]" using assms(2) by (auto simp: good_name_def)
  obtain x y where "strcmp (c @ 0 # r) [46, 0] = Some x" "x \<noteq> 0" "strcmp (c @ 0 # r) [46, 46, 0] = Some y" "y \<noteq> 0"
    using strcmp_const [OF c(1), of "[46]" r] strcmp_const [OF c(1), of "[46, 46]" r] c by auto
  moreover have "find_child H (c @ 0 # r) (map Ptr xs) = Some (find (\<lambda>x. casefold (node_name H x) = casefold c) xs)"
    by (rule find_child_find) (use g c(1) kids_named [OF k] in \<open>auto simp: good_name_def\<close>)
  ultimately show ?thesis using n by (simp add: vfs_get_single_entry_from_dir_def)
qed

lemma find_the_kid:
  assumes "distinct (map f xs)" and "x \<in> set xs"
  shows "find (\<lambda>y. f y = f x) xs = Some x"
  using assms by (induction xs) auto

section \<open>Navigation\<close>

text \<open>The names along a path from \<open>d\<close> down to \<open>p\<close>.\<close>

fun names_path :: "(nat \<Rightarrow> vfs_node option) \<Rightarrow> nat \<Rightarrow> u8 list list \<Rightarrow> nat \<Rightarrow> bool" where
  "names_path H d [] p \<longleftrightarrow> p = d"
| "names_path H d (c # cs) p \<longleftrightarrow>
     (\<exists>xs x. dir_ok H d xs \<and> x \<in> set xs \<and> node_name H x = c \<and> names_path H x cs p)"

definition join_path :: "u8 list list \<Rightarrow> u8 list" where
  "join_path cs = concat (map (Cons 47) cs)"

lemma strchr_absent: "47 \<notin> set c \<Longrightarrow> cstr c \<Longrightarrow> strchr (c @ 0 # r) 47 = Some None"
proof (induction c)
  case (Cons a c)
  have "scast a \<noteq> (47 :: s32)"
  proof
    assume "scast a = (47 :: s32)"
    from arg_cong [OF this, of "ucast :: s32 \<Rightarrow> u8"] show False using Cons.prems by simp
  qed
  with Cons show ?case by auto
qed simp

lemma strchr_first: "47 \<notin> set c \<Longrightarrow> cstr c \<Longrightarrow> strchr (c @ 47 # r) 47 = Some (Some (length c))"
proof (induction c)
  case Nil
  have "scast (47 :: u8) = (47 :: s32)" by simp
  then show ?case by simp
next
  case (Cons a c)
  have "scast a \<noteq> (47 :: s32)"
  proof
    assume "scast a = (47 :: s32)"
    from arg_cong [OF this, of "ucast :: s32 \<Rightarrow> u8"] show False using Cons.prems by simp
  qed
  with Cons show ?case by auto
qed

lemma dropWhile_name: "good_name c \<Longrightarrow> dropWhile (\<lambda>c. c = 47) (c @ f) = c @ f"
  by (cases c) (auto simp: good_name_def)

text \<open>One component, followed by the terminator or by a slash.\<close>

lemma navigate_last:
  assumes "dir_ok H d xs" and "x \<in> set xs"
  shows "navigate_from H d (47 # node_name H x @ 0 # r) False = Some (Some x)"
proof -
  let ?c = "node_name H x"
  have g: "good_name ?c" and ds: "distinct (map (casefold \<circ> node_name H) xs)"
    using assms by (auto simp: dir_ok_def)
  have c: "47 \<notin> set ?c" "cstr ?c" "length ?c < 255" using g by (auto simp: good_name_def)
  obtain r' where cp: "strncpy (replicate 256 0) (?c @ 0 # r) 256 = Some (?c @ 0 # r')"
    using strncpy_loop_at [OF c(2), of 256 0 "replicate 256 0" r] c(3)
    by (cases "255 - length ?c") (auto simp: strncpy_def)
  show ?thesis
    using cp strchr_absent [OF c(1,2)] get_single_entry [OF assms(1) g, of r']
      find_the_kid [OF ds assms(2)] dropWhile_name [OF g, of "0 # r"]
    by (subst navigate_from.simps) (simp add: Let_def comp_def)
qed

lemma navigate_step:
  assumes "dir_ok H d xs" and "x \<in> set xs"
  shows "navigate_from H d (47 # node_name H x @ 47 # r) sk = navigate_from H x (47 # r) sk"
proof -
  let ?c = "node_name H x"
  have g: "good_name ?c" and ds: "distinct (map (casefold \<circ> node_name H) xs)"
    using assms by (auto simp: dir_ok_def)
  have c: "47 \<notin> set ?c" "cstr ?c" "length ?c < 255" using g by (auto simp: good_name_def)
  obtain k where k: "256 - length ?c = Suc k" using c(3) by (cases "256 - length ?c") auto
  have cp: "strncpy (replicate 256 0) (?c @ 47 # r) (length ?c) = Some (?c @ 0 # replicate k 0)"
    using strncpy_loop_exact [of ?c 0 "replicate 256 0" "47 # r"] c k by (simp add: strncpy_def)
  show ?thesis
    using cp strchr_first [OF c(1,2)] get_single_entry [OF assms(1) g, of "replicate k 0"]
      find_the_kid [OF ds assms(2)] dropWhile_name [OF g, of "47 # r"]
    by (subst navigate_from.simps) (simp add: Let_def comp_def)
qed

lemma names_path_snoc:
  "names_path H d (cs @ [c]) p \<longleftrightarrow>
   (\<exists>e xs. names_path H d cs e \<and> dir_ok H e xs \<and> p \<in> set xs \<and> node_name H p = c)"
  by (induction cs arbitrary: d) auto

lemma join_path_simps [simp]:
  "join_path [] = []" "join_path (c # cs) = 47 # c @ join_path cs"
  "join_path (cs @ [c]) = join_path cs @ 47 # c"
  by (simp_all add: join_path_def)

text \<open>Walking down a path of names, whatever \<open>cs\<close> stands for the last name.\<close>

lemma navigate_names:
  "names_path H d cs e \<Longrightarrow> navigate_from H d (join_path cs @ 47 # r) sk = navigate_from H e (47 # r) sk"
proof (induction cs arbitrary: d)
  case (Cons c cs)
  then obtain xs x where x: "dir_ok H d xs" "x \<in> set xs" "node_name H x = c" "names_path H x cs e" by auto
  show ?case
  proof (cases cs)
    case Nil
    then show ?thesis using navigate_step [OF x(1,2), of r sk] x by simp
  next
    case (Cons b bs)
    then have "navigate_from H d (join_path (c # cs) @ 47 # r) sk =
        navigate_from H x (join_path cs @ 47 # r) sk"
      using navigate_step [OF x(1,2), of "b @ join_path bs @ 47 # r" sk] x(3) by simp
    then show ?thesis using Cons.IH [OF x(4)] by simp
  qed
qed simp

lemma navigate_names_path:
  assumes "names_path H d cs p" and "cs \<noteq> []"
  shows "vfs_navigate_to H d (join_path cs @ 0 # r) False = Some (Some p)"
proof -
  obtain bs c where cs: "cs = bs @ [c]" using assms(2) by (cases cs rule: rev_cases) auto
  obtain e xs where e: "names_path H d bs e" "dir_ok H e xs" "p \<in> set xs" "node_name H p = c"
    using assms(1) unfolding cs names_path_snoc by blast
  show ?thesis
    using navigate_names [OF e(1), of "c @ 0 # r" False] navigate_last [OF e(2,3), of r] e(4)
    by (simp add: vfs_navigate_to_def cs)
qed

section \<open>The path of a node\<close>

lemma full_filepath_names:
  assumes root: "H root = Some rn" "flags rn AND VFS_ROOT \<noteq> 0"
  shows "names_path H root cs p \<Longrightarrow> length (join_path cs) + 257 \<le> length buf \<Longrightarrow>
    length (join_path cs) + 2 \<le> max_sz \<Longrightarrow>
    \<exists>r. vfs_get_full_filepath H p buf max_sz =
      Some ((if cs = [] then [47] else join_path cs) @ 0 # r, if cs = [] then 1 else length (join_path cs)) \<and>
      length ((if cs = [] then [47] else join_path cs) @ 0 # r) = length buf"
proof (induction cs arbitrary: p rule: rev_induct)
  case Nil
  then have p: "p = root" by simp
  obtain a b bs where buf: "buf = a # b # bs"
    using Nil.prems by (metis Suc_le_length_iff add_2_eq_Suc' join_path_simps(1) list.size(3) numeral_eq_Suc
        add_0 Suc_leD Suc_le_D pred_numeral_simps(3))
  show ?case unfolding p buf using root
    by (subst vfs_get_full_filepath.simps) (simp add: arr_put_def)
next
  case (snoc c cs)
  obtain e xs where e: "names_path H root cs e" "dir_ok H e xs" "p \<in> set xs" "node_name H p = c"
    using snoc.prems(1) unfolding names_path_snoc by blast
  obtain n where n: "H p = Some n" "parent n = e" "flags n AND VFS_ROOT = 0" and g: "good_name c"
    using e(2-4) by (auto simp: dir_ok_def)
  have kd: "kids H e xs" using e(2) by (simp add: dir_ok_def)
  obtain en where en: "H e = Some en" using kids_slots [OF kd] by blast
  have ne: "flags en AND VFS_ROOT \<noteq> 0 \<longleftrightarrow> cs = []"
  proof (cases cs rule: rev_cases)
    case Nil
    then show ?thesis using e(1) en root by simp
  next
    case (snoc bs b)
    then obtain e' ys where "dir_ok H e' ys" "e \<in> set ys" using e(1) unfolding snoc names_path_snoc by blast
    then show ?thesis using en snoc by (auto simp: dir_ok_def)
  qed
  have "named H p" using kids_named [OF kd e(3)] .
  then obtain q where q: "name n = c @ 0 # q" using terminated [of "name n"] e(4) n(1)
    by (auto simp: named_def node_name_def)
  have c: "cstr c" "length c < 255" using g by (auto simp: good_name_def)
  let ?j = "if cs = [] then [47] else join_path cs"
  obtain r where r: "vfs_get_full_filepath H e buf max_sz =
      Some (?j @ 0 # r, if cs = [] then 1 else length (join_path cs))"
    "length (?j @ 0 # r) = length buf"
    using snoc.IH [OF e(1)] snoc.prems by auto
  have len: "strlen (name n) = Some (length c)" unfolding q by (rule strlen_cstr [OF c(1)])
  obtain k where k: "255 - length c = Suc k" using c(2) by (cases "255 - length c") auto
  have cpy: "strncpy_loop b i (name n) 256 = Some (take i b @ c @ 0 # (replicate k 0 @ drop (i + 255) b))"
    if "i + 255 \<le> length b" for b i
    using strncpy_loop_at [OF c(1), of 256 i b q] c(2) that k unfolding q by simp
  show ?case
  proof (cases "cs = []")
    case True
    have "strncpy_loop (47 # 0 # r) 1 (name n) 256 = Some (47 # c @ 0 # (replicate k 0 @ drop 256 (47 # 0 # r)))"
      using cpy [of 1 "47 # 0 # r"] r(2) True snoc.prems by simp
    moreover have "length (47 # c @ 0 # (replicate k 0 @ drop 256 (47 # 0 # r))) = length buf"
      using r(2) True snoc.prems k c(2) by simp
    ultimately show ?thesis
      using True r(1) n len en ne snoc.prems(3)
      by (subst vfs_get_full_filepath.simps) simp
  next
    case False
    let ?L = "length (join_path cs)"
    let ?b = "join_path cs @ 47 # r"
    have "strncpy_loop ?b (?L + 1) (name n) 256 =
        Some (join_path (cs @ [c]) @ 0 # (replicate k 0 @ drop (?L + 256) ?b))"
      using cpy [of "?L + 1" ?b] r(2) False snoc.prems by simp
    moreover have "length (join_path (cs @ [c]) @ 0 # (replicate k 0 @ drop (?L + 256) ?b)) = length buf"
      using r(2) False snoc.prems k c(2) by simp
    moreover have "arr_put (join_path cs @ 0 # r) ?L 47 = Some ?b" by (simp add: arr_put_def)
    ultimately show ?thesis
      using False r(1) n len en ne snoc.prems(3)
      by (subst vfs_get_full_filepath.simps) simp
  qed
qed

section \<open>Adding an entry to a directory\<close>

lemma kids_alt:
  "kids H d xs \<longleftrightarrow> (\<exists>n l. H d = Some n \<and> flags n AND VFS_DIRECTORY \<noteq> 0 \<and> children n = Some l \<and>
     sl_holds l xs \<and> (\<forall>x \<in> set xs. named H x) \<and> sorted_wrt (<) (map (name_key H) xs))"
proof -
  have "sl_holds (with_store H l) xs = sl_holds l xs" for l by (simp add: sl_holds_def with_store_def)
  moreover have "sl_cmp (with_store H l) = cmp_vfs_node_by_filename H"
    "sl_search_cmp (with_store H l) = search_cmp_vfs_node H" for l by (simp_all add: with_store_def)
  ultimately show ?thesis by (simp add: kids_def sl_rep_def)
qed

text \<open>Two stores that agree on a node's name, parent and flags.\<close>

definition same_head :: "(nat \<Rightarrow> vfs_node option) \<Rightarrow> (nat \<Rightarrow> vfs_node option) \<Rightarrow> nat \<Rightarrow> bool" where
  "same_head H H' x \<longleftrightarrow> (\<exists>n m. H x = Some n \<and> H' x = Some m \<and>
     name m = name n \<and> parent m = parent n \<and> flags m = flags n)"

lemma same_headD: "same_head H H' x \<Longrightarrow> node_name H' x = node_name H x \<and> (named H x \<longrightarrow> named H' x)"
  by (auto simp: same_head_def node_name_def named_def)

lemma dir_ok_frame:
  assumes "dir_ok H d xs" and "\<forall>x \<in> set xs. same_head H H' x"
    and "H d = Some n" "H' d = Some n'" "flags n' = flags n" "children n' = children n"
  shows "dir_ok H' d xs"
proof -
  have nm: "map (name_key H') xs = map (name_key H) xs" "map (casefold \<circ> node_name H') xs = map (casefold \<circ> node_name H) xs"
    using assms(2) same_headD by (auto simp: comp_def)
  obtain l where l: "flags n AND VFS_DIRECTORY \<noteq> 0" "children n = Some l" "sl_holds l xs"
    "\<forall>x \<in> set xs. named H x" "sorted_wrt (<) (map (name_key H) xs)"
    using assms(1,3) unfolding dir_ok_def kids_alt by auto
  have "\<forall>x \<in> set xs. named H' x" using l(4) assms(2) same_headD by blast
  moreover have "sorted_wrt (<) (map (name_key H') xs)" unfolding nm(1) by (rule l(5))
  ultimately have "kids H' d xs" unfolding kids_alt using l assms(4-6) by simp
  moreover have "\<forall>x \<in> set xs. good_name (node_name H' x) \<and>
      (\<exists>m. H' x = Some m \<and> parent m = d \<and> flags m AND VFS_ROOT = 0)"
  proof
    fix x assume x: "x \<in> set xs"
    then have "good_name (node_name H x)" "\<exists>m. H x = Some m \<and> parent m = d \<and> flags m AND VFS_ROOT = 0"
      using assms(1) by (auto simp: dir_ok_def)
    moreover have "same_head H H' x" using assms(2) x by blast
    ultimately show "good_name (node_name H' x) \<and>
      (\<exists>m. H' x = Some m \<and> parent m = d \<and> flags m AND VFS_ROOT = 0)"
      using same_headD [of H H' x] unfolding same_head_def by auto
  qed
  moreover have "distinct (map (casefold \<circ> node_name H') xs)"
    unfolding nm(2) using assms(1) by (simp add: dir_ok_def)
  ultimately show ?thesis unfolding dir_ok_def by blast
qed

lemma dir_ok_present: "dir_ok H d xs \<Longrightarrow> x \<in> set xs \<Longrightarrow> \<exists>m. H x = Some m"
  by (auto simp: dir_ok_def)

text \<open>
  The state after an entry called \<open>c\<close> has been linked at \<open>p\<close>: one more kid of \<open>d\<close>, everything
  else as before.
\<close>

definition entry_added :: "vfs \<Rightarrow> nat \<Rightarrow> nat list \<Rightarrow> nat \<Rightarrow> u8 list \<Rightarrow> vfs \<Rightarrow> bool" where
  "entry_added s d xs p c s' \<longleftrightarrow>
     (\<exists>ys zs. xs = ys @ zs \<and> dir_ok (nodes s') d (ys @ p # zs)) \<and>
     nodes s p = None \<and> node_name (nodes s') p = c \<and> same_head (nodes s) (nodes s') d \<and>
     (\<forall>q. q \<noteq> d \<and> q \<noteq> p \<longrightarrow> nodes s' q = nodes s q)"

text \<open>Linking the new node \<open>m\<close> at \<open>p\<close> into the list of \<open>d\<close>.\<close>

lemma insert_kid:
  assumes d: "dir_ok H d xs" and fresh: "H p = None"
    and m: "parent m = d" "flags m AND VFS_ROOT = 0" "name m = c @ 0 # r"
    and c: "good_name c" "casefold c \<notin> (casefold \<circ> node_name H) ` set xs"
  defines "H1 \<equiv> H(p \<mapsto> m)"
  shows "\<exists>dn l l' ys zs. H d = Some dn \<and> children dn = Some l \<and>
    sorted_list_insert (with_store H1 l) p = Some l' \<and> xs = ys @ zs \<and>
    dir_ok (H1(d \<mapsto> dn\<lparr>children := Some l'\<rparr>)) d (ys @ p # zs)"
proof -
  obtain dn l where dn: "H d = Some dn" "flags dn AND VFS_DIRECTORY \<noteq> 0" "children dn = Some l"
    using d unfolding dir_ok_def kids_alt by blast
  have pd: "p \<noteq> d" "p \<notin> set xs" using fresh dn(1) dir_ok_present [OF d, of p] by auto
  have nn: "node_name H1 p = c" "named H1 p"
    using m(3) c(1) by (auto simp: H1_def node_name_def named_def good_name_def)
  have old: "node_name H1 x = node_name H x" if "x \<in> set xs" for x
    using that pd by (auto simp: node_name_def H1_def)
  have sh: "\<forall>x \<in> set xs. same_head H H1 x"
    using dir_ok_present [OF d] pd unfolding same_head_def H1_def by fastforce
  have d1: "dir_ok H1 d xs" by (rule dir_ok_frame [OF d sh dn(1)]) (use dn pd in \<open>auto simp: H1_def\<close>)
  then have rep: "sl_rep (cmp_vfs_node_by_filename H1) (search_cmp_vfs_node H1) (name_key H1) (named H1)
      (with_store H1 l) xs"
    using dn(1,3) pd(1) unfolding dir_ok_def kids_def by (auto simp: H1_def)
  have "name_key H1 p \<notin> name_key H1 ` set xs" using c(2) old nn(1) by (auto simp: strkey_inj)
  then obtain l' ys zs where ins: "sorted_list_insert (with_store H1 l) p = Some l'" and xs: "xs = ys @ zs"
    and rep': "sl_rep (cmp_vfs_node_by_filename H1) (search_cmp_vfs_node H1) (name_key H1) (named H1) l' (ys @ p # zs)"
    using vdir.insert_rep [OF rep nn(2)] by blast
  let ?H2 = "H1(d \<mapsto> dn\<lparr>children := Some l'\<rparr>)"
  have h: "sl_holds l' (ys @ p # zs)" "\<forall>x \<in> set (ys @ p # zs). named H1 x"
    "sorted_wrt (<) (map (name_key H1) (ys @ p # zs))"
    using rep' unfolding sl_rep_def by blast+
  have nm2: "node_name ?H2 x = node_name H1 x" "named H1 x \<Longrightarrow> named ?H2 x" for x
    using dn(1) pd(1) by (auto simp: node_name_def named_def H1_def)
  have "kids ?H2 d (ys @ p # zs)"
    unfolding kids_alt nm2(1) using h nm2(2) dn(2) by auto
  moreover have "distinct (map (casefold \<circ> node_name ?H2) (ys @ p # zs))"
  proof -
    have "distinct (map (casefold \<circ> node_name H1) xs)" using d1 by (simp add: dir_ok_def)
    then show ?thesis using c(2) old nn(1) xs by (auto simp: nm2 comp_def image_iff)
  qed
  moreover have "\<forall>x \<in> set (ys @ p # zs). good_name (node_name ?H2 x) \<and>
      (\<exists>k. ?H2 x = Some k \<and> parent k = d \<and> flags k AND VFS_ROOT = 0)"
  proof
    fix x assume x: "x \<in> set (ys @ p # zs)"
    have "good_name (node_name H1 x) \<and> (\<exists>k. H1 x = Some k \<and> parent k = d \<and> flags k AND VFS_ROOT = 0)"
    proof (cases "x = p")
      case True
      then show ?thesis using c(1) nn(1) m(1,2) by (simp add: H1_def)
    next
      case False
      then have "x \<in> set xs" using x xs by auto
      then show ?thesis using d1 unfolding dir_ok_def by blast
    qed
    moreover have "same_head H1 ?H2 x" if "H1 x \<noteq> None"
      using that dn(1) pd(1) unfolding same_head_def by (cases "x = d") (auto simp: H1_def)
    ultimately show "good_name (node_name ?H2 x) \<and>
      (\<exists>k. ?H2 x = Some k \<and> parent k = d \<and> flags k AND VFS_ROOT = 0)"
      unfolding nm2 same_head_def by fastforce
  qed
  ultimately show ?thesis using dn ins xs unfolding dir_ok_def by blast
qed

lemma add_child_spec:
  assumes inv: "vfs_inv s" and km: "kmalloc_node s = Some (p, n, s1)" and d: "dir_ok (nodes s) d xs"
    and m: "parent m = d" "flags m AND VFS_ROOT = 0" "name m = c @ 0 # r"
    and c: "good_name c" "casefold c \<notin> (casefold \<circ> node_name (nodes s)) ` set xs"
    and kid: "flags m AND VFS_DIRECTORY \<noteq> 0 \<Longrightarrow> \<exists>l. children m = Some l \<and> sl_holds l []"
  shows "\<exists>s'. add_child d p (put_node p m s1) = Some s' \<and> vfs_inv s' \<and> entry_added s d xs p c s' \<and>
    nodes s' p = Some m \<and> spare s' = spare s1"
proof -
  let ?H = "nodes s"
  have s1: "spare s = (p, n) # spare s1" "nodes s1 = ?H"
    using km by (auto simp: kmalloc_node_def split: list.splits)
  have fresh: "?H p = None" and sp: "distinct (map fst (spare s1))" "p \<notin> fst ` set (spare s1)"
    "\<forall>(q, k) \<in> set (spare s1). ?H q = None \<and> length (name k) = 256"
    using inv unfolding vfs_inv_def s1(1) by auto
  obtain dn l l' ys zs where dn: "?H d = Some dn" "children dn = Some l"
    and ins: "sorted_list_insert (with_store (?H(p \<mapsto> m)) l) p = Some l'" "xs = ys @ zs"
    and d2: "dir_ok (?H(p \<mapsto> m, d \<mapsto> dn\<lparr>children := Some l'\<rparr>)) d (ys @ p # zs)"
    using insert_kid [of ?H d xs p m c r, OF d fresh m c] by blast
  have pd: "p \<noteq> d" using fresh dn(1) by auto
  define s' where "s' = put_node d (dn\<lparr>children := Some l'\<rparr>) (put_node p m s1)"
  let ?H2 = "nodes s'"
  have H2: "?H2 = ?H(p \<mapsto> m, d \<mapsto> dn\<lparr>children := Some l'\<rparr>)" by (simp add: s'_def put_node_def s1(2))
  have sh: "same_head ?H ?H2 x" if "?H x \<noteq> None" for x
    using that fresh dn(1) unfolding H2 same_head_def by (cases "x = d") auto
  have np: "?H2 p = Some m" "node_name ?H2 p = c"
    using pd m(3) c(1) by (auto simp: H2 node_name_def good_name_def)
  have dirs: "\<exists>ws. dir_ok ?H2 q ws" if q: "?H2 q = Some qn" "flags qn AND VFS_DIRECTORY \<noteq> 0" for q qn
  proof -
    consider "q = d" | "q = p" | "?H q = Some qn" "q \<noteq> d" "q \<noteq> p" using q(1) by (auto simp: H2 split: if_splits)
    then show ?thesis
    proof cases
      case 1
      then show ?thesis using d2 unfolding H2 by blast
    next
      case 2
      then have "qn = m" using q(1) np(1) by simp
      with kid q(2) obtain l0 where "children m = Some l0" "sl_holds l0 []" by blast
      then have "dir_ok ?H2 p []" using q(2) np(1) \<open>qn = m\<close> unfolding dir_ok_def kids_alt by auto
      with 2 show ?thesis by blast
    next
      case 3
      then obtain ws where ws: "dir_ok ?H q ws" using inv q(2) unfolding vfs_inv_def by blast
      have "\<forall>x \<in> set ws. same_head ?H ?H2 x" using sh dir_ok_present [OF ws] by blast
      then show ?thesis using dir_ok_frame [of ?H q ws ?H2 qn qn] ws 3(1) q(1) by blast
    qed
  qed
  have "\<forall>(q, k) \<in> set (spare s1). ?H2 q = None \<and> length (name k) = 256"
    using sp(2,3) dn(1) unfolding H2 by (fastforce simp: image_iff)
  then have "vfs_inv s'" using dirs sp(1) unfolding vfs_inv_def s'_def by (simp add: put_node_def)
  moreover have "add_child d p (put_node p m s1) = Some s'"
    using dn ins pd by (simp add: add_child_def put_node_def s1(2) s'_def)
  moreover have "entry_added s d xs p c s'"
    unfolding entry_added_def using d2 ins(2) fresh np(2) sh [of d] dn(1) by (auto simp: H2)
  ultimately show ?thesis using np(1) by (auto simp: s'_def put_node_def)
qed

section \<open>Creating folders and pipes\<close>

lemma strrchr_loop_none:
  "47 \<notin> set c \<Longrightarrow> cstr c \<Longrightarrow> strrchr_loop (c @ 0 # r) 47 i e = Some e"
  by (induction c arbitrary: i) auto

lemma strrchr_none: "47 \<notin> set c \<Longrightarrow> cstr c \<Longrightarrow> strrchr (c @ 0 # r) 47 = Some None"
  by (simp add: strrchr_def strrchr_loop_none)

lemma strrchr_last:
  assumes "cstr pre" "47 \<notin> set c" "cstr c"
  shows "strrchr (pre @ 47 # c @ 0 # r) 47 = Some (Some (length pre))"
proof -
  have "strrchr_loop (pre @ 47 # c @ 0 # r) 47 i e = Some (Some (i + length pre))" for i e
    using assms by (induction pre arbitrary: i e) (auto simp: strrchr_loop_none)
  then show ?thesis by (simp add: strrchr_def)
qed

text \<open>A path to a new entry \<open>c\<close> of the directory \<open>d\<close> that \<open>cs\<close> leads to from \<open>cur\<close>.\<close>

definition new_path :: "u8 list list \<Rightarrow> u8 list \<Rightarrow> u8 list \<Rightarrow> bool" where
  "new_path cs c path \<longleftrightarrow> path = join_path cs @ 47 # c \<or> cs = [] \<and> path = c"

lemma navigate_skip:
  assumes "names_path H cur cs d" "good_name c" "new_path cs c path"
  shows "vfs_navigate_to H cur (path @ 0 # r) True = Some (Some d)"
proof -
  have c: "47 \<notin> set c" "cstr c" using assms(2) by (auto simp: good_name_def)
  have "navigate_from H e (47 # c @ 0 # r) True = Some (Some e)" "navigate_from H e (c @ 0 # r) True = Some (Some e)" for e
    using strchr_absent [OF c, of r] dropWhile_name [OF assms(2), of "0 # r"]
    by (subst navigate_from.simps, simp add: Let_def)+
  with navigate_names [OF assms(1), of "c @ 0 # r" True] assms show ?thesis
    by (auto simp: new_path_def vfs_navigate_to_def)
qed

lemma names_path_good: "names_path H d cs p \<Longrightarrow> \<forall>c \<in> set cs. good_name c"
  by (induction cs arbitrary: d) (auto simp: dir_ok_def)

lemma cstr_join_path: "\<forall>c \<in> set cs. good_name c \<Longrightarrow> cstr (join_path cs)"
  by (induction cs) (auto simp: good_name_def)

lemma final_name_new:
  assumes "names_path H cur cs d" "good_name c" "new_path cs c path" "length buf = 256"
  shows "\<exists>q. final_name buf (path @ 0 # r) = Some (c @ 0 # q)"
proof -
  have c: "47 \<notin> set c" "cstr c" "length c < 255" using assms(2) by (auto simp: good_name_def)
  have j: "cstr (join_path cs)" by (rule cstr_join_path [OF names_path_good [OF assms(1)]])
  have "\<exists>q. strncpy buf (c @ 0 # r) 256 = Some (c @ 0 # q)"
    using strncpy_loop_at [OF c(2), of 256 0 buf r] assms(4) c(3)
    by (cases "255 - length c") (auto simp: strncpy_def)
  with assms(3) show ?thesis
    using strrchr_none [OF c(1,2), of r] strrchr_last [OF j c(1,2), of r]
    by (auto simp: new_path_def final_name_def)
qed

lemma folder_flags:
  "extra AND VFS_ROOT = 0 \<Longrightarrow> (VFS_DIRECTORY OR extra) AND VFS_ROOT = 0"
  by (simp add: word_ao_dist VFS_DIRECTORY_def VFS_ROOT_def)

lemma directory_flag: "(VFS_DIRECTORY OR extra) AND VFS_DIRECTORY \<noteq> 0"
proof
  assume "(VFS_DIRECTORY OR extra) AND VFS_DIRECTORY = 0"
  then have "VFS_DIRECTORY AND VFS_DIRECTORY = 0" by (simp only: word_ao_dist word_ao_absorbs) simp
  then show False by (simp add: VFS_DIRECTORY_def)
qed

lemma added_lookup:
  assumes "entry_added s d xs p c s'" and "good_name c"
  shows "vfs_get_single_entry_from_dir (nodes s') d (c @ 0 # r) = Some (Some p)"
proof -
  obtain ys zs where ok: "dir_ok (nodes s') d (ys @ p # zs)" and np: "node_name (nodes s') p = c"
    using assms(1) unfolding entry_added_def by blast
  have "distinct (map (casefold \<circ> node_name (nodes s')) (ys @ p # zs))" using ok by (simp add: dir_ok_def)
  from find_the_kid [OF this, of p] get_single_entry [OF ok assms(2), of r] np show ?thesis
    by (simp add: comp_def)
qed

section \<open>Properties\<close>

text \<open>
  C16. \<open>vfs_create_folder\<close> on a path whose last component is a new name of an existing directory:
  it returns 0, links exactly one new node under that directory in name order, leaves every
  other node as it was, keeps the whole tree well formed, and the new name is found from then
  on.  The new node is an empty directory with the flags asked for.
\<close>

theorem create_folder_links:
  assumes "vfs_inv s" and "names_path (nodes s) cur cs d" and "dir_ok (nodes s) d xs"
    and "good_name c" and "casefold c \<notin> (casefold \<circ> node_name (nodes s)) ` set xs"
    and "new_path cs c path" and "spare s \<noteq> []" and "extra AND VFS_ROOT = 0"
  shows "\<exists>s' p. vfs_create_folder cur (path @ 0 # r) extra s = Some (0, s') \<and> vfs_inv s' \<and>
    entry_added s d xs p c s' \<and> vfs_get_single_entry_from_dir (nodes s') d (c @ 0 # q) = Some (Some p) \<and>
    (\<exists>m. nodes s' p = Some m \<and> flags m = VFS_DIRECTORY OR extra \<and> parent m = d \<and> fsize m = 0 \<and> open_references m = 0) \<and>
    dir_ok (nodes s') p []"
proof -
  obtain p n s1 where km: "kmalloc_node s = Some (p, n, s1)" and pn: "(p, n) \<in> set (spare s)"
    using assms(7) by (cases "spare s") (auto simp: kmalloc_node_def)
  have n: "length (name n) = 256" using assms(1) pn unfolding vfs_inv_def by blast
  obtain nm t where nm: "final_name (name n) (path @ 0 # r) = Some nm" "nm = c @ 0 # t"
    using final_name_new [OF assms(2,4,6) n, of r] by blast
  obtain dn l where dn: "nodes s d = Some dn" "children dn = Some l"
    using assms(3) unfolding dir_ok_def kids_def by blast
  let ?m = "n\<lparr>name := nm, fsize := 0, flags := VFS_DIRECTORY OR extra, open_references := 0, parent := d,
    children := Some (create_sorted_list (sl_cmp l) (sl_search_cmp l))\<rparr>"
  have "nodes s1 = nodes s" using km by (auto simp: kmalloc_node_def split: list.splits)
  moreover have "\<exists>s'. add_child d p (put_node p ?m s1) = Some s' \<and> vfs_inv s' \<and> entry_added s d xs p c s' \<and>
      nodes s' p = Some ?m \<and> spare s' = spare s1"
    by (rule add_child_spec [OF assms(1) km assms(3)])
      (use assms(4,5) nm(2) folder_flags [OF assms(8)] sl_holds_create in auto)
  moreover have "dir_ok (nodes s') p []" if "nodes s' p = Some ?m" for s'
    using that by (simp add: dir_ok_def kids_alt directory_flag sl_holds_create) (simp add: VFS_DIRECTORY_def)
  ultimately show ?thesis
    using navigate_skip [OF assms(2,4,6), of r] km nm(1) dn added_lookup [OF _ assms(4), of s d xs p _ q]
    by (fastforce simp: vfs_create_folder_def Let_def)
qed

text \<open>A root with one file and one spare block.\<close>

definition blank_node :: vfs_node where
  "blank_node = \<lparr>name = replicate 256 0, parent = 0, flags = 0, fsize = 0, drive_id = 0, location = 0, owner = 0,
     permissions = 0, block_size = 0, data_cache = Uncached, open_references = 0, children = None\<rparr>"

definition root0 :: vfs_node where
  "root0 = blank_node\<lparr>name := [47] @ replicate 255 0, parent := 1, flags := 7,
     children := Some (new_children\<lparr>sl_data := [Ptr 2, Null], sl_size := 1, sl_capacity := 2\<rparr>)\<rparr>"

definition boot0 :: vfs_node where
  "boot0 = blank_node\<lparr>name := [98, 111] @ replicate 254 0, parent := 1, flags := VFS_FILE\<rparr>"

definition vfs0 :: vfs where
  "vfs0 = \<lparr>nodes = [1 \<mapsto> root0, 2 \<mapsto> boot0], spare = [(3, blank_node)], vol = vol0, exp_false = False\<rparr>"

lemma zeros_Cons: "0 < n \<Longrightarrow> replicate n (0 :: u8) = 0 # replicate (n - 1) 0"
  by (cases n) auto

lemma boot0_name: "node_name (nodes vfs0) 2 = [98, 111]"
  using cstr_at_cstr [of "[98, 111]" "replicate 253 0"]
  by (simp add: node_name_def vfs0_def boot0_def zeros_Cons [of 254])

lemma vfs0_root: "dir_ok (nodes vfs0) 1 [2]"
proof -
  have "named (nodes vfs0) 2" by (simp add: named_def vfs0_def boot0_def)
  moreover have "sl_holds (new_children\<lparr>sl_data := [Ptr 2, Null], sl_size := 1, sl_capacity := 2\<rparr>) [2]"
    by (simp add: sl_holds_def)
  ultimately have "kids (nodes vfs0) 1 [2]"
    unfolding kids_alt by (simp add: vfs0_def root0_def VFS_DIRECTORY_def)
  moreover have "good_name (node_name (nodes vfs0) 2)" by (simp add: boot0_name good_name_def)
  moreover have "VFS_FILE AND VFS_ROOT = 0" by (simp add: VFS_FILE_def VFS_ROOT_def)
  ultimately show ?thesis by (simp add: dir_ok_def) (simp add: vfs0_def boot0_def)
qed

lemma vfs0_inv: "vfs_inv vfs0"
proof -
  have "\<exists>xs. dir_ok (nodes vfs0) d xs" if "nodes vfs0 d = Some n" "flags n AND VFS_DIRECTORY \<noteq> 0" for d n
  proof -
    have "d = 1" using that by (auto simp: vfs0_def boot0_def VFS_FILE_def VFS_DIRECTORY_def split: if_splits)
    then show ?thesis using vfs0_root by blast
  qed
  then show ?thesis by (auto simp: vfs_inv_def) (auto simp: vfs0_def blank_node_def)
qed

theorem create_folder_links_witness:
  "\<exists>s' p. vfs_create_folder 1 ([47, 116, 109, 112] @ 0 # []) 0 vfs0 = Some (0, s') \<and> vfs_inv s' \<and>
     vfs_get_single_entry_from_dir (nodes s') 1 ([116, 109, 112] @ 0 # []) = Some (Some p)"
proof -
  have "names_path (nodes vfs0) 1 [] 1" "good_name [116, 109, 112]" "new_path [] [116, 109, 112] [47, 116, 109, 112]"
    "casefold [116, 109, 112] \<notin> (casefold \<circ> node_name (nodes vfs0)) ` set [2]" "spare vfs0 \<noteq> []"
    "0 AND VFS_ROOT = 0"
    by (simp_all add: good_name_def new_path_def boot0_name casefold_def) (simp add: vfs0_def)
  from create_folder_links [OF vfs0_inv this(1) vfs0_root this(2,4,3,5,6), of "[]" "[]"] show ?thesis by blast
qed

text \<open>
  C17. \<open>vfs_get_full_filepath\<close> and \<open>vfs_navigate_to\<close> are inverse to each other: the buffer filled for
  the node that the names \<open>cs\<close> lead to from the root holds those names joined by slashes, and
  navigating from the root along that string comes back to the same node.
\<close>

theorem full_path_navigates_back:
  assumes "nodes s root = Some rn" and "flags rn AND VFS_ROOT \<noteq> 0" and "names_path (nodes s) root cs p"
    and "cs \<noteq> []" and "length (join_path cs) + 257 \<le> length buf" and "length (join_path cs) + 2 \<le> max_sz"
  shows "\<exists>buf'. vfs_get_full_filepath (nodes s) p buf max_sz = Some (buf', length (join_path cs)) \<and>
    cstr_at buf' 0 = join_path cs \<and> vfs_navigate_to (nodes s) root buf' False = Some (Some p)"
proof -
  obtain r where "vfs_get_full_filepath (nodes s) p buf max_sz = Some (join_path cs @ 0 # r, length (join_path cs))"
    using full_filepath_names [OF assms(1,2,3,5,6)] assms(4) by auto
  then show ?thesis
    using navigate_names_path [OF assms(3,4), of r] cstr_join_path [OF names_path_good [OF assms(3)]] by auto
qed

theorem full_path_navigates_back_witness:
  "\<exists>buf'. vfs_get_full_filepath (nodes vfs0) 2 (replicate 300 0) 300 = Some (buf', 3) \<and>
     cstr_at buf' 0 = [47, 98, 111] \<and> vfs_navigate_to (nodes vfs0) 1 buf' False = Some (Some 2)"
proof -
  have r: "nodes vfs0 1 = Some root0" "flags root0 AND VFS_ROOT \<noteq> 0"
    by (simp_all add: vfs0_def root0_def VFS_ROOT_def)
  have "names_path (nodes vfs0) 1 [[98, 111]] 2" using vfs0_root boot0_name by auto
  from full_path_navigates_back [OF r this, of "replicate 300 0" 300] show ?thesis by (simp add: numeral_3_eq_3)
qed




text \<open>
  C30. \<open>vfs_file_write\<close> only grows the cache when the write passes the file size rounded up to a page,
  although the cache is as large as the file's clusters: a write behind the cache and below
  that bound stores outside it.
\<close>

theorem file_write_overruns_cache:
  assumes "data_cache n = Bytes b" and "length b < off + k" and "off + k \<le> ROUND_4K (fsize n)"
    and "off + k < 2 ^ 64" and "k \<le> length buf"
  shows "vfs_file_write n buf off k = None"
  using assms by (auto simp: vfs_file_write_def blk_get_def blk_put_def)

theorem file_write_overruns_cache_witness:
  "vfs_file_write (blank_node\<lparr>data_cache := Bytes (replicate 512 7), fsize := 100\<rparr>) [1, 2] 600 2 = None"
  by (rule file_write_overruns_cache [of _ "replicate 512 7"])
    (simp_all add: blank_node_def ROUND_4K_def)

end
