(* ===== verification/FileTable.thy ===== *)
theory FileTable
  imports Vfs
begin

text \<open>
  Open files and the system calls on them: the descriptor table of \<open>kernel/src/file_table.c\<close>, a
  sorted list of entries keyed by descriptor, and the calls of \<open>kernel/src/filesystem.c\<close>, which
  join the table and the working directory of the current process with the virtual file system.
  The table is shown to satisfy the contract of a sorted directory and to behave as a finite
  map from descriptors to open files.
\<close>

section \<open>The table\<close>

record file_table_entry =
  fd :: int
  base :: nat
  seek_offset :: int

text \<open>
  \<open>ft_heap\<close> are the live entries by address, \<open>ft_spare\<close> the blocks the next calls of
  \<open>kmalloc(sizeof(file_table_entry))\<close> return.
\<close>

record file_table =
  entries :: "(nat, u64) sorted_list"
  next_id :: int
  ft_heap :: "nat \<Rightarrow> file_table_entry option"
  ft_spare :: "nat list"

definition file_entry_cmp :: "(nat \<Rightarrow> file_table_entry option) \<Rightarrow> nat \<Rightarrow> nat \<Rightarrow> int option" where
  "file_entry_cmp H a b = do { x \<leftarrow> H a; y \<leftarrow> H b; Some (wrap_s32 (fd x - fd y)) }"

text \<open>The 64-bit difference is cut to the \<open>int\<close> the comparator returns.\<close>

definition file_entry_search_cmp :: "(nat \<Rightarrow> file_table_entry option) \<Rightarrow> nat \<Rightarrow> u64 \<Rightarrow> int option" where
  "file_entry_search_cmp H a k = do { x \<leftarrow> H a; Some (wrap_s32 (fd x - uint k)) }"

definition ft_list :: "file_table \<Rightarrow> (nat, u64) sorted_list" where
  "ft_list ft = (entries ft)\<lparr>sl_cmp := file_entry_cmp (ft_heap ft), sl_search_cmp := file_entry_search_cmp (ft_heap ft)\<rparr>"

definition init_file_table :: "nat list \<Rightarrow> file_table" where
  "init_file_table blocks =
     \<lparr>entries = create_sorted_list (file_entry_cmp Map.empty) (file_entry_search_cmp Map.empty),
      next_id = 0, ft_heap = Map.empty, ft_spare = blocks\<rparr>"

text \<open>
  \<open>sorted_list_get(ft->entries, (void* )(uint64_t) fd)\<close> and the access through the result: a
  descriptor that is not there is a read through NULL.
\<close>

definition ft_get :: "file_table \<Rightarrow> int \<Rightarrow> (nat \<times> file_table_entry) option" where
  "ft_get ft f = do {
     r \<leftarrow> sorted_list_get (ft_list ft) (of_int f);
     p \<leftarrow> r;
     e \<leftarrow> ft_heap ft p;
     Some (p, e) }"

definition ft_put :: "nat \<Rightarrow> file_table_entry \<Rightarrow> file_table \<Rightarrow> file_table" where
  "ft_put p e ft = ft\<lparr>ft_heap := (ft_heap ft)(p \<mapsto> e)\<rparr>"

text \<open>\<open>int64_t\<close> arithmetic, and its conversion to \<open>size_t\<close>.\<close>

definition wrap_s64 :: "int \<Rightarrow> int" where
  "wrap_s64 i = signed_take_bit 63 i"

definition size_of :: "int \<Rightarrow> nat" where
  "size_of i = nat (i mod 2 ^ 64)"

definition file_read :: "file_table \<Rightarrow> int \<Rightarrow> u8 list \<Rightarrow> nat \<Rightarrow> vfs \<Rightarrow> (int \<times> u8 list \<times> file_table \<times> vfs) option" where
  "file_read ft f buf len s = do {
     (p, e) \<leftarrow> ft_get ft f;
     (got, buf, s) \<leftarrow> vfs_read (base e) buf (size_of (seek_offset e)) len s;
     n \<leftarrow> nodes s (base e);
     let off = (if got = 0 then wrap_s64 (int (fsize n)) else wrap_s64 (seek_offset e + got));
     Some (got, buf, ft_put p (e\<lparr>seek_offset := off\<rparr>) ft, s) }"

definition file_write :: "file_table \<Rightarrow> int \<Rightarrow> u8 list \<Rightarrow> nat \<Rightarrow> vfs \<Rightarrow> (int \<times> file_table \<times> vfs) option" where
  "file_write ft f buf len s = do {
     (p, e) \<leftarrow> ft_get ft f;
     (put, s) \<leftarrow> vfs_write (base e) buf (size_of (seek_offset e)) len s;
     Some (put, ft_put p (e\<lparr>seek_offset := wrap_s64 (seek_offset e + put)\<rparr>) ft, s) }"

text \<open>The \<open>switch\<close> is on \<open>offset\<close>, and \<open>whence\<close> is what is added.\<close>

definition file_seek :: "file_table \<Rightarrow> int \<Rightarrow> int \<Rightarrow> int \<Rightarrow> vfs \<Rightarrow> (int \<times> file_table) option" where
  "file_seek ft f offset whence s = do {
     (p, e) \<leftarrow> ft_get ft f;
     if offset = 0 \<or> offset = 1 \<or> offset = 2 then do {
       intended \<leftarrow> (if offset = 0 then Some whence
                    else if offset = 1 then Some (wrap_s64 (seek_offset e + whence))
                    else do { n \<leftarrow> nodes s (base e); Some (wrap_s64 (int (fsize n) + whence)) });
       if intended < 0 then Some (- 1, ft)
       else Some (intended, ft_put p (e\<lparr>seek_offset := intended\<rparr>) ft) }
     else Some (- 1, ft) }"

text \<open>The two fields of \<open>struct stat\<close> that are set.\<close>

record stat =
  st_ino :: nat
  st_size :: nat

definition file_fstat :: "file_table \<Rightarrow> int \<Rightarrow> vfs \<Rightarrow> (int \<times> stat) option" where
  "file_fstat ft f s = do {
     (p, e) \<leftarrow> ft_get ft f;
     n \<leftarrow> nodes s (base e);
     Some (0, \<lparr>st_ino = base e, st_size = fsize n\<rparr>) }"

definition create_file_table_entry :: "file_table \<Rightarrow> nat \<Rightarrow> (int \<times> file_table) option" where
  "create_file_table_entry ft file = (case ft_spare ft of [] \<Rightarrow> None
     | p # r \<Rightarrow> do {
         let f = next_id ft;
         let ft = ft_put p \<lparr>fd = f, base = file, seek_offset = 0\<rparr>
                    (ft\<lparr>next_id := wrap_s32 (f + 1), ft_spare := r\<rparr>);
         l \<leftarrow> sorted_list_insert (ft_list ft) p;
         Some (f, ft\<lparr>entries := l\<rparr>) })"

definition remove_file_table_entry :: "file_table \<Rightarrow> int \<Rightarrow> vfs \<Rightarrow> (file_table \<times> vfs) option" where
  "remove_file_table_entry ft f s = do {
     (p, e) \<leftarrow> ft_get ft f;
     s \<leftarrow> vfs_close (base e) s;
     l \<leftarrow> sorted_list_remove (ft_list ft) p;
     Some (ft\<lparr>entries := l, ft_heap := (ft_heap ft)(p := None)\<rparr>, s) }"

section \<open>System calls\<close>

text \<open>The current process and the file system, as \<open>filesystem.c\<close> sees them.\<close>

record sys =
  working_dir :: nat
  process_file_table :: file_table
  fs :: vfs

text \<open>\<open>vfs_get_full_filepath\<close> never returns \<open>-1\<close>, so the buffer is always the result.\<close>

definition getcwd :: "u8 list \<Rightarrow> nat \<Rightarrow> sys \<Rightarrow> u8 list option" where
  "getcwd buf sz y = map_option fst (vfs_get_full_filepath (nodes (fs y)) (working_dir y) buf sz)"

definition mkdir :: "u8 list \<Rightarrow> sys \<Rightarrow> (u64 \<times> sys) option" where
  "mkdir pathname y = do {
     (r, s) \<leftarrow> vfs_create_folder (working_dir y) pathname 0 (fs y);
     Some (r, y\<lparr>fs := s\<rparr>) }"

definition chdir :: "u8 list \<Rightarrow> sys \<Rightarrow> (int \<times> sys) option" where
  "chdir path y = do {
     to \<leftarrow> vfs_navigate_to (nodes (fs y)) (working_dir y) path False;
     Some (case to of Some p \<Rightarrow> (0, y\<lparr>working_dir := p\<rparr>) | None \<Rightarrow> (- 1, y)) }"

definition sys_open :: "u8 list \<Rightarrow> sys \<Rightarrow> (int \<times> sys) option" where
  "sys_open pathname y = do {
     (file, s) \<leftarrow> vfs_open (working_dir y) pathname (fs y);
     (f, ft) \<leftarrow> create_file_table_entry (process_file_table y) file;
     Some (f, y\<lparr>process_file_table := ft, fs := s\<rparr>) }"

definition sys_close :: "int \<Rightarrow> sys \<Rightarrow> (int \<times> sys) option" where
  "sys_close f y = do {
     (p, e) \<leftarrow> ft_get (process_file_table y) f;
     s \<leftarrow> vfs_close (base e) (fs y);
     (ft, s) \<leftarrow> remove_file_table_entry (process_file_table y) f s;
     Some (0, y\<lparr>process_file_table := ft, fs := s\<rparr>) }"

definition sys_read :: "int \<Rightarrow> u8 list \<Rightarrow> nat \<Rightarrow> sys \<Rightarrow> (int \<times> u8 list \<times> sys) option" where
  "sys_read f buf len y = do {
     (r, buf, ft, s) \<leftarrow> file_read (process_file_table y) f buf len (fs y);
     Some (r, buf, y\<lparr>process_file_table := ft, fs := s\<rparr>) }"

definition sys_write :: "int \<Rightarrow> u8 list \<Rightarrow> nat \<Rightarrow> sys \<Rightarrow> (int \<times> sys) option" where
  "sys_write f buf len y = do {
     (r, ft, s) \<leftarrow> file_write (process_file_table y) f buf len (fs y);
     Some (r, y\<lparr>process_file_table := ft, fs := s\<rparr>) }"

definition sys_fstat :: "int \<Rightarrow> sys \<Rightarrow> (int \<times> stat) option" where
  "sys_fstat f y = file_fstat (process_file_table y) f (fs y)"

text \<open>The result of \<open>file_seek\<close> is dropped.\<close>

definition lseek :: "int \<Rightarrow> int \<Rightarrow> int \<Rightarrow> sys \<Rightarrow> (int \<times> sys) option" where
  "lseek f offset whence y = do {
     (r, ft) \<leftarrow> file_seek (process_file_table y) f offset whence (fs y);
     Some (0, y\<lparr>process_file_table := ft\<rparr>) }"

definition mkfifo :: "u8 list \<Rightarrow> sys \<Rightarrow> (u64 \<times> sys) option" where
  "mkfifo pathname y = do {
     (r, s) \<leftarrow> vfs_create_pipe (working_dir y) pathname (fs y);
     Some (r, y\<lparr>fs := s\<rparr>) }"

section \<open>The table as a sorted directory\<close>

definition fd_of :: "(nat \<Rightarrow> file_table_entry option) \<Rightarrow> nat \<Rightarrow> int" where
  "fd_of H p = fd (the (H p))"

definition fd_ok :: "(nat \<Rightarrow> file_table_entry option) \<Rightarrow> nat \<Rightarrow> bool" where
  "fd_ok H p \<longleftrightarrow> (\<exists>e. H p = Some e \<and> 0 \<le> fd e \<and> fd e < 2 ^ 31)"

interpretation fdir: sorted_dir "file_entry_cmp H" "file_entry_search_cmp H" "fd_of H" uint
  "fd_ok H" "\<lambda>k. uint k < 2 ^ 31" for H
proof unfold_locales
  fix a k assume "fd_ok H a" "fd_ok H k"
  then show "\<exists>x. file_entry_cmp H a k = Some x \<and> (x = 0 \<longleftrightarrow> fd_of H a = fd_of H k) \<and>
      (x < 0 \<longleftrightarrow> fd_of H a < fd_of H k)"
    by (auto simp: fd_ok_def fd_of_def file_entry_cmp_def)
next
  fix a and k :: u64 assume "fd_ok H a" "uint k < 2 ^ 31"
  then show "\<exists>x. file_entry_search_cmp H a k = Some x \<and> (x = 0 \<longleftrightarrow> fd_of H a = uint k) \<and>
      (x < 0 \<longleftrightarrow> fd_of H a < uint k)"
  proof -
    obtain e where e: "H a = Some e" "0 \<le> fd e" "fd e < 2 ^ 31" using \<open>fd_ok H a\<close> by (auto simp: fd_ok_def)
    have k0: "0 \<le> uint k" by (rule unsigned_greater_eq)
    have "- (2 ^ 31) \<le> fd e - uint k" using e(2) \<open>uint k < 2 ^ 31\<close> by linarith
    moreover have "fd e - uint k < 2 ^ 31" using e(3) k0 by linarith
    ultimately have "wrap_s32 (fd e - uint k) = fd e - uint k" by (rule wrap_s32_small)
    then show ?thesis using e(1) by (simp add: fd_of_def file_entry_search_cmp_def)
  qed
qed

text \<open>The entries of a table in descriptor order, all below \<open>next_id\<close>; spare blocks are unused.\<close>

definition ft_view :: "file_table \<Rightarrow> nat list \<Rightarrow> bool" where
  "ft_view ft xs \<longleftrightarrow>
     sl_rep (file_entry_cmp (ft_heap ft)) (file_entry_search_cmp (ft_heap ft)) (fd_of (ft_heap ft)) (fd_ok (ft_heap ft))
       (ft_list ft) xs \<and>
     (\<forall>x \<in> set xs. fd_of (ft_heap ft) x < next_id ft) \<and> 0 \<le> next_id ft \<and> next_id ft < 2 ^ 31 \<and>
     distinct (ft_spare ft) \<and> (\<forall>p \<in> set (ft_spare ft). ft_heap ft p = None)"

text \<open>The map a table stands for.\<close>

definition ft_map :: "file_table \<Rightarrow> nat list \<Rightarrow> int \<Rightarrow> (nat \<times> int) option" where
  "ft_map ft xs f =
     (case find (\<lambda>x. fd_of (ft_heap ft) x = f) xs of None \<Rightarrow> None
      | Some x \<Rightarrow> Some (base (the (ft_heap ft x)), seek_offset (the (ft_heap ft x))))"

lemma uint_fd: "0 \<le> f \<Longrightarrow> f < 2 ^ 31 \<Longrightarrow> uint (of_int f :: u64) = f"
  by (simp add: uint_word_of_int)

lemma ft_view_entry:
  "ft_view ft xs \<Longrightarrow> x \<in> set xs \<Longrightarrow> \<exists>e. ft_heap ft x = Some e \<and> 0 \<le> fd e \<and> fd e < next_id ft \<and> fd e < 2 ^ 31"
proof -
  assume v: "ft_view ft xs" and x: "x \<in> set xs"
  then have "fd_ok (ft_heap ft) x" "fd_of (ft_heap ft) x < next_id ft" by (auto simp: ft_view_def sl_rep_def)
  then show ?thesis by (auto simp: fd_ok_def fd_of_def)
qed

lemma ft_get_present:
  assumes v: "ft_view ft xs" and x: "x \<in> set xs" "ft_heap ft x = Some e"
  shows "ft_get ft (fd e) = Some (x, e)"
proof -
  have r: "0 \<le> fd e" "fd e < 2 ^ 31" using ft_view_entry [OF v x(1)] x(2) by auto
  have "sorted_list_get (ft_list ft) (of_int (fd e)) = Some (Some x)"
    by (rule fdir.get_present [of "ft_heap ft" _ xs])
      (use v x r uint_fd [OF r] in \<open>auto simp: ft_view_def fd_of_def\<close>)
  then show ?thesis using x(2) by (simp add: ft_get_def)
qed

lemma ft_get_absent:
  assumes v: "ft_view ft xs" and f: "0 \<le> f" "f < 2 ^ 31" "\<forall>x \<in> set xs. fd_of (ft_heap ft) x \<noteq> f"
  shows "ft_get ft f = None"
proof -
  let ?k = "of_int f :: u64"
  have u: "uint ?k = f" using f by (simp add: uint_fd)
  have rep: "sl_rep (file_entry_cmp (ft_heap ft)) (file_entry_search_cmp (ft_heap ft)) (fd_of (ft_heap ft))
      (fd_ok (ft_heap ft)) (ft_list ft) xs" using v by (simp add: ft_view_def)
  show ?thesis
  proof (cases "\<exists>x \<in> set xs. f < fd_of (ft_heap ft) x")
    case True
    have "sorted_list_get (ft_list ft) ?k = Some None"
      by (rule fdir.get_absent [OF rep]) (use u f True in auto)
    then show ?thesis by (simp add: ft_get_def)
  next
    case False
    have "sorted_list_get (ft_list ft) ?k = None"
      by (rule fdir.get_above [OF rep]) (use u f False in force)+
    then show ?thesis by (simp add: ft_get_def)
  qed
qed

text \<open>The representation depends on descriptors only.\<close>

lemma rep_frame:
  assumes "sl_rep (file_entry_cmp H) (file_entry_search_cmp H) (fd_of H) (fd_ok H)
      (l\<lparr>sl_cmp := file_entry_cmp H, sl_search_cmp := file_entry_search_cmp H\<rparr>) xs"
    and "\<forall>x \<in> set xs. fd_of H' x = fd_of H x \<and> H' x \<noteq> None"
  shows "sl_rep (file_entry_cmp H') (file_entry_search_cmp H') (fd_of H') (fd_ok H')
      (l\<lparr>sl_cmp := file_entry_cmp H', sl_search_cmp := file_entry_search_cmp H'\<rparr>) xs"
proof -
  have eq: "map (fd_of H') xs = map (fd_of H) xs" using assms(2) by simp
  have "sorted_wrt (<) (map (fd_of H') xs)" unfolding eq using assms(1) by (simp add: sl_rep_def)
  moreover have "sl_holds (l\<lparr>sl_cmp := file_entry_cmp H', sl_search_cmp := file_entry_search_cmp H'\<rparr>) xs"
    using assms(1) by (simp add: sl_rep_def sl_holds_def)
  moreover have "fd_ok H' x" if x: "x \<in> set xs" for x
  proof -
    have "fd_ok H x" using assms(1) that unfolding sl_rep_def by blast
    then have "0 \<le> fd_of H x" "fd_of H x < 2 ^ 31" by (auto simp: fd_ok_def fd_of_def)
    moreover obtain e where "H' x = Some e" using bspec [OF assms(2) x] by auto
    moreover have "fd_of H' x = fd_of H x" using bspec [OF assms(2) x] by simp
    ultimately show ?thesis by (simp add: fd_ok_def fd_of_def)
  qed
  moreover have "sl_cmp (l\<lparr>sl_cmp := a, sl_search_cmp := b\<rparr>) = a" "sl_search_cmp (l\<lparr>sl_cmp := a, sl_search_cmp := b\<rparr>) = b"
    for a b by simp_all
  ultimately show ?thesis unfolding sl_rep_def by blast
qed

lemma ft_view_nodup: "ft_view ft xs \<Longrightarrow> distinct (map (fd_of (ft_heap ft)) xs)"
  by (auto simp: ft_view_def sl_rep_def strict_sorted_iff)

lemma ft_view_init: "distinct blocks \<Longrightarrow> ft_view (init_file_table blocks) []"
  by (simp add: ft_view_def init_file_table_def ft_list_def sl_rep_def sl_holds_def create_sorted_list_def
      VECTOR_BASE_CAPACITY_def)

lemma create_view:
  assumes v: "ft_view ft xs" and sp: "ft_spare ft = p # r" and n: "next_id ft < 2 ^ 31 - 1"
  shows "\<exists>ft'. create_file_table_entry ft file = Some (next_id ft, ft') \<and> ft_view ft' (xs @ [p]) \<and>
    next_id ft' = next_id ft + 1 \<and> ft_spare ft' = r \<and>
    ft_heap ft' = (ft_heap ft)(p \<mapsto> \<lparr>fd = next_id ft, base = file, seek_offset = 0\<rparr>)"
proof -
  let ?f = "next_id ft" and ?H = "ft_heap ft"
  let ?H1 = "?H(p \<mapsto> \<lparr>fd = ?f, base = file, seek_offset = 0\<rparr>)"
  have f0: "0 \<le> ?f" and fresh: "?H p = None" and spr: "distinct r" "p \<notin> set r" "\<forall>q \<in> set r. ?H q = None"
    using v sp by (auto simp: ft_view_def)
  have px: "p \<notin> set xs" using ft_view_entry [OF v] fresh by fastforce
  have old: "\<forall>x \<in> set xs. fd_of ?H1 x = fd_of ?H x \<and> ?H1 x \<noteq> None"
    using px ft_view_entry [OF v] by (auto simp: fd_of_def)
  let ?l = "(entries ft)\<lparr>sl_cmp := file_entry_cmp ?H1, sl_search_cmp := file_entry_search_cmp ?H1\<rparr>"
  have rep1: "sl_rep (file_entry_cmp ?H1) (file_entry_search_cmp ?H1) (fd_of ?H1) (fd_ok ?H1) ?l xs"
    by (rule rep_frame [OF _ old]) (use v in \<open>simp add: ft_view_def ft_list_def\<close>)
  have ok: "fd_ok ?H1 p" "fd_of ?H1 p = ?f" using f0 n by (auto simp: fd_ok_def fd_of_def)
  have lt: "\<forall>x \<in> set xs. fd_of ?H1 x < ?f" using v old by (auto simp: ft_view_def)
  then have "fd_of ?H1 p \<notin> fd_of ?H1 ` set xs" unfolding ok(2) by auto
  then obtain l' ys zs where ins: "sorted_list_insert ?l p = Some l'" and xs: "xs = ys @ zs"
    and rep': "sl_rep (file_entry_cmp ?H1) (file_entry_search_cmp ?H1) (fd_of ?H1) (fd_ok ?H1) l' (ys @ p # zs)"
    using fdir.insert_rep [OF rep1 ok(1)] by blast
  have "zs = []"
  proof (rule ccontr)
    assume "zs \<noteq> []"
    then obtain z zs' where z: "zs = z # zs'" by (cases zs) auto
    then have "fd_of ?H1 p < fd_of ?H1 z" using rep' by (auto simp: sl_rep_def sorted_wrt_append)
    moreover have "fd_of ?H1 z < ?f" using lt xs z by auto
    ultimately show False using ok(2) by simp
  qed
  then have ys: "ys @ p # zs = xs @ [p]" using xs by simp
  let ?ft = "ft\<lparr>next_id := ?f + 1, ft_spare := r, ft_heap := ?H1, entries := l'\<rparr>"
  have "create_file_table_entry ft file = Some (?f, ?ft)"
    using sp ins f0 n by (simp add: create_file_table_entry_def ft_put_def ft_list_def Let_def)
  moreover have "ft_list ?ft = l'" using rep' by (simp add: ft_list_def sl_rep_def)
  then have "ft_view ?ft (xs @ [p])"
    using rep' ys lt ok(2) f0 n spr by (auto simp: ft_view_def)
  ultimately show ?thesis by auto
qed

lemma remove_view:
  assumes v: "ft_view ft xs" and x: "xs = ys @ p # zs" "ft_heap ft p = Some e"
    and len: "length xs < 2 ^ 64" and cl: "vfs_close (base e) s = Some s'"
  shows "\<exists>ft'. remove_file_table_entry ft (fd e) s = Some (ft', s') \<and> ft_view ft' (ys @ zs) \<and>
    ft_heap ft' = (ft_heap ft)(p := None) \<and> next_id ft' = next_id ft"
proof -
  let ?H = "ft_heap ft" and ?H' = "(ft_heap ft)(p := None)"
  have g: "ft_get ft (fd e) = Some (p, e)" by (rule ft_get_present [OF v]) (use x in auto)
  have rep: "sl_rep (file_entry_cmp ?H) (file_entry_search_cmp ?H) (fd_of ?H) (fd_ok ?H) (ft_list ft) (ys @ p # zs)"
    using v x(1) by (simp add: ft_view_def)
  obtain l' where rm: "sorted_list_remove (ft_list ft) p = Some l'"
    and rep': "sl_rep (file_entry_cmp ?H) (file_entry_search_cmp ?H) (fd_of ?H) (fd_ok ?H) l' (ys @ zs)"
    using fdir.remove_present [OF rep] len x(1) by auto
  have "distinct xs" using ft_view_nodup [OF v] by (simp add: distinct_map)
  then have p: "p \<notin> set (ys @ zs)" using x(1) by auto
  let ?ft = "ft\<lparr>entries := l', ft_heap := ?H'\<rparr>"
  have old: "\<forall>q \<in> set (ys @ zs). fd_of ?H' q = fd_of ?H q \<and> ?H' q \<noteq> None"
  proof
    fix q assume "q \<in> set (ys @ zs)"
    with p ft_view_entry [OF v, of q] x(1) show "fd_of ?H' q = fd_of ?H q \<and> ?H' q \<noteq> None"
      by (auto simp: fd_of_def)
  qed
  have "l' = l'\<lparr>sl_cmp := file_entry_cmp ?H, sl_search_cmp := file_entry_search_cmp ?H\<rparr>"
    using rep' by (simp add: sl_rep_def)
  with rep' have "sl_rep (file_entry_cmp ?H) (file_entry_search_cmp ?H) (fd_of ?H) (fd_ok ?H)
      (l'\<lparr>sl_cmp := file_entry_cmp ?H, sl_search_cmp := file_entry_search_cmp ?H\<rparr>) (ys @ zs)" by simp
  from rep_frame [OF this old]
  have "ft_view ?ft (ys @ zs)"
    using v old x(1) by (auto simp: ft_view_def ft_list_def)
  moreover have "remove_file_table_entry ft (fd e) s = Some (?ft, s')"
    using g cl rm by (simp add: remove_file_table_entry_def)
  ultimately show ?thesis by auto
qed

lemma find_distinct_append:
  "find P (xs @ ys) = (case find P xs of None \<Rightarrow> find P ys | Some x \<Rightarrow> Some x)"
  by (induction xs) auto

lemma find_SomeD: "find P xs = Some x \<Longrightarrow> x \<in> set xs \<and> P x"
  by (induction xs) (auto split: if_splits)

lemma find_cong_set: "(\<And>x. x \<in> set xs \<Longrightarrow> P x = Q x) \<Longrightarrow> find P xs = find Q xs"
  by (induction xs) auto

lemma ft_map_get:
  assumes v: "ft_view ft xs" and f: "0 \<le> f" "f < 2 ^ 31"
  shows "map_option (\<lambda>(p, e). (base e, seek_offset e)) (ft_get ft f) = ft_map ft xs f"
proof (cases "find (\<lambda>x. fd_of (ft_heap ft) x = f) xs")
  case None
  then have "ft_get ft f = None" using ft_get_absent [OF v f] by (auto simp: find_None_iff)
  with None show ?thesis by (simp add: ft_map_def)
next
  case (Some x)
  then have x: "x \<in> set xs" "fd_of (ft_heap ft) x = f" using find_SomeD [OF Some] by blast+
  then obtain e where e: "ft_heap ft x = Some e" using ft_view_entry [OF v] by blast
  then have "ft_get ft f = Some (x, e)" using ft_get_present [OF v x(1) e] x(2) by (simp add: fd_of_def)
  with Some e show ?thesis by (simp add: ft_map_def)
qed

lemma create_map:
  assumes v: "ft_view ft xs" and sp: "ft_spare ft = p # r" and n: "next_id ft < 2 ^ 31 - 1"
  shows "\<exists>ft'. create_file_table_entry ft nd = Some (next_id ft, ft') \<and> ft_view ft' (xs @ [p]) \<and>
    ft_map ft' (xs @ [p]) = (ft_map ft xs)(next_id ft \<mapsto> (nd, 0))"
proof -
  let ?H1 = "(ft_heap ft)(p \<mapsto> \<lparr>fd = next_id ft, base = nd, seek_offset = 0\<rparr>)"
  obtain ft' where c: "create_file_table_entry ft nd = Some (next_id ft, ft')" "ft_view ft' (xs @ [p])"
    "ft_heap ft' = ?H1" using create_view [OF v sp n] by blast
  have px: "p \<notin> set xs" using ft_view_nodup [OF c(2)] by (auto simp: distinct_map)
  have "ft_map ft' (xs @ [p]) f = ((ft_map ft xs)(next_id ft \<mapsto> (nd, 0))) f" for f
  proof -
    have fx: "find (\<lambda>x. fd_of ?H1 x = f) xs = find (\<lambda>x. fd_of (ft_heap ft) x = f) xs"
      by (rule find_cong_set) (use px in \<open>auto simp: fd_of_def\<close>)
    have fp: "fd_of ?H1 p = next_id ft" by (simp add: fd_of_def)
    have fa: "find (\<lambda>x. fd_of ?H1 x = f) (xs @ [p]) =
        (case find (\<lambda>x. fd_of (ft_heap ft) x = f) xs of None \<Rightarrow> if next_id ft = f then Some p else None | Some x \<Rightarrow> Some x)"
      unfolding find_distinct_append fx find.simps fp by (simp split: option.split)
    show ?thesis
    proof (cases "find (\<lambda>x. fd_of (ft_heap ft) x = f) xs")
      case None
      then show ?thesis unfolding ft_map_def c(3) fa by simp
    next
      case (Some x)
      then have x: "x \<in> set xs" "fd_of (ft_heap ft) x = f" using find_SomeD [OF Some] by blast+
      then have "x \<noteq> p" "f \<noteq> next_id ft" using px v by (auto simp: ft_view_def)
      then show ?thesis using Some unfolding ft_map_def c(3) fa by simp
    qed
  qed
  then show ?thesis using c by blast
qed

lemma remove_map:
  assumes v: "ft_view ft xs" and x: "xs = ys @ p # zs" "ft_heap ft p = Some e"
    and l: "length xs < 2 ^ 64" and cl: "vfs_close (base e) s = Some s'"
  shows "\<exists>ft'. remove_file_table_entry ft (fd e) s = Some (ft', s') \<and> ft_view ft' (ys @ zs) \<and>
    ft_map ft' (ys @ zs) = (ft_map ft xs)(fd e := None)"
proof -
  obtain ft' where r: "remove_file_table_entry ft (fd e) s = Some (ft', s')" "ft_view ft' (ys @ zs)"
    "ft_heap ft' = (ft_heap ft)(p := None)" using remove_view [OF v x l cl] by blast
  have d: "distinct (map (fd_of (ft_heap ft)) (ys @ p # zs))" using ft_view_nodup [OF v] x(1) by simp
  have e: "fd_of (ft_heap ft) p = fd e" using x(2) by (simp add: fd_of_def)
  have np: "q \<noteq> p \<and> fd_of (ft_heap ft) q \<noteq> fd e" if "q \<in> set (ys @ zs)" for q
    using that d unfolding e [symmetric] by (force simp: image_iff)
  have "ft_map ft' (ys @ zs) f = ((ft_map ft xs)(fd e := None)) f" for f
  proof -
    have fx: "find (\<lambda>q. fd_of (ft_heap ft') q = f) (ys @ zs) = find (\<lambda>q. fd_of (ft_heap ft) q = f) (ys @ zs)"
      by (rule find_cong_set) (use np in \<open>auto simp: fd_of_def r(3)\<close>)
    show ?thesis
    proof (cases "f = fd e")
      case True
      then have "find (\<lambda>q. fd_of (ft_heap ft) q = f) (ys @ zs) = None" using np by (auto simp: find_None_iff)
      then show ?thesis using True fx by (simp add: ft_map_def)
    next
      case False
      then have "find (\<lambda>q. fd_of (ft_heap ft) q = f) xs = find (\<lambda>q. fd_of (ft_heap ft) q = f) (ys @ zs)"
        using e unfolding x(1) by (simp add: find_distinct_append find.simps split: option.split)
      moreover have "q \<noteq> p" if "find (\<lambda>q. fd_of (ft_heap ft) q = f) (ys @ zs) = Some q" for q
        using np find_SomeD [OF that] by blast
      ultimately show ?thesis using fx False by (auto simp: ft_map_def r(3) split: option.split)
    qed
  qed
  then show ?thesis using r by blast
qed

section \<open>Properties\<close>

text \<open>
  C12. The descriptor table is a finite map from descriptors to (file, offset): looking a descriptor
  up is applying the map (undefined where the code reads through NULL), opening a file adds the
  next descriptor at offset 0, removing a descriptor deletes it, and nothing else changes.
\<close>

theorem descriptor_table_refines_map:
  assumes "ft_view ft xs"
  shows "(\<forall>f. 0 \<le> f \<and> f < 2 ^ 31 \<longrightarrow>
      map_option (\<lambda>(p, e). (base e, seek_offset e)) (ft_get ft f) = ft_map ft xs f) \<and>
    (\<forall>p r nd. ft_spare ft = p # r \<and> next_id ft < 2 ^ 31 - 1 \<longrightarrow>
      (\<exists>ft'. create_file_table_entry ft nd = Some (next_id ft, ft') \<and> ft_view ft' (xs @ [p]) \<and>
         ft_map ft' (xs @ [p]) = (ft_map ft xs)(next_id ft \<mapsto> (nd, 0)))) \<and>
    (\<forall>ys p zs e s s'. xs = ys @ p # zs \<and> ft_heap ft p = Some e \<and> length xs < 2 ^ 64 \<and>
      vfs_close (base e) s = Some s' \<longrightarrow>
      (\<exists>ft'. remove_file_table_entry ft (fd e) s = Some (ft', s') \<and> ft_view ft' (ys @ zs) \<and>
         ft_map ft' (ys @ zs) = (ft_map ft xs)(fd e := None)))"
  using ft_map_get [OF assms] create_map [OF assms] remove_map [OF assms] by blast

text \<open>A table with one descriptor, 0, on node 2.\<close>

definition ft0 :: file_table where
  "ft0 = \<lparr>entries = (create_sorted_list (file_entry_cmp Map.empty) (file_entry_search_cmp Map.empty))
       \<lparr>sl_data := [Ptr 8, Null], sl_size := 1, sl_capacity := 2\<rparr>,
     next_id = 1, ft_heap = [8 \<mapsto> \<lparr>fd = 0, base = 2, seek_offset = 5\<rparr>], ft_spare = [9]\<rparr>"

lemma ft0_view: "ft_view ft0 [8]"
  by (simp add: ft_view_def ft0_def ft_list_def sl_rep_def sl_holds_def fd_ok_def fd_of_def)

theorem descriptor_table_refines_map_witness:
  "map_option (\<lambda>(p, e). (base e, seek_offset e)) (ft_get ft0 0) = Some (2, 5) \<and>
   (\<exists>ft'. create_file_table_entry ft0 7 = Some (1, ft') \<and> ft_map ft' [8, 9] 1 = Some (7, 0))"
proof -
  have f: "ft_map ft0 [8] 0 = Some (2, 5)" "ft_spare ft0 = 9 # []" "next_id ft0 = 1"
    by (simp_all add: ft_map_def ft0_def fd_of_def find.simps)
  note T = descriptor_table_refines_map [OF ft0_view]
  have "map_option (\<lambda>(p, e). (base e, seek_offset e)) (ft_get ft0 0) = Some (2, 5)"
    using conjunct1 [OF T, rule_format, of 0] f(1) by simp
  moreover have "ft_spare ft0 = 9 # [] \<and> next_id ft0 < 2 ^ 31 - 1" using f by simp
  from conjunct1 [OF conjunct2 [OF T], rule_format, OF this, of 7]
  have "\<exists>ft'. create_file_table_entry ft0 7 = Some (1, ft') \<and> ft_map ft' [8, 9] 1 = Some (7, 0)"
    using f(3) by auto
  ultimately show ?thesis by blast
qed

text \<open>
  C31. \<open>close\<close> drops two references, one itself and one through \<open>remove_file_table_entry\<close>: with a
  file open under two descriptors, closing one frees the cache the other still reads.
\<close>

theorem close_frees_shared_file:
  assumes "ft_view (process_file_table y) xs" and "xs = ys @ p # zs" and "ft_heap (process_file_table y) p = Some e"
    and "nodes (fs y) (base e) = Some n" and "open_references n = 2" and "length xs < 2 ^ 64"
    and "q \<in> set (ys @ zs)" and "ft_heap (process_file_table y) q = Some e'" and "base e' = base e"
  shows "\<exists>y' n'. sys_close (fd e) y = Some (0, y') \<and> ft_get (process_file_table y') (fd e') = Some (q, e') \<and>
    nodes (fs y') (base e') = Some n' \<and> open_references n' = 0 \<and> data_cache n' = Freed"
proof -
  let ?ft = "process_file_table y"
  have g: "ft_get ?ft (fd e) = Some (p, e)" 
    by (rule ft_get_present [OF assms(1) _ assms(3)]) (simp add: assms(2))
  define s1 where "s1 = put_node (base e) (n\<lparr>open_references := 1\<rparr>) (fs y)"
  define s2 where "s2 = put_node (base e) (n\<lparr>open_references := 0, data_cache := Freed\<rparr>) s1"
  have c1: "vfs_close (base e) (fs y) = Some s1"
    using assms(4,5) by (simp add: vfs_close_def s1_def)
  have c2: "vfs_close (base e) s1 = Some s2"
    by (simp add: vfs_close_def s1_def s2_def put_node_def)
  obtain ft' where ft': "remove_file_table_entry ?ft (fd e) s1 = Some (ft', s2)" "ft_view ft' (ys @ zs)"
    "ft_heap ft' = (ft_heap ?ft)(p := None)"
    using remove_view [OF assms(1-3,6) c2] by blast
  have "q \<noteq> p" using ft_view_nodup [OF assms(1)] assms(2,7) by (auto simp: distinct_map)
  then have "ft_get ft' (fd e') = Some (q, e')"
    using ft_get_present [OF ft'(2) assms(7), of e'] assms(8) ft'(3) by simp
  moreover have "nodes s2 (base e') = Some (n\<lparr>open_references := 0, data_cache := Freed\<rparr>)"
    using assms(9) by (simp add: s2_def put_node_def)
  moreover have "sys_close (fd e) y = Some (0, y\<lparr>process_file_table := ft', fs := s2\<rparr>)"
    unfolding sys_close_def by (simp only: g c1 ft'(1) bind.bind_lunit prod.case)
  moreover have "process_file_table (y\<lparr>process_file_table := ft', fs := s2\<rparr>) = ft'"
    "fs (y\<lparr>process_file_table := ft', fs := s2\<rparr>) = s2"
    "open_references (n\<lparr>open_references := 0, data_cache := Freed\<rparr>) = 0"
    "data_cache (n\<lparr>open_references := 0, data_cache := Freed\<rparr>) = Freed" by simp_all
  ultimately show ?thesis by metis
qed

definition sys0 :: sys where
  "sys0 = \<lparr>working_dir = 1,
     process_file_table = ft0\<lparr>entries := (entries ft0)\<lparr>sl_data := [Ptr 8, Ptr 9, Null, Null], sl_size := 2, sl_capacity := 4\<rparr>,
       next_id := 2, ft_heap := [8 \<mapsto> \<lparr>fd = 0, base = 2, seek_offset = 5\<rparr>, 9 \<mapsto> \<lparr>fd = 1, base = 2, seek_offset = 0\<rparr>],
       ft_spare := []\<rparr>,
     fs = put_node 2 (boot0\<lparr>open_references := 2, data_cache := Bytes [1, 2, 3]\<rparr>) vfs0\<rparr>"

theorem close_frees_shared_file_witness:
  "\<exists>y' n'. sys_close 0 sys0 = Some (0, y') \<and>
     ft_get (process_file_table y') 1 = Some (9, \<lparr>fd = 1, base = 2, seek_offset = 0\<rparr>) \<and>
     nodes (fs y') 2 = Some n' \<and> data_cache n' = Freed"
proof -
  have "ft_view (process_file_table sys0) [8, 9]"
    by (simp add: ft_view_def sys0_def ft0_def ft_list_def sl_rep_def sl_holds_def fd_ok_def fd_of_def numeral_2_eq_2)
      (rule exI [of _ 1], simp)
  moreover have "[8, 9] = [] @ 8 # [9 :: nat]" "(9 :: nat) \<in> set ([] @ [9])" "length [8, 9 :: nat] < 2 ^ 64" by simp_all
  moreover have "ft_heap (process_file_table sys0) 8 = Some \<lparr>fd = 0, base = 2, seek_offset = 5\<rparr>"
    "ft_heap (process_file_table sys0) 9 = Some \<lparr>fd = 1, base = 2, seek_offset = 0\<rparr>"
    "nodes (fs sys0) 2 = Some (boot0\<lparr>open_references := 2, data_cache := Bytes [1, 2, 3]\<rparr>)"
    by (simp_all add: sys0_def ft0_def put_node_def)
  ultimately show ?thesis
    using close_frees_shared_file [of sys0 "[8, 9]" "[]" 8 "[9]" "\<lparr>fd = 0, base = 2, seek_offset = 5\<rparr>"
        "boot0\<lparr>open_references := 2, data_cache := Bytes [1, 2, 3]\<rparr>" 9 "\<lparr>fd = 1, base = 2, seek_offset = 0\<rparr>"]
    by auto
qed

end
