(* ===== verification/NumText.thy ===== *)
theory NumText
  imports CString
begin

text \<open>
  Numbers and text: \<open>atoi\<close>, \<open>atol\<close>, \<open>itoa\<close> and \<open>ltoa\<close> of \<open>kernel/src/stdlib.c\<close>, and the formatted
  output of \<open>kernel/src/stdio.c\<close>.  Values are kept in the range of their C type; the lemmas
  read formatted numbers back and say on which values the conversions are wrong.
\<close>

section \<open>Parsing\<close>

text \<open>The loop \<open>atoi\<close> and \<open>atol\<close> share; \<open>w\<close> wraps to the result type.\<close>

fun digits_loop :: "(int \<Rightarrow> int) \<Rightarrow> u8 list \<Rightarrow> int \<Rightarrow> nat \<Rightarrow> int option" where
  "digits_loop w [] output index = None"
| "digits_loop w (c # cs) output index =
     (if 48 \<le> sint c \<and> sint c \<le> 57 \<and> index < 20
      then digits_loop w cs (w (w (output * 10) + (sint c - 48))) (index + 1)
      else Some output)"

definition wrap_i64 :: "int \<Rightarrow> int" where
  "wrap_i64 i = signed_take_bit 63 i"

definition atoi :: "u8 list \<Rightarrow> int option" where
  "atoi buf = (case buf of [] \<Rightarrow> None
     | c # cs \<Rightarrow> if c = 45 then map_option (\<lambda>n. wrap_s32 (n * - 1)) (digits_loop wrap_s32 cs 0 1)
                 else digits_loop wrap_s32 buf 0 0)"

definition atol :: "u8 list \<Rightarrow> int option" where
  "atol buf = (case buf of [] \<Rightarrow> None
     | c # cs \<Rightarrow> if c = 45 then map_option (\<lambda>n. wrap_i64 (n * - 1)) (digits_loop wrap_i64 cs 0 1)
                 else digits_loop wrap_i64 buf 0 0)"

section \<open>Printing a number\<close>

lemma c_div_10: "\<bar>c_div v 10\<bar> = \<bar>v\<bar> div 10"
  by (cases "v = 0") (auto simp: c_div_def abs_mult)

text \<open>\<open>while (temp /= 10) size++\<close>\<close>

function count_div :: "int \<Rightarrow> nat \<Rightarrow> nat" where
  "count_div temp sz = (let t = c_div temp 10 in if t = 0 then sz else count_div t (sz + 1))"
  by pat_completeness auto
termination
proof (relation "measure (\<lambda>(t, s). nat \<bar>t\<bar>)", goal_cases)
  case (2 temp sz t)
  have "\<bar>t\<bar> = \<bar>temp\<bar> div 10" unfolding 2(1) by (rule c_div_10)
  moreover from this have "temp \<noteq> 0" using 2(2) by auto
  ultimately show ?case by simp
qed simp

declare count_div.simps [simp del]

text \<open>\<open>while (value) { str[size - index] = '0' + value % 10; value /= 10; index++; }\<close>\<close>

function put_digits :: "u8 list \<Rightarrow> int \<Rightarrow> int \<Rightarrow> int \<Rightarrow> u8 list option" where
  "put_digits str sz value index =
     (if value = 0 then Some str
      else if sz - index < 0 then None
      else do {
        str \<leftarrow> arr_put str (nat (sz - index)) (of_int (48 + c_mod value 10));
        put_digits str sz (c_div value 10) (index + 1) })"
  by pat_completeness auto
termination
proof (relation "measure (\<lambda>(s, z, v, i). nat \<bar>v\<bar>)", goal_cases)
  case (2 str sz v index str')
  have "\<bar>c_div v 10\<bar> = \<bar>v\<bar> div 10" by (rule c_div_10)
  with 2 show ?case by simp
qed simp

declare put_digits.simps [simp del]

text \<open>The base argument is not used.  \<open>ltoa\<close> counts its digits on the value cut to an \<open>int\<close>.\<close>

definition itoa :: "int \<Rightarrow> u8 list \<Rightarrow> int \<Rightarrow> u8 list option" where
  "itoa value str b =
     (if value = 0 then do { s \<leftarrow> arr_put str 0 48; arr_put s 1 0 }
      else do {
        let sz = count_div value 0;
        s \<leftarrow> put_digits str (int sz) value 0;
        arr_put s (sz + 1) 0 })"

definition ltoa :: "int \<Rightarrow> u8 list \<Rightarrow> int \<Rightarrow> u8 list option" where
  "ltoa value str b =
     (if value = 0 then do { s \<leftarrow> arr_put str 0 48; arr_put s 1 0 }
      else do {
        let sz = count_div (wrap_s32 value) 0;
        s \<leftarrow> put_digits str (int sz) value 0;
        arr_put s (sz + 1) 0 })"

definition hex_ascii :: "u8 list" where
  "hex_ascii = of_str ''0123456789abcdef''"

text \<open>
  The \<open>do ... while\<close> loops of \<open>format_number\<close>, which fill \<open>tmp[32]\<close> from the least digit on; \<open>tmp\<close>
  is the list of the digits stored so far.
\<close>

definition shift_of :: "nat \<Rightarrow> nat" where
  "shift_of b = (if b = 16 then 4 else 3)"

function mask_digits :: "nat \<Rightarrow> nat \<Rightarrow> u8 list \<Rightarrow> u8 list option" where
  "mask_digits b n tmp =
     (if 32 \<le> length tmp then None
      else let tmp = tmp @ [hex_ascii ! (n mod b)]; n = n div 2 ^ shift_of b in
        if n \<noteq> 0 then mask_digits b n tmp else Some tmp)"
  by pat_completeness auto
termination
  by (relation "measure (\<lambda>(b, n, tmp). 32 - length tmp)") auto

function dec_digits :: "nat \<Rightarrow> u8 list \<Rightarrow> u8 list option" where
  "dec_digits n tmp =
     (if 32 \<le> length tmp then None
      else let tmp = tmp @ [of_nat (48 + n mod 10)]; n = n div 10 in
        if n \<noteq> 0 then dec_digits n tmp else Some tmp)"
  by pat_completeness auto
termination
  by (relation "measure (\<lambda>(n, tmp). 32 - length tmp)") auto

declare mask_digits.simps [simp del] dec_digits.simps [simp del]

text \<open>What \<open>format_number\<close> appends to the buffer: the digits of \<open>tmp\<close> from the last one back.\<close>

definition format_number :: "nat \<Rightarrow> nat \<Rightarrow> u8 list option" where
  "format_number n b =
     map_option rev (if b = 16 \<or> b = 8 then mask_digits b n [] else dec_digits n [])"

section \<open>Formatted output\<close>

text \<open>
  Floating point is hardware arithmetic: the conversion to \<open>uint64_t\<close>, the difference to it, and
  the product with 10 are parameters.
\<close>

record 'd double_ops =
  to_u64 :: "'d \<Rightarrow> nat"
  minus_u64 :: "'d \<Rightarrow> nat \<Rightarrow> 'd"
  times_10 :: "'d \<Rightarrow> 'd"

fun places_loop :: "'d double_ops \<Rightarrow> 'd \<Rightarrow> nat \<Rightarrow> u8 list" where
  "places_loop D x 0 = []"
| "places_loop D x (Suc k) = (let x = times_10 D x in of_nat (48 + to_u64 D x mod 10) # places_loop D x k)"

definition format_double :: "'d double_ops \<Rightarrow> 'd \<Rightarrow> nat \<Rightarrow> u8 list option" where
  "format_double D x precision = do {
     whole \<leftarrow> format_number (to_u64 D x) 10;
     Some (whole @ [46] @ places_loop D (minus_u64 D x (to_u64 D x)) precision) }"

text \<open>The variable arguments; a read of the wrong kind, or of one too many, is undefined.\<close>

datatype 'd va_arg = Word64 nat | Dbl 'd | Text "u8 list" | Chr u8

text \<open>
  \<open>kvsprintf\<close> from \<open>inx\<close> on: what is written before the final NUL.  A \<open>%\<close> before the terminator
  makes the loop step over it.
\<close>

fun kvsprintf :: "'d double_ops \<Rightarrow> u8 list \<Rightarrow> 'd va_arg list \<Rightarrow> u8 list option" where
  "kvsprintf D [] ap = None"
| "kvsprintf D [c] ap = (if c = 0 then Some [] else None)"
| "kvsprintf D (c # d # cs) ap =
     (if c = 0 then Some []
      else if c \<noteq> 37 then do { r \<leftarrow> kvsprintf D (d # cs) ap; Some (c # r) }
      else if d = 112 \<or> d = 120 then
        (case ap of Word64 n # ap \<Rightarrow> do {
           s \<leftarrow> format_number n 16; r \<leftarrow> kvsprintf D cs ap;
           Some ((if d = 112 then [48, 120] else []) @ s @ r) } | _ \<Rightarrow> None)
      else if d = 117 \<or> d = 100 \<or> d = 105 then
        (case ap of Word64 n # ap \<Rightarrow> do { s \<leftarrow> format_number n 10; r \<leftarrow> kvsprintf D cs ap; Some (s @ r) } | _ \<Rightarrow> None)
      else if d = 102 then
        (case ap of Dbl x # ap \<Rightarrow> do { s \<leftarrow> format_double D x 6; r \<leftarrow> kvsprintf D cs ap; Some (s @ r) } | _ \<Rightarrow> None)
      else if d = 115 then
        (case ap of Text s # ap \<Rightarrow> do {
           len \<leftarrow> strlen s; r \<leftarrow> kvsprintf D cs ap; Some (take len s @ r) } | _ \<Rightarrow> None)
      else if d = 99 then
        (case ap of Chr ch # ap \<Rightarrow> do { r \<leftarrow> kvsprintf D cs ap; Some (ch # r) } | _ \<Rightarrow> None)
      else kvsprintf D cs ap)"

text \<open>\<open>ksprintf\<close> into \<open>str\<close>; \<open>kprintf\<close> into its array of 512 bytes, which then goes to the terminal.\<close>

definition ksprintf :: "'d double_ops \<Rightarrow> u8 list \<Rightarrow> u8 list \<Rightarrow> 'd va_arg list \<Rightarrow> (u8 list \<times> nat) option" where
  "ksprintf D str format ap = do {
     s \<leftarrow> kvsprintf D format ap;
     str \<leftarrow> blk_put str 0 (s @ [0]);
     Some (str, length s) }"

definition kprintf_text :: "'d double_ops \<Rightarrow> u8 list \<Rightarrow> 'd va_arg list \<Rightarrow> (u8 list \<times> nat) option" where
  "kprintf_text D format ap = ksprintf D (replicate 512 0) format ap"

section \<open>Digits of a number\<close>

text \<open>The digits of \<open>n\<close> in base \<open>b\<close>, least first, and their value.\<close>

function radix :: "nat \<Rightarrow> nat \<Rightarrow> nat list" where
  "radix b n = (if b < 2 then [] else n mod b # (if n div b = 0 then [] else radix b (n div b)))"
  by pat_completeness auto
termination
proof (relation "measure snd", goal_cases)
  case (2 b n)
  then have "0 < n" "1 < b" by (auto simp: div_eq_0_iff)
  then show ?case by (simp add: div_less_dividend)
qed simp

declare radix.simps [simp del]

definition radix_val :: "nat \<Rightarrow> nat list \<Rightarrow> nat" where
  "radix_val b ds = foldr (\<lambda>d a. d + b * a) ds 0"

text \<open>The character of a digit: \<open>0\<close> to \<open>9\<close>, then \<open>a\<close> to \<open>f\<close>.\<close>

definition glyph :: "nat \<Rightarrow> u8" where
  "glyph d = (if d < 10 then of_nat (48 + d) else of_nat (97 + (d - 10)))"

lemma radix_step:
  "2 \<le> b \<Longrightarrow> radix b n = n mod b # (if n div b = 0 then [] else radix b (n div b))"
  by (subst radix.simps) simp

lemma radix_val_radix: "2 \<le> b \<Longrightarrow> radix_val b (radix b n) = n"
proof (induction b n rule: radix.induct)
  case (1 b n)
  then show ?case by (subst radix_step) (auto simp: radix_val_def div_eq_0_iff)
qed

lemma radix_less: "2 \<le> b \<Longrightarrow> d \<in> set (radix b n) \<Longrightarrow> d < b"
proof (induction b n rule: radix.induct)
  case (1 b n)
  from 1(2,3) have "d = n mod b \<or> n div b \<noteq> 0 \<and> d \<in> set (radix b (n div b))"
    by (subst (asm) radix_step) (auto split: if_splits)
  then show ?case using 1(1,2) by auto
qed

lemma radix_length: "2 \<le> b \<Longrightarrow> n < b ^ k \<Longrightarrow> 0 < k \<Longrightarrow> length (radix b n) \<le> k"
proof (induction b n arbitrary: k rule: radix.induct)
  case (1 b n)
  show ?case
  proof (cases "n div b = 0")
    case True
    then show ?thesis using 1(2,4) by (subst radix_step) simp_all
  next
    case False
    obtain j where j: "k = Suc j" using 1(4) by (cases k) auto
    have "0 < j" using False 1(3) j by (cases j) auto
    moreover have "n div b < b ^ j" using 1(3) j by (simp add: less_mult_imp_div_less mult.commute)
    ultimately have "length (radix b (n div b)) \<le> j" using 1(1,2) False by auto
    then show ?thesis using False j 1(2) by (subst radix_step) simp_all
  qed
qed

lemma glyph_dec: "d < 10 \<Longrightarrow> glyph d = of_nat (48 + d)"
  by (simp add: glyph_def)

lemma hex_table: "d < 16 \<Longrightarrow> hex_ascii ! d = glyph d"
proof -
  have "hex_ascii = map glyph [0..<16]" by (simp add: glyph_def hex_ascii_def of_str_def upt_rec)
  moreover assume "d < 16"
  ultimately show ?thesis using nth_map_upt [of d 16 0 glyph] by (simp only: diff_zero add_0)
qed

lemma glyph_sint: "d < 10 \<Longrightarrow> sint (glyph d) = 48 + int d"
proof -
  assume "d < 10"
  then have "d \<in> {0, 1, 2, 3, 4, 5, 6, 7, 8, 9}" by auto
  then show ?thesis by (auto simp: glyph_def)
qed

lemma dec_digits_radix:
  "length tmp + length (radix 10 n) \<le> 32 \<Longrightarrow> dec_digits n tmp = Some (tmp @ map glyph (radix 10 n))"
proof (induction n arbitrary: tmp rule: less_induct)
  case (less n)
  have g: "glyph (n mod 10) = of_nat (48 + n mod 10)" by (rule glyph_dec) simp
  have r: "radix 10 n = n mod 10 # (if n div 10 = 0 then [] else radix 10 (n div 10))" by (rule radix_step) simp
  show ?case
  proof (cases "n div 10 = 0")
    case True
    then show ?thesis using less.prems r g by (subst dec_digits.simps) (simp add: Let_def)
  next
    case False
    then have "n div 10 < n" by simp
    then have "dec_digits (n div 10) (tmp @ [glyph (n mod 10)]) =
        Some ((tmp @ [glyph (n mod 10)]) @ map glyph (radix 10 (n div 10)))"
      using less.IH [of "n div 10" "tmp @ [glyph (n mod 10)]"] less.prems r False by simp
    then show ?thesis using False less.prems r g by (subst dec_digits.simps) (simp add: Let_def)
  qed
qed

lemma mask_digits_radix:
  assumes "b = 16 \<or> b = 8"
  shows "length tmp + length (radix b n) \<le> 32 \<Longrightarrow> mask_digits b n tmp = Some (tmp @ map glyph (radix b n))"
proof (induction n arbitrary: tmp rule: less_induct)
  case (less n)
  have sh: "n div 2 ^ shift_of b = n div b" using assms by (auto simp: shift_of_def)
  have "n mod b < 16" using assms by (elim disjE) (simp_all add: less_le_trans [OF mod_less_divisor])
  then have h: "hex_ascii ! (n mod b) = glyph (n mod b)" by (rule hex_table)
  have r: "radix b n = n mod b # (if n div b = 0 then [] else radix b (n div b))"
    by (rule radix_step) (use assms in auto)
  show ?case
  proof (cases "n div b = 0")
    case True
    then show ?thesis using less.prems r sh h by (subst mask_digits.simps) (simp add: Let_def)
  next
    case False
    then have "n div b < n" using assms by auto
    then have "mask_digits b (n div b) (tmp @ [glyph (n mod b)]) =
        Some ((tmp @ [glyph (n mod b)]) @ map glyph (radix b (n div b)))"
      using less.IH [of "n div b" "tmp @ [glyph (n mod b)]"] less.prems r False by simp
    then show ?thesis using False less.prems r sh h by (subst mask_digits.simps) (simp add: Let_def)
  qed
qed

lemma radix_length64: "b = 16 \<or> b = 8 \<or> b = 10 \<Longrightarrow> n < 2 ^ 64 \<Longrightarrow> length (radix b n) \<le> 22"
proof -
  assume b: "b = 16 \<or> b = 8 \<or> b = 10" and n: "n < 2 ^ 64"
  have "(2 :: nat) ^ 64 \<le> b ^ 22" using b by auto
  with n have "n < b ^ 22" by (rule order.strict_trans2)
  then show ?thesis using b by (intro radix_length) auto
qed

lemma format_number_radix:
  "b = 16 \<or> b = 8 \<or> b = 10 \<Longrightarrow> n < 2 ^ 64 \<Longrightarrow> format_number n b = Some (map glyph (rev (radix b n)))"
  using radix_length64 [of b n] dec_digits_radix [of "[]" n] mask_digits_radix [of b "[]" n]
  by (auto simp: format_number_def rev_map)

section \<open>Parsing digits\<close>

lemma digits_loop_radix:
  assumes w: "\<And>x. 0 \<le> x \<Longrightarrow> x \<le> int n \<Longrightarrow> w x = x"
  shows "i + length (radix 10 n) \<le> 20 \<Longrightarrow>
    digits_loop w (map glyph (rev (radix 10 n)) @ rest) 0 i = digits_loop w rest (int n) (i + length (radix 10 n))"
  using w
proof (induction n arbitrary: rest rule: less_induct)
  case (less n)
  have r: "radix 10 n = n mod 10 # (if n div 10 = 0 then [] else radix 10 (n div 10))" by (rule radix_step) simp
  have s: "sint (glyph (n mod 10)) = 48 + int (n mod 10)" by (rule glyph_sint) simp
  have m: "int (n mod 10) \<le> 9" by presburger
  have e: "int (n div 10) * 10 + int (n mod 10) = int n" by presburger
  have w1: "w (int (n div 10) * 10) = int (n div 10) * 10" "w (int n) = int n"
    by (rule less.prems(2); presburger)+
  show ?case
  proof (cases "n div 10 = 0")
    case True
    then have "n mod 10 = n" by simp
    then show ?thesis using True r s m less.prems(1) w1 by simp
  next
    case False
    then have l: "n div 10 < n" by simp
    have "digits_loop w (map glyph (rev (radix 10 (n div 10))) @ (glyph (n mod 10) # rest)) 0 i =
        digits_loop w (glyph (n mod 10) # rest) (int (n div 10)) (i + length (radix 10 (n div 10)))"
      by (rule less.IH [OF l]) (use less.prems r False in auto)
    also have "\<dots> = digits_loop w rest (int n) (i + length (radix 10 n))"
      using less.prems(1) r False s m w1 e by simp
    finally show ?thesis using r False by simp
  qed
qed

section \<open>itoa\<close>

lemma c_div_nat: "c_div (int n) 10 = int (n div 10)"
  by (simp add: c_div_nonneg zdiv_int)

lemma c_mod_nat: "c_mod (int n) 10 = int (n mod 10)"
  by (simp add: c_mod_nonneg zmod_int)

lemma count_div_radix: "count_div (int n) s = s + length (radix 10 n) - 1"
proof (induction n arbitrary: s rule: less_induct)
  case (less n)
  have r: "radix 10 n = n mod 10 # (if n div 10 = 0 then [] else radix 10 (n div 10))" by (rule radix_step) simp
  have ne: "radix 10 (n div 10) \<noteq> []" by (subst radix_step) simp_all
  show ?case
  proof (cases "n div 10 = 0")
    case True
    then show ?thesis using r by (subst count_div.simps) (simp add: c_div_nat Let_def)
  next
    case False
    then have "count_div (int (n div 10)) (s + 1) = s + 1 + length (radix 10 (n div 10)) - 1"
      by (intro less.IH) simp
    then show ?thesis using False r ne by (subst count_div.simps) (simp add: c_div_nat Let_def)
  qed
qed

lemma put_digits_radix:
  "0 < n \<Longrightarrow> sz - index = int j \<Longrightarrow> Suc j = length (radix 10 n) \<Longrightarrow> j < length str \<Longrightarrow>
   put_digits str sz (int n) index = Some (map glyph (rev (radix 10 n)) @ drop (Suc j) str)"
proof (induction n arbitrary: str index j rule: less_induct)
  case (less n)
  have r: "radix 10 n = n mod 10 # (if n div 10 = 0 then [] else radix 10 (n div 10))" by (rule radix_step) simp
  have g: "glyph (n mod 10) = of_int (48 + int (n mod 10))"
    using glyph_dec [of "n mod 10"] by simp
  have one: "put_digits str sz (int n) index = put_digits (str[j := glyph (n mod 10)]) sz (int (n div 10)) (index + 1)"
    using less.prems g by (subst put_digits.simps) (simp add: c_div_nat c_mod_nat)
  show ?case
  proof (cases "n div 10 = 0")
    case True
    then have "j = 0" using less.prems(3) r by simp
    with True show ?thesis unfolding one r using less.prems(4)
      by (subst put_digits.simps) (cases str, simp_all)
  next
    case False
    then have len: "length (radix 10 (n div 10)) = j" using less.prems(3) r by simp
    have "radix 10 (n div 10) \<noteq> []" by (subst radix_step) simp_all
    then obtain i where j: "j = Suc i" using len by (cases j) auto
    have "put_digits (str[j := glyph (n mod 10)]) sz (int (n div 10)) (index + 1) =
        Some (map glyph (rev (radix 10 (n div 10))) @ drop (Suc i) (str[j := glyph (n mod 10)]))"
      by (rule less.IH) (use False less.prems(2,4) len j in auto)
    also have "drop (Suc i) (str[j := glyph (n mod 10)]) = glyph (n mod 10) # drop (Suc j) str"
      using less.prems(4) j by (simp add: drop_update_swap flip: Cons_nth_drop_Suc)
    finally show ?thesis unfolding one using r False by simp
  qed
qed

lemma itoa_radix:
  assumes "length (radix 10 n) < length str"
  shows "itoa (int n) str b = Some (map glyph (rev (radix 10 n)) @ 0 # drop (length (radix 10 n) + 1) str)"
proof (cases "n = 0")
  case True
  have "radix 10 0 = [0]" by (subst radix_step) simp_all
  moreover have "glyph 0 = 48" using glyph_dec [of 0] by simp
  moreover obtain x y zs where "str = x # y # zs" using assms calculation(1) True
    by (cases str; cases "tl str") auto
  ultimately show ?thesis using True by (simp add: itoa_def)
next
  case False
  let ?d = "radix 10 n"
  have ne: "?d \<noteq> []" by (subst radix_step) simp_all
  then obtain j where j: "length ?d = Suc j" by (cases "length ?d") auto
  have "count_div (int n) 0 = j" using count_div_radix [of n 0] j by simp
  moreover have "put_digits str (int j) (int n) 0 = Some (map glyph (rev ?d) @ drop (Suc j) str)"
    by (rule put_digits_radix) (use False j assms in auto)
  moreover have "arr_put (map glyph (rev ?d) @ drop (Suc j) str) (j + 1) 0 =
      Some (map glyph (rev ?d) @ 0 # drop (length ?d + 1) str)"
    using assms j by (simp add: arr_put_def list_update_append upd_conv_take_nth_drop)
  ultimately show ?thesis using False j by (simp add: itoa_def)
qed

section \<open>Properties\<close>

text \<open>
  C32. In bases 8, 10 and 16 \<open>format_number\<close> writes the digits of any 64-bit value, most significant
  first, and at most 22 of them, so its array of 32 never overflows.
\<close>

theorem format_number_reads_back:
  assumes "b = 16 \<or> b = 8 \<or> b = 10" and "n < 2 ^ 64"
  shows "\<exists>ds. format_number n b = Some (map glyph (rev ds)) \<and> radix_val b ds = n \<and>
    (\<forall>d \<in> set ds. d < b) \<and> length ds \<le> 22"
  using format_number_radix [OF assms] radix_val_radix [of b n] radix_less [of b _ n] radix_length64 [OF assms] assms(1)
  by (intro exI [of _ "radix b n"]) auto

theorem format_number_reads_back_witness:
  "\<exists>ds. format_number 0xbeef 16 = Some (map glyph (rev ds)) \<and> radix_val 16 ds = 0xbeef"
  using format_number_reads_back [of 16 "0xbeef"] by auto

text \<open>
  \<open>itoa\<close> and \<open>atoi\<close> are inverse on every non-negative \<open>int\<close>: the digits \<open>itoa\<close> stores are those of
  \<open>format_number\<close>, terminated, and \<open>atoi\<close> reads the value back.
\<close>

theorem itoa_atoi_roundtrip:
  assumes "0 \<le> v" and "v < 2 ^ 31" and "11 \<le> length str"
  shows "\<exists>s r. itoa v str b = Some (s @ 0 # r) \<and> format_number (nat v) 10 = Some s \<and>
    length (s @ 0 # r) = length str \<and> atoi (s @ 0 # r) = Some v"
proof -
  define n where "n = nat v"
  have v: "v = int n" "n < 2 ^ 31" using assms by (auto simp: n_def)
  let ?s = "map glyph (rev (radix 10 n))"
  have "n < 10 ^ 10" using v(2) by simp
  then have l: "length (radix 10 n) \<le> 10" by (intro radix_length) simp_all
  have i: "itoa v str b = Some (?s @ 0 # drop (length (radix 10 n) + 1) str)"
    unfolding v(1) by (rule itoa_radix) (use l assms(3) in simp)
  have f: "format_number (nat v) 10 = Some ?s"
    using format_number_radix [of 10 n] v by simp
  have w: "wrap_s32 x = x" if "0 \<le> x" "x \<le> int n" for x using that v(2) by (intro wrap_s32_small) auto
  have loop: "digits_loop wrap_s32 (?s @ 0 # r) 0 0 = Some (int n)" for r
    using digits_loop_radix [of n wrap_s32 0 "0 # r"] w l by simp
  obtain d ds where s: "?s = d # ds" "\<exists>k < 10. d = glyph k"
  proof -
    have "radix 10 n \<noteq> []" by (subst radix_step) simp_all
    then have a: "?s = glyph (last (radix 10 n)) # tl ?s" by (cases "radix 10 n" rule: rev_cases) auto
    have c: "last (radix 10 n) < 10" using radix_less [of 10 _ n] \<open>radix 10 n \<noteq> []\<close> by simp
    show ?thesis by (rule that [OF a]) (use c in blast)
  qed
  then obtain k where "k < 10" "d = glyph k" by blast
  then have "sint d \<noteq> sint (45 :: u8)" using glyph_sint [of k] by simp
  then have "d \<noteq> 45" by blast
  then have "atoi (?s @ 0 # r) = Some v" for r using loop [of r] s(1) v(1) by (simp add: atoi_def)
  moreover have "length (?s @ 0 # drop (length (radix 10 n) + 1) str) = length str" using l assms(3) by simp
  ultimately show ?thesis using i f by blast
qed

theorem itoa_atoi_roundtrip_witness:
  "\<exists>s r. itoa 2026 (replicate 16 0) 10 = Some (s @ 0 # r) \<and> atoi (s @ 0 # r) = Some 2026"
  using itoa_atoi_roundtrip [of 2026 "replicate 16 0" 10] by auto

text \<open>A negative value prints characters below \<open>'0'\<close>: no sign is written.\<close>

lemma itoa_negative: "itoa (- 7) (replicate 3 1) 10 = Some [41, 0, 1]"
  by (simp add: itoa_def count_div.simps put_digits.simps c_div_def c_mod_def numeral_3_eq_3 Let_def)

end
