(* ===== verification/AtaPio.thy ===== *)
theory AtaPio
  imports PortIO Fat
begin

text \<open>
  The disk driver (\<open>kernel/src/ata-pio.c\<close>): programmed transfers of sectors through the
  command block registers.  The drive is a parameter; \<open>ata_device\<close> states the part of the ATA
  protocol for programmed transfers the driver relies on: a word may be moved only after the
  status register has shown the drive not busy and requesting data for that sector.  The two
  transfer routines are shown to implement the sector interface (\<^const>\<open>read_sectors\<close>,
  \<^const>\<open>write_sectors\<close>) the file system is modelled over.
\<close>

section \<open>The driver\<close>

text \<open>The command block registers, the commands and the status bits.\<close>

abbreviation ATAPIO_DATA_REGISTER_PORT :: u16 where "ATAPIO_DATA_REGISTER_PORT \<equiv> 0x1F0"
abbreviation ATAPIO_SECTOR_COUNT_REGISTER_PORT :: u16 where "ATAPIO_SECTOR_COUNT_REGISTER_PORT \<equiv> 0x1F2"
abbreviation ATAPIO_LBA_LOW_REGISTER_PORT :: u16 where "ATAPIO_LBA_LOW_REGISTER_PORT \<equiv> 0x1F3"
abbreviation ATAPIO_LBA_MID_REGISTER_PORT :: u16 where "ATAPIO_LBA_MID_REGISTER_PORT \<equiv> 0x1F4"
abbreviation ATAPIO_LBA_HIGH_REGISTER_PORT :: u16 where "ATAPIO_LBA_HIGH_REGISTER_PORT \<equiv> 0x1F5"
abbreviation ATAPIO_DRIVE_REGISTER_PORT :: u16 where "ATAPIO_DRIVE_REGISTER_PORT \<equiv> 0x1F6"
abbreviation ATAPIO_COMMAND_REGISTER_PORT :: u16 where "ATAPIO_COMMAND_REGISTER_PORT \<equiv> 0x1F7"
abbreviation ATAPIO_REGULAR_STATUS_REGISTER_PORT :: u16 where "ATAPIO_REGULAR_STATUS_REGISTER_PORT \<equiv> 0x1F7"
abbreviation ATAPIO_READ :: u8 where "ATAPIO_READ \<equiv> 0x20"
abbreviation ATAPIO_WRITE :: u8 where "ATAPIO_WRITE \<equiv> 0x30"
abbreviation ATAPIO_STATUS_BSY :: u8 where "ATAPIO_STATUS_BSY \<equiv> 0x80"
abbreviation ATAPIO_STATUS_RDY :: u8 where "ATAPIO_STATUS_RDY \<equiv> 0x40"

definition atapio_bsy_wait :: "device \<Rightarrow> io_trace \<Rightarrow> io_trace option" where
  "atapio_bsy_wait d tr = wait_clear d ATAPIO_REGULAR_STATUS_REGISTER_PORT ATAPIO_STATUS_BSY tr"

definition atapio_drq_wait :: "device \<Rightarrow> io_trace \<Rightarrow> io_trace option" where
  "atapio_drq_wait d tr = wait_set d ATAPIO_REGULAR_STATUS_REGISTER_PORT ATAPIO_STATUS_RDY tr"

text \<open>The register writes both transfers begin with.\<close>

definition ata_command :: "u32 \<Rightarrow> u8 \<Rightarrow> u8 \<Rightarrow> io_trace \<Rightarrow> io_trace" where
  "ata_command lba sector_count cmd tr =
     outb ATAPIO_COMMAND_REGISTER_PORT cmd
       (outb ATAPIO_LBA_HIGH_REGISTER_PORT (ucast (drop_bit 16 lba))
         (outb ATAPIO_LBA_MID_REGISTER_PORT (ucast (drop_bit 8 lba))
           (outb ATAPIO_LBA_LOW_REGISTER_PORT (ucast lba)
             (outb ATAPIO_SECTOR_COUNT_REGISTER_PORT sector_count
               (outb ATAPIO_DRIVE_REGISTER_PORT (0xE0 OR ucast (drop_bit 24 lba AND 0xF)) tr)))))"

text \<open>\<open>target[i+256*j] = inw(...)\<close> for the remaining \<open>n\<close> words from index \<open>k\<close>.\<close>

fun ata_read_words :: "device \<Rightarrow> nat \<Rightarrow> nat \<Rightarrow> u16 list \<Rightarrow> io_trace \<Rightarrow> (u16 list \<times> io_trace) option" where
  "ata_read_words d 0 k target tr = Some (target, tr)"
| "ata_read_words d (Suc n) k target tr =
     (case inw d ATAPIO_DATA_REGISTER_PORT tr of (w, tr') \<Rightarrow>
        if k < length target then ata_read_words d n (k + 1) (target[k := w]) tr' else None)"

fun ata_read_loop :: "device \<Rightarrow> nat \<Rightarrow> nat \<Rightarrow> u16 list \<Rightarrow> io_trace \<Rightarrow> (u16 list \<times> io_trace) option" where
  "ata_read_loop d 0 j target tr = Some (target, tr)"
| "ata_read_loop d (Suc n) j target tr = do {
     tr \<leftarrow> atapio_bsy_wait d tr;
     tr \<leftarrow> atapio_drq_wait d tr;
     (target, tr) \<leftarrow> ata_read_words d 256 (256 * j) target tr;
     ata_read_loop d n (j + 1) target tr }"

definition atapio_read_sectors :: "device \<Rightarrow> u32 \<Rightarrow> u8 \<Rightarrow> u16 list \<Rightarrow> io_trace \<Rightarrow> (u16 list \<times> io_trace) option" where
  "atapio_read_sectors d lba sector_count buffer tr = do {
     tr \<leftarrow> atapio_bsy_wait d tr;
     ata_read_loop d (sectors_moved sector_count) 0 buffer (ata_command lba sector_count ATAPIO_READ tr) }"

fun ata_write_words :: "nat \<Rightarrow> nat \<Rightarrow> u16 list \<Rightarrow> io_trace \<Rightarrow> io_trace option" where
  "ata_write_words 0 k target tr = Some tr"
| "ata_write_words (Suc n) k target tr =
     (if k < length target then ata_write_words n (k + 1) target (outw ATAPIO_DATA_REGISTER_PORT (target ! k) tr) else None)"

fun ata_write_loop :: "device \<Rightarrow> nat \<Rightarrow> nat \<Rightarrow> u16 list \<Rightarrow> io_trace \<Rightarrow> io_trace option" where
  "ata_write_loop d 0 j target tr = Some tr"
| "ata_write_loop d (Suc n) j target tr = do {
     tr \<leftarrow> atapio_bsy_wait d tr;
     tr \<leftarrow> atapio_drq_wait d tr;
     tr \<leftarrow> ata_write_words 256 (256 * j) target tr;
     ata_write_loop d n (j + 1) target tr }"

definition atapio_write_sectors :: "device \<Rightarrow> u32 \<Rightarrow> u8 \<Rightarrow> u16 list \<Rightarrow> io_trace \<Rightarrow> io_trace option" where
  "atapio_write_sectors d lba sector_count buffer tr = do {
     tr \<leftarrow> atapio_bsy_wait d tr;
     ata_write_loop d (sectors_moved sector_count) 0 buffer (ata_command lba sector_count ATAPIO_WRITE tr) }"

section \<open>The drive\<close>

text \<open>
  The sector address held in the registers, the words moved since the last command, and the
  contents of a drive after a run: a word written to the data port under a write command
  goes to the next position of the addressed sectors.
\<close>

definition ata_lba :: "io_trace \<Rightarrow> nat" where
  "ata_lba tr = unat (last_out 0x1F3 tr) + 2 ^ 8 * unat (last_out 0x1F4 tr)
     + 2 ^ 16 * unat (last_out 0x1F5 tr) + 2 ^ 24 * unat (last_out 0x1F6 tr AND 0xF)"

fun words_since :: "io_trace \<Rightarrow> nat" where
  "words_since [] = 0"
| "words_since (Outb p v # tr) = (if p = 0x1F7 then 0 else words_since tr)"
| "words_since (Outw p v # tr) = (if p = 0x1F0 then Suc (words_since tr) else words_since tr)"
| "words_since (Inb p v # tr) = words_since tr"
| "words_since (Inw p v # tr) = (if p = 0x1F0 then Suc (words_since tr) else words_since tr)"

definition ata_pos :: "io_trace \<Rightarrow> nat" where
  "ata_pos tr = 256 * ata_lba tr + words_since tr"

text \<open>The number of sectors the last command asked for; the count 0 stands for 256.\<close>

fun ata_count :: "io_trace \<Rightarrow> nat" where
  "ata_count [] = 0"
| "ata_count (Outb p v # tr) =
     (if p = 0x1F7 then (if last_out 0x1F2 tr = 0 then 256 else unat (last_out 0x1F2 tr)) else ata_count tr)"
| "ata_count (Outw p v # tr) = ata_count tr"
| "ata_count (Inb p v # tr) = ata_count tr"
| "ata_count (Inw p v # tr) = ata_count tr"

text \<open>A transfer of which words are still to be moved.\<close>

definition ata_pending :: "io_trace \<Rightarrow> bool" where
  "ata_pending tr \<longleftrightarrow> last_out 0x1F7 tr \<in> {0x20, 0x30} \<and> words_since tr < 256 * ata_count tr"

text \<open>
  The status has been read with busy clear and data request set since the sector began; the
  end of a sector and a new command close the data port again.
\<close>

fun data_open :: "io_trace \<Rightarrow> bool" where
  "data_open [] = False"
| "data_open (Outb p v # tr) = (p \<noteq> 0x1F7 \<and> data_open tr)"
| "data_open (Outw p v # tr) = (data_open tr \<and> (p = 0x1F0 \<longrightarrow> Suc (words_since tr) mod 256 \<noteq> 0))"
| "data_open (Inb p v # tr) = (data_open tr \<or> p = 0x1F7 \<and> v AND 0x80 = 0 \<and> v AND 0x08 \<noteq> 0)"
| "data_open (Inw p v # tr) = (data_open tr \<and> (p = 0x1F0 \<longrightarrow> Suc (words_since tr) mod 256 \<noteq> 0))"

text \<open>A word sent while the port is closed is lost.\<close>

fun drive_words :: "(nat \<Rightarrow> u16) \<Rightarrow> io_trace \<Rightarrow> nat \<Rightarrow> u16" where
  "drive_words w0 [] = w0"
| "drive_words w0 (Outb p v # tr) = drive_words w0 tr"
| "drive_words w0 (Outw p v # tr) =
     (if p = 0x1F0 \<and> last_out 0x1F7 tr = 0x30 \<and> ata_pending tr \<and> data_open tr
      then (drive_words w0 tr)(ata_pos tr := v) else drive_words w0 tr)"
| "drive_words w0 (Inb p v # tr) = drive_words w0 tr"
| "drive_words w0 (Inw p v # tr) = drive_words w0 tr"

text \<open>
  The protocol, for a drive that reports no error and whose status is not read before it is
  valid: the drive becomes not busy and ready again and again; while words are to be moved, it
  requests data whenever it is not busy; what it gives on an open data port is what it holds.
  Nothing is known of a word read from a closed port.
\<close>

definition ata_device :: "device \<Rightarrow> (nat \<Rightarrow> u16) \<Rightarrow> bool" where
  "ata_device d w0 \<longleftrightarrow>
     settles d 0x1F7 (\<lambda>v. v AND 0x80 = 0) \<and> settles d 0x1F7 (\<lambda>v. v AND 0x40 \<noteq> 0) \<and>
     (\<forall>tr. ata_pending tr \<longrightarrow> dev8 d tr 0x1F7 AND 0x80 = 0 \<longrightarrow> dev8 d tr 0x1F7 AND 0x08 \<noteq> 0) \<and>
     (\<forall>tr. last_out 0x1F7 tr = 0x20 \<longrightarrow> ata_pending tr \<longrightarrow> data_open tr \<longrightarrow>
        dev16 d tr 0x1F0 = drive_words w0 tr (ata_pos tr))"

text \<open>The sectors of a drive as the file system sees them.\<close>

definition sectors_of :: "(nat \<Rightarrow> u16) \<Rightarrow> disk" where
  "sectors_of w s = concat (map (\<lambda>k. [lo8 (w k), hi8 (w k)]) [256 * s..<256 * s + 256])"

definition bytes_of :: "u16 list \<Rightarrow> u8 list" where
  "bytes_of ws = concat (map (\<lambda>w. [lo8 w, hi8 w]) ws)"

section \<open>The transfers on such a drive\<close>

lemma words_since_polls [simp]: "words_since (map (Inb p) vs @ tr) = words_since tr"
  by (induction vs) simp_all

lemma drive_words_polls [simp]: "drive_words w0 (map (Inb p) vs @ tr) = drive_words w0 tr"
  by (induction vs) simp_all

lemma ata_count_polls [simp]: "ata_count (map (Inb p) vs @ tr) = ata_count tr"
  by (induction vs) simp_all

lemma data_open_polls: "data_open tr \<Longrightarrow> data_open (map (Inb p) vs @ tr)"
  by (induction vs) simp_all

lemma ata_pending_polls [simp]: "ata_pending (map (Inb p) vs @ tr) = ata_pending tr"
  by (simp add: ata_pending_def)

lemma ata_lba_simps [simp]:
  "ata_lba (map (Inb p) vs @ tr) = ata_lba tr"
  "ata_lba (Inb p v # tr) = ata_lba tr"
  "ata_lba (Inw p w # tr) = ata_lba tr"
  "ata_lba (Outw p w # tr) = ata_lba tr"
  by (simp_all add: ata_lba_def)

lemma bsy_returns: "ata_device d w0 \<Longrightarrow> \<exists>vs. atapio_bsy_wait d tr = Some (map (Inb 0x1F7) vs @ tr)"
  unfolding ata_device_def atapio_bsy_wait_def by (blast intro: wait_clear_returns)

lemma drq_returns: "ata_device d w0 \<Longrightarrow> \<exists>vs. atapio_drq_wait d tr = Some (map (Inb 0x1F7) vs @ tr)"
  unfolding ata_device_def atapio_drq_wait_def by (blast intro: wait_set_returns)

lemma drive_select: "(0xE0 OR ucast (x AND 0xF)) AND 0xF = (ucast (x AND 0xF) :: u8)" for x :: u32
proof (rule bit_word_eqI)
  fix n assume "n < LENGTH(8)"
  then have "n \<in> {0,1,2,3,4,5,6,7}" by auto
  then show "bit ((0xE0 OR ucast (x AND 0xF)) AND 0xF :: u8) n = bit (ucast (x AND 0xF) :: u8) n"
    by (auto simp: bit_simps bit_numeral_rec)
qed

lemma base256:
  fixes a :: nat
  assumes "a = 2 ^ 8 * q + r" "q = 2 ^ 8 * q' + r'" "q' = 2 ^ 8 * q'' + r''"
  shows "r + 2 ^ 8 * r' + 2 ^ 16 * r'' + 2 ^ 24 * q'' = a"
  using assms by simp

lemma lba_bytes:
  fixes lba :: u32
  assumes "unat lba < 2 ^ 28"
  shows "unat (ucast lba :: u8) + 2 ^ 8 * unat (ucast (drop_bit 8 lba) :: u8)
    + 2 ^ 16 * unat (ucast (drop_bit 16 lba) :: u8)
    + 2 ^ 24 * unat (ucast (drop_bit 24 lba AND 0xF) :: u8) = unat lba"
proof -
  have m: "(0xF :: u32) = mask 4" by (simp add: mask_eq_exp_minus_1)
  have "unat lba div 16777216 < 16" using assms by simp
  then have "unat (ucast (drop_bit 24 lba AND 0xF) :: u8) = unat lba div 2 ^ 24"
    unfolding m
    by (simp add: unsigned_ucast_eq unsigned_and_eq unsigned_drop_bit_eq drop_bit_eq_div
        take_bit_eq_mod unat_div_distrib unat_mod_distrib flip: take_bit_eq_mask)
  moreover have "unat (ucast (drop_bit 16 lba) :: u8) = unat lba div 2 ^ 16 mod 2 ^ 8"
    "unat (ucast (drop_bit 8 lba) :: u8) = unat lba div 2 ^ 8 mod 2 ^ 8"
    "unat (ucast lba :: u8) = unat lba mod 2 ^ 8"
    by (simp_all add: unsigned_ucast_eq unsigned_drop_bit_eq drop_bit_eq_div take_bit_eq_mod unat_div_distrib)
  moreover have "unat lba mod 2 ^ 8 + 2 ^ 8 * (unat lba div 2 ^ 8 mod 2 ^ 8)
      + 2 ^ 16 * (unat lba div 2 ^ 16 mod 2 ^ 8) + 2 ^ 24 * (unat lba div 2 ^ 24) = unat lba"
    proof (rule base256)
    show "unat lba = 2 ^ 8 * (unat lba div 2 ^ 8) + unat lba mod 2 ^ 8" by simp
    show "unat lba div 2 ^ 8 = 2 ^ 8 * (unat lba div 2 ^ 16) + unat lba div 2 ^ 8 mod 2 ^ 8"
      using mult_div_mod_eq [of "2 ^ 8" "unat lba div 2 ^ 8"] by (simp flip: div_mult2_eq)
    show "unat lba div 2 ^ 16 = 2 ^ 8 * (unat lba div 2 ^ 24) + unat lba div 2 ^ 16 mod 2 ^ 8"
      using mult_div_mod_eq [of "2 ^ 8" "unat lba div 2 ^ 16"] by (simp flip: div_mult2_eq)
  qed
  ultimately show ?thesis by (simp only:)
qed

lemma ata_command_regs:
  assumes "unat lba < 2 ^ 28"
  shows "last_out 0x1F7 (ata_command lba n cmd tr) = cmd"
    and "words_since (ata_command lba n cmd tr) = 0"
    and "ata_lba (ata_command lba n cmd tr) = unat lba"
    and "drive_words w0 (ata_command lba n cmd tr) = drive_words w0 tr"
    and "ata_count (ata_command lba n cmd tr) = (if n = 0 then 256 else unat n)"
proof -
  show "ata_lba (ata_command lba n cmd tr) = unat lba"
    using lba_bytes [OF assms] by (simp add: ata_lba_def ata_command_def outb_def drive_select)
qed (simp_all add: ata_command_def outb_def)

text \<open>\<open>n\<close> further words of the current command have been moved, and nothing was stored.\<close>

definition advanced :: "io_trace \<Rightarrow> io_trace \<Rightarrow> nat \<Rightarrow> bool" where
  "advanced tr tr' n \<longleftrightarrow> last_out 0x1F7 tr' = last_out 0x1F7 tr \<and> ata_lba tr' = ata_lba tr \<and>
     ata_count tr' = ata_count tr \<and> words_since tr' = words_since tr + n"

lemma advanced_polls: "advanced tr (map (Inb p) vs @ tr) 0"
  by (simp add: advanced_def)

lemma advanced_trans: "advanced a b m \<Longrightarrow> advanced b c n \<Longrightarrow> advanced a c (m + n)"
  by (simp add: advanced_def)

lemma advanced_pos: "advanced a b n \<Longrightarrow> ata_pos b = ata_pos a + n"
  by (simp add: advanced_def ata_pos_def)

lemma upt_split_at: "m \<le> n \<Longrightarrow> [p..<p + n] = [p..<p + m] @ [p + m..<p + n]"
  using upt_add_eq_append [of p "p + m" "n - m"] by simp

text \<open>The buffer after \<open>n\<close> words \<open>ws\<close> were placed from index \<open>k\<close>.\<close>

definition placed :: "'a list \<Rightarrow> nat \<Rightarrow> 'a list \<Rightarrow> 'a list" where
  "placed xs k ws = take k xs @ ws @ drop (k + length ws) xs"

lemma placed_Nil [simp]: "placed xs k [] = xs"
  by (simp add: placed_def)

lemma length_placed [simp]: "k + length ws \<le> length xs \<Longrightarrow> length (placed xs k ws) = length xs"
  by (simp add: placed_def)

lemma placed_Cons:
  "k + length ws < length xs \<Longrightarrow> placed (xs[k := w]) (Suc k) ws = placed xs k (w # ws)"
  by (simp add: placed_def take_Suc_conv_app_nth)

lemma placed_append:
  "k + length vs + length ws \<le> length xs \<Longrightarrow>
    placed (placed xs k vs) (k + length vs) ws = placed xs k (vs @ ws)"
  by (simp add: placed_def ac_simps)

lemma advanced_pending:
  "advanced a b n \<Longrightarrow> last_out 0x1F7 a \<in> {0x20, 0x30} \<Longrightarrow> words_since a + n < 256 * ata_count a \<Longrightarrow> ata_pending b"
  by (simp add: advanced_def ata_pending_def)

text \<open>Within a sector the data port stays open.\<close>

lemma still_open: "w mod 256 + Suc n \<le> 256 \<Longrightarrow> 0 < n \<Longrightarrow> Suc w mod 256 = Suc (w mod 256) \<and> Suc (w mod 256) \<noteq> 256"
  by (simp add: mod_Suc)

lemma ata_read_words_spec:
  assumes d: "ata_device d w0" and "last_out 0x1F7 tr = 0x20" "k + n \<le> length target"
    and "0 < n \<longrightarrow> data_open tr" "words_since tr mod 256 + n \<le> 256" "words_since tr + n \<le> 256 * ata_count tr"
  shows "\<exists>tr'. ata_read_words d n k target tr
      = Some (placed target k (map (drive_words w0 tr) [ata_pos tr..<ata_pos tr + n]), tr') \<and>
    advanced tr tr' n \<and> drive_words w0 tr' = drive_words w0 tr"
  using assms(2-)
proof (induction n arbitrary: k target tr)
  case (Suc n)
  let ?w = "drive_words w0 tr (ata_pos tr)" and ?tr = "Inw 0x1F0 (drive_words w0 tr (ata_pos tr)) # tr"
  have "ata_pending tr" using Suc.prems(1,5) by (simp add: ata_pending_def)
  then have w: "dev16 d tr 0x1F0 = ?w" using d Suc.prems(1,3) by (simp add: ata_device_def)
  have a: "advanced tr ?tr 1" by (simp add: advanced_def)
  have o: "0 < n \<longrightarrow> data_open ?tr" "words_since ?tr mod 256 + n \<le> 256" "words_since ?tr + n \<le> 256 * ata_count ?tr"
    using Suc.prems(3-5) still_open [of "words_since tr" n] by (auto simp: mod_Suc)
  then obtain tr' where
    tr': "ata_read_words d n (Suc k) (target[k := ?w]) ?tr
        = Some (placed (target[k := ?w]) (Suc k) (map (drive_words w0 tr) [Suc (ata_pos tr)..<Suc (ata_pos tr) + n]), tr')"
      "advanced ?tr tr' n" "drive_words w0 tr' = drive_words w0 tr"
    using Suc.IH [OF _ _ o, of "Suc k" "target[k := ?w]"] Suc.prems(1,2) advanced_pos [OF a] by auto
  moreover have "placed (target[k := ?w]) (Suc k) (map (drive_words w0 tr) [Suc (ata_pos tr)..<Suc (ata_pos tr) + n])
      = placed target k (map (drive_words w0 tr) [ata_pos tr..<ata_pos tr + Suc n])"
    using Suc.prems(2) by (subst placed_Cons) (auto simp: upt_conv_Cons simp del: upt_Suc)
  ultimately show ?case
    using Suc.prems(2) advanced_trans [OF a tr'(2)] w by (simp add: inw_def Let_def)
qed (simp add: advanced_def)

text \<open>Waiting for the drive to be idle ends with a status that shows it.\<close>

lemma wait_clear_last:
  "dev8 d (polls d p n tr) p AND m = 0 \<Longrightarrow>
   \<exists>vs v. wait_clear d p m tr = Some (map (Inb p) (v # vs) @ tr) \<and> v AND m = 0 \<and> v = dev8 d (map (Inb p) vs @ tr) p"
proof (induction n arbitrary: tr)
  case 0
  then have "wait_clear d p m tr = Some (map (Inb p) [dev8 d tr p] @ tr)"
    by (subst wait_clear.simps) (simp add: inb_def Let_def)
  then show ?case using 0 by (intro exI [of _ "[]"]) simp
next
  case (Suc n)
  let ?v = "dev8 d tr p"
  show ?case
  proof (cases "?v AND m = 0")
    case True
    then have "wait_clear d p m tr = Some (map (Inb p) [?v] @ tr)"
      by (subst wait_clear.simps) (simp add: inb_def Let_def)
    then show ?thesis using True by (intro exI [of _ "[]"]) simp
  next
    case False
    then have "wait_clear d p m tr = wait_clear d p m (Inb p ?v # tr)"
      by (subst wait_clear.simps) (simp add: inb_def Let_def)
    moreover from Suc.IH [of "Inb p ?v # tr"] Suc.prems obtain vs v where
      "wait_clear d p m (Inb p ?v # tr) = Some (map (Inb p) (v # vs) @ Inb p ?v # tr)" "v AND m = 0"
      "v = dev8 d (map (Inb p) vs @ Inb p ?v # tr) p" by (auto simp: inb_def Let_def)
    ultimately show ?thesis by (intro exI [of _ "vs @ [?v]"] exI [of _ v]) simp
  qed
qed

lemma bsy_opens:
  assumes "ata_device d w0" and "ata_pending tr"
  shows "\<exists>vs. atapio_bsy_wait d tr = Some (map (Inb 0x1F7) vs @ tr) \<and> data_open (map (Inb 0x1F7) vs @ tr)"
proof -
  obtain n where "dev8 d (polls d 0x1F7 n tr) 0x1F7 AND 0x80 = 0"
    using assms(1) unfolding ata_device_def settles_def by blast
  from wait_clear_last [OF this] obtain vs v where
    v: "atapio_bsy_wait d tr = Some (map (Inb 0x1F7) (v # vs) @ tr)" "v AND 0x80 = 0"
      "v = dev8 d (map (Inb 0x1F7) vs @ tr) 0x1F7" unfolding atapio_bsy_wait_def by blast
  have "ata_pending (map (Inb 0x1F7) vs @ tr)" using assms(2) by simp
  then have "v AND 0x08 \<noteq> 0" using assms(1) v(2) unfolding ata_device_def v(3) by blast
  with v(2) have "data_open (map (Inb 0x1F7) (v # vs) @ tr)" by simp
  with v(1) show ?thesis by blast
qed

text \<open>Waiting out one sector leaves the registers and the contents alone.\<close>

lemma sector_waits:
  assumes "ata_device d w0" and "ata_pending tr"
  obtains tr' where "do { tr \<leftarrow> atapio_bsy_wait d tr; atapio_drq_wait d tr } = Some tr'"
    "advanced tr tr' 0" "drive_words w0 tr' = drive_words w0 tr" "data_open tr'"
proof -
  obtain vs where vs: "atapio_bsy_wait d tr = Some (map (Inb 0x1F7) vs @ tr)" "data_open (map (Inb 0x1F7) vs @ tr)"
    using bsy_opens [OF assms] by blast
  obtain us where "atapio_drq_wait d (map (Inb 0x1F7) vs @ tr) = Some (map (Inb 0x1F7) us @ map (Inb 0x1F7) vs @ tr)"
    using drq_returns [OF assms(1)] by blast
  with vs(1) have "do { tr \<leftarrow> atapio_bsy_wait d tr; atapio_drq_wait d tr } = Some (map (Inb 0x1F7) (us @ vs) @ tr)"
    by simp
  moreover have "data_open (map (Inb 0x1F7) (us @ vs) @ tr)" using data_open_polls [OF vs(2)] by simp
  ultimately show thesis using advanced_polls drive_words_polls by (intro that) (simp_all only:)
qed

lemma waits_then:
  "do { tr \<leftarrow> atapio_bsy_wait d tr; atapio_drq_wait d tr } = Some tr' \<Longrightarrow>
    do { tr \<leftarrow> atapio_bsy_wait d tr; tr \<leftarrow> atapio_drq_wait d tr; f tr } = f tr'"
  by (simp flip: bind_assoc)

lemma ata_read_loop_spec:
  assumes "ata_device d w0" and "last_out 0x1F7 tr = 0x20" "256 * (j + n) \<le> length target"
    and "words_since tr = 256 * j" "j + n \<le> ata_count tr"
  shows "\<exists>tr'. ata_read_loop d n j target tr
      = Some (placed target (256 * j) (map (drive_words w0 tr) [ata_pos tr..<ata_pos tr + 256 * n]), tr') \<and>
    advanced tr tr' (256 * n) \<and> drive_words w0 tr' = drive_words w0 tr"
  using assms(2-)
proof (induction n arbitrary: j target tr)
  case (Suc n)
  let ?ws = "\<lambda>a m. map (drive_words w0 tr) [a..<a + m]"
  have "ata_pending tr" using Suc.prems by (simp add: ata_pending_def)
  then obtain t1 where t1: "do { tr \<leftarrow> atapio_bsy_wait d tr; atapio_drq_wait d tr } = Some t1"
    "advanced tr t1 0" "drive_words w0 t1 = drive_words w0 tr" "data_open t1"
    using sector_waits [OF assms(1)] by blast
  have r1: "last_out 0x1F7 t1 = 0x20" "ata_pos t1 = ata_pos tr" "words_since t1 = 256 * j" "ata_count t1 = ata_count tr"
    using t1(2) Suc.prems(1,3) advanced_pos [OF t1(2)] by (simp_all add: advanced_def)
  then obtain t2 where t2: "ata_read_words d 256 (256 * j) target t1
      = Some (placed target (256 * j) (?ws (ata_pos tr) 256), t2)"
    "advanced t1 t2 256" "drive_words w0 t2 = drive_words w0 tr"
    using ata_read_words_spec [OF assms(1) r1(1), of "256 * j" 256 target] Suc.prems(2,4) t1(3,4) by auto
  have a2: "advanced tr t2 256" using advanced_trans [OF t1(2) t2(2)] by simp
  have r2: "last_out 0x1F7 t2 = 0x20" "ata_pos t2 = ata_pos tr + 256"
    "words_since t2 = 256 * (j + 1)" "j + 1 + n \<le> ata_count t2"
    using a2 Suc.prems(1,3,4) advanced_pos [OF a2] by (simp_all add: advanced_def)
  have l: "256 * (j + 1 + n) \<le> length (placed target (256 * j) (?ws (ata_pos tr) 256))" using Suc.prems(2) by simp
  obtain t3 where t3: "ata_read_loop d n (j + 1) (placed target (256 * j) (?ws (ata_pos tr) 256)) t2
      = Some (placed (placed target (256 * j) (?ws (ata_pos tr) 256)) (256 * (j + 1))
          (?ws (ata_pos tr + 256) (256 * n)), t3)"
    "advanced t2 t3 (256 * n)" "drive_words w0 t3 = drive_words w0 tr"
    using Suc.IH [OF r2(1) l r2(3,4)] t2(3) r2(2) by auto
  have "placed (placed target (256 * j) (?ws (ata_pos tr) 256)) (256 * (j + 1)) (?ws (ata_pos tr + 256) (256 * n))
      = placed target (256 * j) (?ws (ata_pos tr) 256 @ ?ws (ata_pos tr + 256) (256 * n))"
    using placed_append [of "256 * j" "?ws (ata_pos tr) 256" "?ws (ata_pos tr + 256) (256 * n)" target] Suc.prems(2)
    by (simp add: ac_simps)
  also have "?ws (ata_pos tr) 256 @ ?ws (ata_pos tr + 256) (256 * n) = ?ws (ata_pos tr) (256 * Suc n)"
    using upt_split_at [of 256 "256 * Suc n" "ata_pos tr"] by (simp add: ac_simps flip: map_append)
  finally show ?case
    using t2(1) t3 advanced_trans [OF a2 t3(2)] by (simp only: ata_read_loop.simps waits_then [OF t1(1)]) simp
qed (simp add: advanced_def)

lemma ata_write_words_spec:
  assumes "last_out 0x1F7 tr = 0x30" "k + n \<le> length target"
    and "0 < n \<longrightarrow> data_open tr" "words_since tr mod 256 + n \<le> 256" "words_since tr + n \<le> 256 * ata_count tr"
  shows "\<exists>tr'. ata_write_words n k target tr = Some tr' \<and> advanced tr tr' n \<and>
    drive_words w0 tr' = (\<lambda>a. if ata_pos tr \<le> a \<and> a < ata_pos tr + n
      then target ! (k + (a - ata_pos tr)) else drive_words w0 tr a)"
  using assms
proof (induction n arbitrary: k tr)
  case (Suc n)
  let ?tr = "Outw 0x1F0 (target ! k) # tr"
  have p: "ata_pending tr" "data_open tr" using Suc.prems(1,3,5) by (simp_all add: ata_pending_def)
  have a: "advanced tr ?tr 1" by (simp add: advanced_def)
  have o: "0 < n \<longrightarrow> data_open ?tr" "words_since ?tr mod 256 + n \<le> 256" "words_since ?tr + n \<le> 256 * ata_count ?tr"
    using Suc.prems(3-5) still_open [of "words_since tr" n] by (auto simp: mod_Suc)
  then obtain tr' where tr': "ata_write_words n (Suc k) target ?tr = Some tr'" "advanced ?tr tr' n"
    "drive_words w0 tr' = (\<lambda>a. if Suc (ata_pos tr) \<le> a \<and> a < Suc (ata_pos tr) + n
      then target ! (Suc k + (a - Suc (ata_pos tr))) else drive_words w0 ?tr a)"
    using Suc.IH [OF _ _ o, of "Suc k"] Suc.prems(1,2) advanced_pos [OF a] by (auto cong: if_cong)
  have "drive_words w0 tr' = (\<lambda>a. if ata_pos tr \<le> a \<and> a < ata_pos tr + Suc n
      then target ! (k + (a - ata_pos tr)) else drive_words w0 tr a)"
    unfolding tr'(3) using Suc.prems(1) p
    by (rule_tac ext) (auto simp: Suc_diff_le Suc_diff_Suc intro!: arg_cong [where f = "(!) target"])
  then show ?case
    using Suc.prems advanced_trans [OF a tr'(2)] tr'(1) by (simp add: outw_def)
qed (auto simp: advanced_def fun_eq_iff)

lemma ata_write_loop_spec:
  assumes "ata_device d w0" and "last_out 0x1F7 tr = 0x30" "256 * (j + n) \<le> length target"
    and "words_since tr = 256 * j" "j + n \<le> ata_count tr"
  shows "\<exists>tr'. ata_write_loop d n j target tr = Some tr' \<and> advanced tr tr' (256 * n) \<and>
    drive_words w0 tr' = (\<lambda>a. if ata_pos tr \<le> a \<and> a < ata_pos tr + 256 * n
      then target ! (256 * j + (a - ata_pos tr)) else drive_words w0 tr a)"
  using assms(2-)
proof (induction n arbitrary: j tr)
  case (Suc n)
  have "ata_pending tr" using Suc.prems by (simp add: ata_pending_def)
  then obtain t1 where t1: "do { tr \<leftarrow> atapio_bsy_wait d tr; atapio_drq_wait d tr } = Some t1"
    "advanced tr t1 0" "drive_words w0 t1 = drive_words w0 tr" "data_open t1"
    using sector_waits [OF assms(1)] by blast
  have r1: "last_out 0x1F7 t1 = 0x30" "ata_pos t1 = ata_pos tr" "words_since t1 = 256 * j" "ata_count t1 = ata_count tr"
    using t1(2) Suc.prems(1,3) advanced_pos [OF t1(2)] by (simp_all add: advanced_def)
  then obtain t2 where t2: "ata_write_words 256 (256 * j) target t1 = Some t2" "advanced t1 t2 256"
    "drive_words w0 t2 = (\<lambda>a. if ata_pos tr \<le> a \<and> a < ata_pos tr + 256
      then target ! (256 * j + (a - ata_pos tr)) else drive_words w0 tr a)"
    using ata_write_words_spec [OF r1(1), of "256 * j" 256 target w0] Suc.prems(2,4) t1(3,4) by (auto cong: if_cong)
  have a2: "advanced tr t2 256" using advanced_trans [OF t1(2) t2(2)] by simp
  have r2: "last_out 0x1F7 t2 = 0x30" "ata_pos t2 = ata_pos tr + 256" "256 * (j + 1 + n) \<le> length target"
    "words_since t2 = 256 * (j + 1)" "j + 1 + n \<le> ata_count t2"
    using a2 Suc.prems advanced_pos [OF a2] by (simp_all add: advanced_def)
  obtain t3 where t3: "ata_write_loop d n (j + 1) target t2 = Some t3" "advanced t2 t3 (256 * n)"
    "drive_words w0 t3 = (\<lambda>a. if ata_pos tr + 256 \<le> a \<and> a < ata_pos tr + 256 + 256 * n
      then target ! (256 * (j + 1) + (a - (ata_pos tr + 256))) else drive_words w0 t2 a)"
    using Suc.IH [OF r2(1,3,4,5)] r2(2) by (auto cong: if_cong)
  have "drive_words w0 t3 = (\<lambda>a. if ata_pos tr \<le> a \<and> a < ata_pos tr + 256 * Suc n
      then target ! (256 * j + (a - ata_pos tr)) else drive_words w0 tr a)"
    unfolding t3(3) t2(3) by (rule ext) auto
  then show ?case
    using t2(1) t3(1) advanced_trans [OF a2 t3(2)] by (simp only: ata_write_loop.simps waits_then [OF t1(1)]) simp
qed (auto simp: fun_eq_iff advanced_def)

section \<open>The sector interface\<close>

lemma length_bytes_of [simp]: "length (bytes_of ws) = 2 * length ws"
  by (induction ws) (simp_all add: bytes_of_def)

lemma bytes_of_append: "bytes_of (xs @ ys) = bytes_of xs @ bytes_of ys"
  by (simp add: bytes_of_def)

lemma sectors_of_bytes: "sectors_of w s = bytes_of (map w [256 * s..<256 * s + 256])"
  by (simp add: sectors_of_def bytes_of_def comp_def)

lemma sectors_concat:
  "concat (map (sectors_of w) [l..<l + n]) = bytes_of (map w [256 * l..<256 * l + 256 * n])"
proof (induction n)
  case (Suc n)
  have "[256 * l..<256 * l + 256 * Suc n] = [256 * l..<256 * l + 256 * n] @ [256 * (l + n)..<256 * (l + n) + 256]"
    using upt_split_at [of "256 * n" "256 * Suc n" "256 * l"] by (simp add: algebra_simps)
  then show ?case using Suc by (simp add: bytes_of_append sectors_of_bytes)
qed (simp add: bytes_of_def)

lemma take_drop_bytes: "take (2 * n) (drop (2 * k) (bytes_of ws)) = bytes_of (take n (drop k ws))"
proof (induction ws arbitrary: n k)
  case (Cons w ws)
  have c: "bytes_of (w # ws) = [lo8 w, hi8 w] @ bytes_of ws" by (simp add: bytes_of_def)
  show ?case
  proof (cases k)
    case 0
    then show ?thesis using Cons.IH [of "n - 1" 0] c by (cases n) (simp_all add: bytes_of_def)
  next
    case (Suc k')
    then show ?thesis using Cons.IH [of n k'] c by simp
  qed
qed (simp add: bytes_of_def)

lemma write_sectors_bytes:
  assumes "length buf = 256 * sectors_moved n" "l < 2 ^ 32"
  shows "write_sectors (sectors_of w) l n (bytes_of buf) = Some (sectors_of
    (\<lambda>a. if 256 * l \<le> a \<and> a < 256 * l + 256 * sectors_moved n then buf ! (a - 256 * l) else w a))"
proof -
  let ?m = "sectors_moved n"
  let ?w = "\<lambda>a. if 256 * l \<le> a \<and> a < 256 * l + 256 * ?m then buf ! (a - 256 * l) else w a"
  have "(if l \<le> s \<and> s < l + ?m then take 512 (drop (512 * (s - l)) (bytes_of buf)) else sectors_of w s)
      = sectors_of ?w s" for s
  proof (cases "l \<le> s \<and> s < l + ?m")
    case True
    then obtain i where i: "s = l + i" "i < ?m" by (metis le_iff_add nat_add_left_cancel_less)
    have "take 256 (drop (256 * i) buf) = map ?w [256 * s..<256 * s + 256]"
      using i assms(1) by (intro nth_equalityI) (auto simp: algebra_simps)
    then show ?thesis
      using i take_drop_bytes [of 256 "256 * i" buf] by (simp add: sectors_of_bytes)
  next
    case False
    then have "map ?w [256 * s..<256 * s + 256] = map w [256 * s..<256 * s + 256]"
      by (intro map_cong) auto
    then show ?thesis using False by (simp only: sectors_of_bytes if_False)
  qed
  then show ?thesis using assms by (simp add: write_sectors_def Let_def)
qed

lemma sectors_moved_small: "unat n < 128 \<Longrightarrow> sectors_moved n = unat n"
proof -
  assume "unat n < 128"
  then have "int (unat n) < 128" by linarith
  then have "uint n < 128" by simp
  then have "sint n = uint n" unfolding sint_uint by (intro signed_take_bit_int_eq_self) (simp_all add: order_trans [OF _ unsigned_greater_eq])
  then show ?thesis by (simp add: sectors_moved_def)
qed

lemma ata_read_result:
  assumes "ata_device d w0" "unat lba < 2 ^ 28" and n: "0 < unat n" "unat n < 128" "256 * unat n \<le> length buf"
  shows "\<exists>tr'. atapio_read_sectors d lba n buf tr = Some (placed buf 0
      (map (drive_words w0 tr) [256 * unat lba..<256 * unat lba + 256 * unat n]), tr') \<and>
    drive_words w0 tr' = drive_words w0 tr \<and> \<not> ata_pending tr'"
proof -
  obtain vs where vs: "atapio_bsy_wait d tr = Some (map (Inb 0x1F7) vs @ tr)"
    using bsy_returns [OF assms(1)] by blast
  let ?t = "ata_command lba n 0x20 (map (Inb 0x1F7) vs @ tr)"
  note R = ata_command_regs [OF assms(2), where n = n and cmd = "0x20" and tr = "map (Inb 0x1F7) vs @ tr"]
  have c: "ata_count ?t = unat n" using R(5) n(1) by auto
  from ata_read_loop_spec [OF assms(1) R(1), of 0 "unat n" buf] n(3) c R(2) obtain tr' where
    "ata_read_loop d (unat n) 0 buf ?t = Some (placed buf 0 (map (drive_words w0 ?t) [ata_pos ?t..<ata_pos ?t + 256 * unat n]), tr')"
    "advanced ?t tr' (256 * unat n)" "drive_words w0 tr' = drive_words w0 ?t" by auto
  then show ?thesis using vs R(2-4) c
    by (simp add: atapio_read_sectors_def sectors_moved_small [OF n(2)] ata_pos_def advanced_def ata_pending_def)
qed

lemma ata_write_result:
  assumes "ata_device d w0" "unat lba < 2 ^ 28" and n: "0 < unat n" "unat n < 128" "256 * unat n \<le> length buf"
  shows "\<exists>tr'. atapio_write_sectors d lba n buf tr = Some tr' \<and> \<not> ata_pending tr' \<and>
    drive_words w0 tr' = (\<lambda>a. if 256 * unat lba \<le> a \<and> a < 256 * unat lba + 256 * unat n
      then buf ! (a - 256 * unat lba) else drive_words w0 tr a)"
proof -
  obtain vs where vs: "atapio_bsy_wait d tr = Some (map (Inb 0x1F7) vs @ tr)"
    using bsy_returns [OF assms(1)] by blast
  let ?t = "ata_command lba n 0x30 (map (Inb 0x1F7) vs @ tr)"
  note R = ata_command_regs [OF assms(2), where n = n and cmd = "0x30" and tr = "map (Inb 0x1F7) vs @ tr"]
  have c: "ata_count ?t = unat n" using R(5) n(1) by auto
  from ata_write_loop_spec [OF assms(1) R(1), of 0 "unat n" buf] n(3) c R(2) obtain tr' where
    "ata_write_loop d (unat n) 0 buf ?t = Some tr'" "advanced ?t tr' (256 * unat n)"
    "drive_words w0 tr' = (\<lambda>a. if ata_pos ?t \<le> a \<and> a < ata_pos ?t + 256 * unat n
      then buf ! (256 * 0 + (a - ata_pos ?t)) else drive_words w0 ?t a)" by auto
  then show ?thesis using vs R(2-4) c
    by (simp add: atapio_write_sectors_def sectors_moved_small [OF n(2)] ata_pos_def advanced_def ata_pending_def
        cong: if_cong)
qed

text \<open>The wait named after the data request returns on a drive that never requests data.\<close>

lemma drq_wait_tests_ready:
  "atapio_drq_wait \<lparr>dev8 = (\<lambda>tr p. 0x40), dev16 = (\<lambda>tr p. 0)\<rparr> tr = Some (Inb 0x1F7 0x40 # tr)"
  unfolding atapio_drq_wait_def by (subst wait_set.simps) (simp add: inb_def)

text \<open>
  C13.  On a drive that follows the protocol and has no transfer outstanding, the driver
  implements the sector interface the file system is built on, for every 28-bit sector number
  and 1 to 127 sectors: a read returns and fills the buffer with the bytes
  \<^const>\<open>read_sectors\<close> gives and leaves the drive unchanged, a write returns and leaves on the
  drive what \<^const>\<open>write_sectors\<close> leaves, and neither leaves words of the transfer unmoved.
\<close>

theorem atapio_implements_sectors:
  assumes "ata_device d w0" and "\<not> ata_pending tr" and "unat lba < 2 ^ 28" "0 < unat n" "unat n < 128"
    and "length buf = 256 * unat n"
  shows "(\<exists>buf' tr'. atapio_read_sectors d lba n buf tr = Some (buf', tr') \<and>
      bytes_of buf' = read_sectors (sectors_of (drive_words w0 tr)) (unat lba) n \<and>
      drive_words w0 tr' = drive_words w0 tr \<and> \<not> ata_pending tr') \<and>
    (\<exists>tr'. atapio_write_sectors d lba n buf tr = Some tr' \<and>
      write_sectors (sectors_of (drive_words w0 tr)) (unat lba) n (bytes_of buf)
        = Some (sectors_of (drive_words w0 tr')) \<and> \<not> ata_pending tr')"
proof -
  have l: "unat lba < 2 ^ 32" and b: "256 * unat n \<le> length buf" using assms(3,6) by simp_all
  note m = sectors_moved_small [OF assms(5)]
  show ?thesis
    using ata_read_result [OF assms(1,3-5) b, of tr] ata_write_result [OF assms(1,3-5) b, of tr]
      write_sectors_bytes [OF _ l, of buf n "drive_words w0 tr"] l assms(6)
    by (auto simp: m read_sectors_def Let_def placed_def sectors_concat)
qed

text \<open>A drive that is busy at first and requests data once its status has been read.\<close>

definition busy_drive :: "(nat \<Rightarrow> u16) \<Rightarrow> device" where
  "busy_drive w0 = \<lparr>dev8 = (\<lambda>tr p. case tr of Inb q v # _ \<Rightarrow> 0x48 | _ \<Rightarrow> 0x80),
     dev16 = (\<lambda>tr p. if data_open tr then drive_words w0 tr (ata_pos tr) else 0xFFFF)\<rparr>"

lemma busy_drive_device: "ata_device (busy_drive w0) w0"
proof -
  have "dev8 (busy_drive w0) (polls (busy_drive w0) 0x1F7 1 tr) 0x1F7 = 0x48" for tr
    by (simp add: busy_drive_def inb_def Let_def)
  then have "settles (busy_drive w0) 0x1F7 (\<lambda>v. v AND 0x80 = 0)" "settles (busy_drive w0) 0x1F7 (\<lambda>v. v AND 0x40 \<noteq> 0)"
    unfolding settles_def by (intro allI exI [of _ 1]; simp only: ; simp)+
  then show ?thesis by (auto simp: ata_device_def busy_drive_def split: list.splits io_event.splits)
qed

theorem atapio_implements_sectors_witness:
  "\<exists>buf' tr'. atapio_read_sectors (busy_drive of_nat) 5 2 (replicate 512 0) [] = Some (buf', tr') \<and>
    bytes_of buf' = read_sectors (sectors_of (drive_words of_nat [])) 5 2"
proof -
  have l: "unat (5 :: u32) = 5" by simp
  have n: "0 < unat (2 :: u8)" "unat (2 :: u8) < 128" by simp_all
  have b: "length (replicate 512 (0 :: u16)) = 256 * unat (2 :: u8)" unfolding length_replicate by simp
  have "\<not> ata_pending []" "unat (5 :: u32) < 2 ^ 28" by (simp_all add: ata_pending_def)
  from atapio_implements_sectors [OF busy_drive_device this n b, of of_nat] show ?thesis unfolding l by blast
qed

end
