(* ===== verification/Clock.thy ===== *)
theory Clock
  imports PortIO
begin

text \<open>
  Time keeping (\<open>kernel/src/time.c\<close>, \<open>kernel/src/pit.c\<close>): the real-time clock read at start-up,
  the software clock advanced once a second, the day of the week, and the interval timer.
  The clock is shown to be a mixed-radix counter whose digits are the fields of \<open>time\<close>.
\<close>

section \<open>The clock\<close>

record time =
  second :: u8
  minute :: u8
  hour :: u8
  day :: u8
  month :: u8
  year :: u32

datatype days = Sunday | Monday | Tuesday | Wednesday | Thursday | Friday | Saturday

definition days_of_the_week :: "string list" where
  "days_of_the_week = [''Sunday'', ''Monday'', ''Tuesday'', ''Wednesday'', ''Thursday'', ''Friday'', ''Saturday'']"

definition months :: "string list" where
  "months = [''January'', ''Febuary'', ''March'', ''April'', ''May'', ''June'', ''July'', ''August'',
     ''September'', ''October'', ''November'', ''December'']"

definition days_of_the_week_short :: "string list" where
  "days_of_the_week_short = [''Sun'', ''Mon'', ''Tue'', ''Wed'', ''Thu'', ''Fri'', ''Sat'']"

definition months_short :: "string list" where
  "months_short = [''Jan'', ''Feb'', ''Mar'', ''Apr'', ''May'', ''Jun'', ''Jul'', ''Aug'', ''Sep'', ''Oct'', ''Nov'', ''Dec'']"

abbreviation CMOS_COMMAND :: u16 where "CMOS_COMMAND \<equiv> 0x70"
abbreviation CMOS_DATA :: u16 where "CMOS_DATA \<equiv> 0x71"

section \<open>Reading the real-time clock\<close>

definition get_update_in_progress_flag :: "device \<Rightarrow> io_trace \<Rightarrow> u8 \<times> io_trace" where
  "get_update_in_progress_flag d tr =
     (case inb d CMOS_DATA (outb CMOS_COMMAND 0x0A tr) of (v, tr') \<Rightarrow> (v AND 0x80, tr'))"

definition READ_RTC_REGISTER :: "device \<Rightarrow> u16 \<Rightarrow> io_trace \<Rightarrow> u8 \<times> io_trace" where
  "READ_RTC_REGISTER d reg tr = inb d CMOS_DATA (outb CMOS_COMMAND (ucast reg) tr)"

definition bcd_to_int :: "u8 \<Rightarrow> u8" where
  "bcd_to_int bcd = (bcd AND 0x0F) + (bcd div 16) * 10"

text \<open>\<open>while (get_update_in_progress_flag());\<close>\<close>

partial_function (option) rtc_wait :: "device \<Rightarrow> io_trace \<Rightarrow> io_trace option" where
  "rtc_wait d tr =
     (case get_update_in_progress_flag d tr of (v, tr') \<Rightarrow>
        if v \<noteq> 0 then rtc_wait d tr' else Some tr')"

definition INIT_RTC :: "device \<Rightarrow> io_trace \<Rightarrow> (time \<times> io_trace) option" where
  "INIT_RTC d tr = do {
     tr \<leftarrow> rtc_wait d tr;
     let (registerB, tr) = READ_RTC_REGISTER d 0x0B tr;
     let (sec, tr) = READ_RTC_REGISTER d 0x00 tr;
     let (mi, tr) = READ_RTC_REGISTER d 0x02 tr;
     let (h, tr) = READ_RTC_REGISTER d 0x04 tr;
     let (dy, tr) = READ_RTC_REGISTER d 0x07 tr;
     let (mo, tr) = READ_RTC_REGISTER d 0x08 tr;
     let (yr, tr) = READ_RTC_REGISTER d 0x09 tr;
     let conv = (\<lambda>v. if registerB AND 0x04 = 0 then bcd_to_int v else v);
     let t = \<lparr>second = conv sec, minute = conv mi, hour = conv h, day = conv dy, month = conv mo,
              year = 2000 + ucast (conv yr)\<rparr>;
     Some (if 8 < hour t then t\<lparr>hour := hour t - 8\<rparr>
           else t\<lparr>hour := hour t + 16, day := day t - 1\<rparr>, tr) }"

section \<open>One second later\<close>

definition SYSTEM_TIME_INCREMENT :: "time \<Rightarrow> time" where
  "SYSTEM_TIME_INCREMENT t =
     (let t = t\<lparr>second := second t + 1\<rparr>;
          t = (if 60 \<le> second t then t\<lparr>second := 0, minute := minute t + 1\<rparr> else t);
          t = (if 60 \<le> minute t then t\<lparr>minute := 0, hour := hour t + 1\<rparr> else t);
          t = (if 24 \<le> hour t then t\<lparr>hour := 0, day := day t + 1\<rparr> else t);
          t = (if 30 \<le> day t then t\<lparr>day := 0, month := month t + 1\<rparr> else t)
      in if 12 \<le> month t then t\<lparr>month := 0, year := year t + 1\<rparr> else t)"

text \<open>\<open>t[m-1]\<close> is read outside the table when the month is 0 or above 12.\<close>

definition dow_table :: "int list" where
  "dow_table = [0, 3, 2, 5, 0, 3, 5, 1, 4, 6, 2, 4]"

definition dayofweek :: "time \<Rightarrow> u64 option" where
  "dayofweek st =
     (let m = uint (month st); d = uint (day st);
          y = wrap_s32 (wrap_s32 (uint (year st)) - (if m < 3 then 1 else 0))
      in if 1 \<le> m \<and> m \<le> 12
         then Some (of_int (c_mod (wrap_s32 (y + c_div y 4 - c_div y 100 + c_div y 400 + dow_table ! nat (m - 1) + d)) 7))
         else None)"

section \<open>The interval timer\<close>

text \<open>
  \<open>Divisor\<close>, \<open>TimeSinceBoot\<close> and the clock.  \<open>TimeSinceBoot\<close> is a \<open>double\<close>: its arithmetic is a
  parameter, \<open>advance\<close> for \<open>t + 1.01/GET_PIT_FREQUENCY()\<close> and \<open>whole\<close> for the cast to \<open>uint64_t\<close>.
\<close>

record 'd pit =
  Divisor :: u16
  TimeSinceBoot :: 'd
  SYSTEM_TIME :: time

definition BaseFrequency :: u64 where "BaseFrequency = 1193182"

definition SET_PIT_DIVISOR :: "u16 \<Rightarrow> 'd pit \<times> io_trace \<Rightarrow> 'd pit \<times> io_trace" where
  "SET_PIT_DIVISOR divisor s =
     (let divisor = (if 100 < divisor then divisor else 100)
      in ((fst s)\<lparr>Divisor := divisor\<rparr>,
          outb 0x40 (ucast (drop_bit 8 divisor)) (outb 0x40 (ucast (divisor AND 0x00ff)) (snd s))))"

definition SET_PIT_FREQUENCY :: "u64 \<Rightarrow> 'd pit \<times> io_trace \<Rightarrow> ('d pit \<times> io_trace) option" where
  "SET_PIT_FREQUENCY Frequency s =
     (if Frequency = 0 then None else Some (SET_PIT_DIVISOR (ucast (BaseFrequency div Frequency)) s))"

definition PIT_TICK :: "('d \<Rightarrow> u64) \<Rightarrow> (u16 \<Rightarrow> 'd \<Rightarrow> 'd) \<Rightarrow> 'd pit \<Rightarrow> 'd pit" where
  "PIT_TICK whole advance s =
     (let old_time = whole (TimeSinceBoot s);
          s = s\<lparr>TimeSinceBoot := advance (Divisor s) (TimeSinceBoot s)\<rparr>
      in if old_time < whole (TimeSinceBoot s)
         then s\<lparr>SYSTEM_TIME := SYSTEM_TIME_INCREMENT (SYSTEM_TIME s)\<rparr> else s)"

section \<open>The clock is a mixed-radix counter\<close>

text \<open>The fields in range, months numbered from 0 and of 30 days as the code counts them.\<close>

definition clock_ok :: "time \<Rightarrow> bool" where
  "clock_ok t \<longleftrightarrow> second t < 60 \<and> minute t < 60 \<and> hour t < 24 \<and> day t < 30 \<and> month t < 12"

definition stamp :: "time \<Rightarrow> nat" where
  "stamp t = ((((unat (year t) * 12 + unat (month t)) * 30 + unat (day t)) * 24
     + unat (hour t)) * 60 + unat (minute t)) * 60 + unat (second t)"

lemma field_step: "x < k \<Longrightarrow> k \<le> 255 \<Longrightarrow> unat (x + 1) = Suc (unat x)" for x k :: u8
  by unat_arith

lemma field_carry: "x < k \<Longrightarrow> k \<le> 255 \<Longrightarrow> k \<le> x + 1 \<longleftrightarrow> Suc (unat x) = unat k" for x k :: u8
  using field_step [of x k] by (auto simp: word_le_nat_alt word_less_nat_alt)

lemma tick_stamp:
  assumes "clock_ok t" "stamp t + 1 < 2 ^ 32 * 31104000"
  shows "clock_ok (SYSTEM_TIME_INCREMENT t)" "stamp (SYSTEM_TIME_INCREMENT t) = stamp t + 1"
proof -
  have lt: "unat (second t) < 60" "unat (minute t) < 60" "unat (hour t) < 24" "unat (day t) < 30" "unat (month t) < 12"
    using assms(1) by (auto simp: clock_ok_def word_less_nat_alt)
  have f: "unat (second t + 1) = Suc (unat (second t))" "unat (minute t + 1) = Suc (unat (minute t))"
    "unat (hour t + 1) = Suc (unat (hour t))" "unat (day t + 1) = Suc (unat (day t))"
    "unat (month t + 1) = Suc (unat (month t))"
    "60 \<le> second t + 1 \<longleftrightarrow> Suc (unat (second t)) = 60" "60 \<le> minute t + 1 \<longleftrightarrow> Suc (unat (minute t)) = 60"
    "24 \<le> hour t + 1 \<longleftrightarrow> Suc (unat (hour t)) = 24" "30 \<le> day t + 1 \<longleftrightarrow> Suc (unat (day t)) = 30"
    "12 \<le> month t + 1 \<longleftrightarrow> Suc (unat (month t)) = 12"
    using assms(1) field_step [of "second t" 60] field_step [of "minute t" 60] field_step [of "hour t" 24]
      field_step [of "day t" 30] field_step [of "month t" 12] field_carry [of "second t" 60] field_carry [of "minute t" 60] field_carry [of "hour t" 24]
      field_carry [of "day t" 30] field_carry [of "month t" 12]
    by (simp_all add: clock_ok_def)
  have nl: "\<not> 60 \<le> second t" "\<not> 60 \<le> minute t" "\<not> 24 \<le> hour t" "\<not> 30 \<le> day t" "\<not> 12 \<le> month t"
    using lt by (simp_all add: word_le_nat_alt)
  have y: "unat (year t + 1) = Suc (unat (year t))" if "Suc (unat (month t)) = 12" "Suc (unat (day t)) = 30"
    "Suc (unat (hour t)) = 24" "Suc (unat (minute t)) = 60" "Suc (unat (second t)) = 60"
  proof -
    have "unat (year t) + 1 < 2 ^ 32" using assms(2) that by (simp add: stamp_def)
    then show ?thesis by (simp add: unat_word_ariths)
  qed
  show "clock_ok (SYSTEM_TIME_INCREMENT t)"
    using lt nl by (auto simp: SYSTEM_TIME_INCREMENT_def Let_def clock_ok_def f word_less_nat_alt)
  show "stamp (SYSTEM_TIME_INCREMENT t) = stamp t + 1"
    using lt nl y by (auto simp: SYSTEM_TIME_INCREMENT_def Let_def stamp_def f)
qed


lemma ticks_stamp:
  "clock_ok t \<Longrightarrow> stamp t + n < 2 ^ 32 * 31104000 \<Longrightarrow>
    clock_ok ((SYSTEM_TIME_INCREMENT ^^ n) t) \<and> stamp ((SYSTEM_TIME_INCREMENT ^^ n) t) = stamp t + n"
proof (induction n)
  case (Suc n)
  then show ?case using tick_stamp [of "(SYSTEM_TIME_INCREMENT ^^ n) t"] by simp
qed simp

lemma radix_digit: "r < k \<Longrightarrow> (q * k + r) mod k = r \<and> (q * k + r) div k = q" for q k r :: nat
  by simp

lemma stamp_inj:
  assumes "clock_ok t" "clock_ok u" "stamp t = stamp u"
  shows "t = u"
proof -
  have lt: "unat (second v) < 60 \<and> unat (minute v) < 60 \<and> unat (hour v) < 24 \<and> unat (day v) < 30 \<and> unat (month v) < 12"
    if "clock_ok v" for v using that by (auto simp: clock_ok_def word_less_nat_alt)
  have "unat (second t) = unat (second u) \<and> unat (minute t) = unat (minute u) \<and> unat (hour t) = unat (hour u)
      \<and> unat (day t) = unat (day u) \<and> unat (month t) = unat (month u) \<and> unat (year t) = unat (year u)"
    using lt [OF assms(1)] lt [OF assms(2)] assms(3) unfolding stamp_def by (metis radix_digit)
  then show ?thesis by (cases t; cases u) (simp add: word_unat_eq_iff)
qed

text \<open>
  C33.  The clock counts seconds: \<open>n\<close> increments of a clock whose fields are in range keep them
  in range and advance the number of seconds the fields denote by exactly \<open>n\<close>, and that
  determines every field, through every carry from the second to the year.
\<close>

theorem clock_counts_seconds:
  assumes "clock_ok t" "stamp t + n < 2 ^ 32 * 31104000"
  shows "clock_ok ((SYSTEM_TIME_INCREMENT ^^ n) t) \<and>
    stamp ((SYSTEM_TIME_INCREMENT ^^ n) t) = stamp t + n \<and>
    (\<forall>u. clock_ok u \<longrightarrow> stamp u = stamp t + n \<longrightarrow> (SYSTEM_TIME_INCREMENT ^^ n) t = u)"
  using ticks_stamp [OF assms] stamp_inj by auto

theorem clock_counts_seconds_witness:
  "(SYSTEM_TIME_INCREMENT ^^ 2) \<lparr>second = 58, minute = 59, hour = 23, day = 29, month = 11, year = 2023\<rparr>
    = \<lparr>second = 0, minute = 0, hour = 0, day = 0, month = 0, year = 2024\<rparr>"
  using clock_counts_seconds [of "\<lparr>second = 58, minute = 59, hour = 23, day = 29, month = 11, year = 2023\<rparr>" 2]
  by (simp add: clock_ok_def stamp_def)

section \<open>The day of the week\<close>

text \<open>The Gregorian calendar, day 1 being Monday, January 1 of the year 1.\<close>

definition leap :: "nat \<Rightarrow> bool" where
  "leap y \<longleftrightarrow> 4 dvd y \<and> (\<not> 100 dvd y \<or> 400 dvd y)"

definition month_days :: "nat \<Rightarrow> nat list" where
  "month_days y = [31, if leap y then 29 else 28, 31, 30, 31, 30, 31, 31, 30, 31, 30, 31]"

fun days_before_year :: "nat \<Rightarrow> nat" where
  "days_before_year 0 = 0"
| "days_before_year (Suc y) = (if y = 0 then 0 else days_before_year y + (if leap y then 366 else 365))"

definition day_number :: "nat \<Rightarrow> nat \<Rightarrow> nat \<Rightarrow> nat" where
  "day_number y m d = days_before_year y + sum_list (take (m - 1) (month_days y)) + d"

definition leaps_to :: "int \<Rightarrow> int" where
  "leaps_to z = z div 4 - z div 100 + z div 400"

lemma leaps_to_nat: "leaps_to (int z) = int (z div 4) - int (z div 100) + int (z div 400)"
  by (simp add: leaps_to_def zdiv_int)

lemma leaps_to_succ: "leaps_to (int z + 1) = leaps_to (int z) + (if leap (Suc z) then 1 else 0)"
proof -
  have "leaps_to (int z + 1) = leaps_to (int (Suc z))" by (simp add: add.commute)
  moreover have "(400::nat) dvd Suc z \<Longrightarrow> 100 dvd Suc z" "(100::nat) dvd Suc z \<Longrightarrow> 4 dvd Suc z"
    by (auto elim: dvd_trans [rotated])
  ultimately show ?thesis
    unfolding leaps_to_nat div_Suc leap_def dvd_eq_mod_eq_0 by auto
qed

lemma days_before_year_closed: "int (days_before_year (Suc z)) = 365 * int z + leaps_to (int z)"
proof (induction z)
  case 0
  show ?case by (simp add: leaps_to_def)
next
  case (Suc z)
  have "int (days_before_year (Suc (Suc z)))
      = int (days_before_year (Suc z)) + (if leap (Suc z) then 366 else 365)" by simp
  also have "\<dots> = 365 * int (Suc z) + leaps_to (int z + 1)"
    unfolding Suc.IH leaps_to_succ by simp
  finally show ?case by (simp add: ac_simps)
qed

lemma month_cases:
  fixes m :: nat
  assumes "1 \<le> m" "m \<le> 12"
  shows "m \<in> {1,2,3,4,5,6,7,8,9,10,11,12}"
proof -
  have "m \<in> set [1..<13]" using assms by simp
  then show ?thesis by (simp add: upt_rec eval_nat_numeral)
qed

lemma sakamoto:
  assumes "1 \<le> m" "m \<le> 12"
  shows "(int (Suc z) - (if m < 3 then 1 else 0) + leaps_to (int (Suc z) - (if m < 3 then 1 else 0))
      + dow_table ! (m - 1) + int d) mod 7 = int (day_number (Suc z) m d mod 7)"
proof -
  let ?y = "int (Suc z) - (if m < 3 then 1 else 0)" and ?s = "int (sum_list (take (m - 1) (month_days (Suc z))))"
  have n: "int (day_number (Suc z) m d) = 365 * int z + leaps_to (int z) + ?s + int d"
    unfolding day_number_def by (simp only: of_nat_add days_before_year_closed)
  have "7 dvd ?y + leaps_to ?y + dow_table ! (m - 1) - (int z + leaps_to (int z) + ?s)"
    using month_cases [OF assms] leaps_to_succ [of z]
    by (elim insertE emptyE) (simp_all add: dow_table_def month_days_def add.commute [of 1 "int z"])
  moreover have "7 dvd 364 * int z" by presburger
  ultimately have "7 dvd (?y + leaps_to ?y + dow_table ! (m - 1) - (int z + leaps_to (int z) + ?s)) - 364 * int z"
    by (rule dvd_diff)
  then have "7 dvd (?y + leaps_to ?y + dow_table ! (m - 1) + int d) - (365 * int z + leaps_to (int z) + ?s + int d)"
    by (simp add: algebra_simps)
  then show ?thesis unfolding zmod_int n by (simp add: mod_eq_dvd_iff)
qed


lemma leaps_to_bounds: "0 \<le> z \<Longrightarrow> 0 \<le> leaps_to z \<and> leaps_to z \<le> z"
  using zdiv_mono2 [of z 4 100] zdiv_mono2 [of z 100 400] zdiv_mono2 [of z 1 4] pos_imp_zdiv_nonneg_iff [of 400 z]
  unfolding leaps_to_def by simp

lemma nat_int_minus1: "nat (int m - 1) = m - 1"
  by simp

lemma dayofweek_cases:
  assumes "1 \<le> unat (year st)" "unat (year st) < 10 ^ 9"
  shows "1 \<le> unat (month st) \<Longrightarrow> unat (month st) \<le> 12 \<Longrightarrow> dayofweek st
      = Some (of_nat (day_number (unat (year st)) (unat (month st)) (unat (day st)) mod 7))"
    and "unat (month st) = 0 \<or> 12 < unat (month st) \<Longrightarrow> dayofweek st = None"
proof -
  obtain z where z: "unat (year st) = Suc z" using assms(1) by (cases "unat (year st)") auto
  let ?m = "unat (month st)" and ?d = "unat (day st)"
  let ?y = "int (Suc z) - (if ?m < 3 then 1 else 0)"
  have u: "uint (year st) = int (Suc z)" by (metis of_nat_unat z)
  have um: "uint (month st) = int ?m" "uint (day st) = int ?d" by simp_all
  assume m: "1 \<le> ?m" "?m \<le> 12"
  have y: "0 \<le> ?y" "?y < 10 ^ 9" using assms(2) z by auto
  have t: "0 \<le> dow_table ! (?m - 1) \<and> dow_table ! (?m - 1) \<le> 6"
    using month_cases [OF m] by (auto simp: dow_table_def)
  have d: "uint (day st) < 256" by (rule less_le_trans [OF unsigned_less]) simp
  have s: "0 \<le> ?y + leaps_to ?y + dow_table ! (?m - 1) + int ?d"
    "?y + leaps_to ?y + dow_table ! (?m - 1) + int ?d < 2 ^ 31"
    using leaps_to_bounds [OF y(1)] y t d by auto
  have c: "(uint (month st) < 3) = (?m < 3)" "1 \<le> uint (month st) \<and> uint (month st) \<le> 12"
    using m unfolding um(1) by linarith+
  have w1: "wrap_s32 (wrap_s32 (uint (year st)) - (if uint (month st) < 3 then 1 else 0)) = ?y"
    using y assms(2) z unfolding c(1) u by simp
  have w2: "?y + c_div ?y 4 - c_div ?y 100 + c_div ?y 400 + dow_table ! nat (uint (month st) - 1) + uint (day st)
      = ?y + leaps_to ?y + dow_table ! (?m - 1) + int ?d"
    using y(1) unfolding um nat_int_minus1 leaps_to_def by (simp add: c_div_nonneg)
  have w3: "wrap_s32 (?y + leaps_to ?y + dow_table ! (?m - 1) + int ?d) = ?y + leaps_to ?y + dow_table ! (?m - 1) + int ?d"
    using s by (intro wrap_s32_small) linarith+
  have "dayofweek st = Some (of_int (c_mod (?y + leaps_to ?y + dow_table ! (?m - 1) + int ?d) 7))"
    unfolding dayofweek_def Let_def w1 w2 w3 using c(2) by (simp only: if_True simp_thms)
  then have "dayofweek st = Some (of_int ((?y + leaps_to ?y + dow_table ! (?m - 1) + int ?d) mod 7))"
    using c_mod_nonneg [OF s(1), of 7] by simp
  then show "dayofweek st = Some (of_nat (day_number (unat (year st)) ?m ?d mod 7))"
    unfolding sakamoto [OF m] z by simp
next
  assume m: "unat (month st) = 0 \<or> 12 < unat (month st)"
  have "uint (month st) = int (unat (month st))" by simp
  then have "\<not> (1 \<le> uint (month st) \<and> uint (month st) \<le> 12)" using m by linarith
  then show "dayofweek st = None" by (simp only: dayofweek_def Let_def if_False)
qed

text \<open>
  C34.  For the months 1 to 12 \<open>dayofweek\<close> returns the day of the week of the Gregorian date,
  0 for Sunday, for every year from 1 on whose sum fits an \<open>int\<close>; for the month 0, which
  the clock counts from, and for months above 12 it reads outside its table.
\<close>

theorem dayofweek_gregorian:
  assumes "1 \<le> unat (year st)" "unat (year st) < 10 ^ 9"
  shows "dayofweek st = (if 1 \<le> unat (month st) \<and> unat (month st) \<le> 12
    then Some (of_nat (day_number (unat (year st)) (unat (month st)) (unat (day st)) mod 7)) else None)"
  using dayofweek_cases [OF assms] by (simp add: not_le)

theorem dayofweek_gregorian_witness:
  "dayofweek \<lparr>second = 0, minute = 0, hour = 0, day = 29, month = 2, year = 2024\<rparr> = Some 4 \<and>
   dayofweek \<lparr>second = 0, minute = 0, hour = 0, day = 29, month = 0, year = 2024\<rparr> = None"
proof -
  have d: "day_number 2024 2 29 mod 7 = 4"
    using sakamoto [of 2 2023 29] by (simp add: leaps_to_def dow_table_def)
  show ?thesis
    using dayofweek_gregorian [of "\<lparr>second = 0, minute = 0, hour = 0, day = 29, month = 2, year = 2024\<rparr>"]
      dayofweek_gregorian [of "\<lparr>second = 0, minute = 0, hour = 0, day = 29, month = 0, year = 2024\<rparr>"] d
    by simp
qed

end
