(* ===== verification/Elf.thy ===== *)
theory Elf
  imports Prelude
begin

text \<open>
  Executable files: the headers of \<open>kernel/src/elf.h\<close> read from a block of bytes, and the segment
  loader of \<open>kernel/src/process.c\<close>.  The loader is shown to place every loadable segment of a
  well-formed file and to leave every other byte alone, including those that the file asks
  to be cleared.
\<close>

section \<open>Headers\<close>

record Elf64_Phdr =
  p_type :: u32
  p_flags :: u32
  p_offset :: u64
  p_vaddr :: u64
  p_paddr :: u64
  p_filesz :: u64
  p_memsz :: u64
  p_align :: u64

record Elf64_Ehdr =
  e_ident :: "u8 list"
  e_type :: u16
  e_machine :: u16
  e_version :: u32
  e_entry :: u64
  e_phoff :: u64
  e_shoff :: u64
  e_flags :: u32
  e_ehsize :: u16
  e_phentsize :: u16
  e_phnum :: u16
  e_shentsize :: u16
  e_shnum :: u16
  e_shstrndx :: u16

datatype Elf_Type = ET_NONE | ET_REL | ET_EXEC

abbreviation PT_NULL :: u32 where "PT_NULL \<equiv> 0"
abbreviation PT_LOAD :: u32 where "PT_LOAD \<equiv> 1"
abbreviation PT_DYNAMIC :: u32 where "PT_DYNAMIC \<equiv> 2"
abbreviation EI_NIDENT :: nat where "EI_NIDENT \<equiv> 16"

text \<open>A little-endian field of \<open>n\<close> bytes.\<close>

fun le_val :: "u8 list \<Rightarrow> nat" where
  "le_val [] = 0"
| "le_val (b # bs) = unat b + 256 * le_val bs"

definition field :: "u8 list \<Rightarrow> nat \<Rightarrow> nat \<Rightarrow> 'a::len word" where
  "field bs off n = of_nat (le_val (take n (drop off bs)))"

text \<open>The structures cast from a byte block: 56 and 64 bytes that must lie inside it.\<close>

definition phdr_of :: "u8 list \<Rightarrow> nat \<Rightarrow> Elf64_Phdr option" where
  "phdr_of bs off = do {
     b \<leftarrow> blk_get bs off 56;
     Some \<lparr>p_type = field b 0 4, p_flags = field b 4 4, p_offset = field b 8 8, p_vaddr = field b 16 8,
           p_paddr = field b 24 8, p_filesz = field b 32 8, p_memsz = field b 40 8, p_align = field b 48 8\<rparr> }"

definition ehdr_of :: "u8 list \<Rightarrow> Elf64_Ehdr option" where
  "ehdr_of bs = do {
     b \<leftarrow> blk_get bs 0 64;
     Some \<lparr>e_ident = take EI_NIDENT b, e_type = field b 16 2, e_machine = field b 18 2, e_version = field b 20 4,
           e_entry = field b 24 8, e_phoff = field b 32 8, e_shoff = field b 40 8, e_flags = field b 48 4,
           e_ehsize = field b 52 2, e_phentsize = field b 54 2, e_phnum = field b 56 2,
           e_shentsize = field b 58 2, e_shnum = field b 60 2, e_shstrndx = field b 62 2\<rparr> }"

section \<open>Loading\<close>

text \<open>\<open>for (UINTN i = 0; i < size; ++i)\<close>, \<open>n\<close> bytes left.\<close>

fun copy_segment :: "u8 list \<Rightarrow> nat \<Rightarrow> u8 list \<Rightarrow> nat \<Rightarrow> nat \<Rightarrow> u8 list option" where
  "copy_segment space dst program src 0 = Some space"
| "copy_segment space dst program src (Suc n) = do {
     b \<leftarrow> arr_get program src;
     space \<leftarrow> arr_put space dst b;
     copy_segment space (dst + 1) program (src + 1) n }"

definition load_segment :: "u8 list \<Rightarrow> Elf64_Phdr \<Rightarrow> u8 list \<Rightarrow> u8 list option" where
  "load_segment program phdr space =
     (if p_type phdr = PT_LOAD
      then copy_segment space (unat (p_paddr phdr)) program (unat (p_offset phdr)) (unat (p_filesz phdr))
      else Some space)"

text \<open>
  The loop over the program headers, from offset \<open>cur\<close> of the file up to \<open>end\<close>.  A header size
  of 0 gives an empty range, so every round makes progress.
\<close>

function load_phdrs :: "u8 list \<Rightarrow> nat \<Rightarrow> nat \<Rightarrow> nat \<Rightarrow> u8 list \<Rightarrow> u8 list option" where
  "load_phdrs program entsize cur last_cur space =
     (if cur < last_cur \<and> 0 < entsize then do {
        phdr \<leftarrow> phdr_of program cur;
        space \<leftarrow> load_segment program phdr space;
        load_phdrs program entsize (cur + entsize) last_cur space }
      else Some space)"
  by pat_completeness auto
termination
  by (relation "measure (\<lambda>(p, e, c, l, s). l - c)") auto

declare load_phdrs.simps [simp del]

definition load_program :: "u8 list \<Rightarrow> u8 list \<Rightarrow> (u64 \<times> u8 list) option" where
  "load_program program space = do {
     header \<leftarrow> ehdr_of program;
     let first_cur = unat (e_phoff header);
     space \<leftarrow> load_phdrs program (unat (e_phentsize header)) first_cur
                (first_cur + nat (wrap_s32 (uint (e_phnum header) * uint (e_phentsize header)))) space;
     Some (e_entry header, space) }"

section \<open>What is loaded\<close>

text \<open>The program headers the loop visits.\<close>

fun phdrs_from :: "u8 list \<Rightarrow> nat \<Rightarrow> nat \<Rightarrow> nat \<Rightarrow> Elf64_Phdr list option" where
  "phdrs_from program entsize cur 0 = Some []"
| "phdrs_from program entsize cur (Suc n) = do {
     ph \<leftarrow> phdr_of program cur;
     phs \<leftarrow> phdrs_from program entsize (cur + entsize) n;
     Some (ph # phs) }"

definition loadable :: "Elf64_Phdr list \<Rightarrow> Elf64_Phdr list" where
  "loadable phs = filter (\<lambda>ph. p_type ph = PT_LOAD) phs"

definition seg_range :: "Elf64_Phdr \<Rightarrow> nat set" where
  "seg_range ph = {unat (p_paddr ph)..<unat (p_paddr ph) + unat (p_filesz ph)}"

text \<open>The bytes of a segment are in the file and its place is in the program space.\<close>

definition seg_fits :: "u8 list \<Rightarrow> u8 list \<Rightarrow> Elf64_Phdr \<Rightarrow> bool" where
  "seg_fits program space ph \<longleftrightarrow>
     unat (p_offset ph) + unat (p_filesz ph) \<le> length program \<and>
     unat (p_paddr ph) + unat (p_filesz ph) \<le> length space"

lemma copy_segment_blk:
  "src + n \<le> length program \<Longrightarrow> copy_segment space dst program src n
     = (if n = 0 then Some space else blk_put space dst (take n (drop src program)))"
proof (induction n arbitrary: space dst src)
  case (Suc n)
  have d: "take (Suc n) (drop src program) = program ! src # take n (drop (Suc src) program)"
    using Suc.prems by (simp add: Cons_nth_drop_Suc [symmetric])
  show ?case
  proof (cases "dst < length space")
    case True
    have l: "length (take n (drop (Suc src) program)) = n" using Suc.prems by simp
    have "dst + Suc n \<le> length space \<Longrightarrow>
      take (Suc dst) (space[dst := program ! src]) @ take n (drop (Suc src) program) @ drop (Suc dst + n) (space[dst := program ! src])
      = take dst space @ (program ! src # take n (drop (Suc src) program)) @ drop (dst + Suc n) space"
      using True by (simp add: take_Suc_conv_app_nth)
    then show ?thesis
      using True Suc d by (cases "n = 0") (auto simp: d blk_put_def l upd_conv_take_nth_drop)
  next
    case False
    then show ?thesis using Suc.prems by (simp add: arr_put_def blk_put_def)
  qed
qed simp


lemma load_segment_fits:
  assumes "seg_fits program space ph" "p_type ph = PT_LOAD"
  obtains img where "load_segment program ph space = Some img" "length img = length space"
    "blk_get img (unat (p_paddr ph)) (unat (p_filesz ph)) = blk_get program (unat (p_offset ph)) (unat (p_filesz ph))"
    "\<And>i. i \<notin> seg_range ph \<Longrightarrow> i < length space \<Longrightarrow> img ! i = space ! i"
proof -
  let ?d = "unat (p_paddr ph)" and ?n = "unat (p_filesz ph)" and ?s = "unat (p_offset ph)"
  let ?b = "take ?n (drop ?s program)"
  have f: "?s + ?n \<le> length program" "?d + ?n \<le> length space" using assms(1) by (auto simp: seg_fits_def)
  then have l: "length ?b = ?n" by simp
  obtain img where img: "blk_put space ?d ?b = Some img" using f l by (simp add: blk_put_def)
  have "load_segment program ph space = Some img"
    using img assms(2) f(2)
    by (cases "?n = 0") (auto simp: load_segment_def copy_segment_blk [OF f(1)] blk_put_def split: if_splits)
  moreover have "blk_get img ?d ?n = blk_get program ?s ?n"
    using blk_get_put_same [OF img] f(1) unfolding l by (simp add: blk_get_def)
  moreover have "img ! i = space ! i" if "i \<notin> seg_range ph" "i < length space" for i
    using blk_put_nth [OF img that(2)] that(1) unfolding l by (auto simp: seg_range_def)
  ultimately show thesis by (rule that [OF _ blk_put_length [OF img]])
qed

definition segs_apart :: "Elf64_Phdr list \<Rightarrow> bool" where
  "segs_apart phs \<longleftrightarrow> sorted_wrt (\<lambda>p q. seg_range p \<inter> seg_range q = {}) (loadable phs)"

lemma load_phdrs_loads:
  assumes "0 < entsize"
  shows "phdrs_from program entsize cur n = Some phs \<Longrightarrow> \<forall>ph \<in> set (loadable phs). seg_fits program space ph \<Longrightarrow>
    segs_apart phs \<Longrightarrow>
    \<exists>img. load_phdrs program entsize cur (cur + n * entsize) space = Some img \<and> length img = length space \<and>
      (\<forall>ph \<in> set (loadable phs). blk_get img (unat (p_paddr ph)) (unat (p_filesz ph))
         = blk_get program (unat (p_offset ph)) (unat (p_filesz ph))) \<and>
      (\<forall>i < length space. i \<notin> \<Union> (seg_range ` set (loadable phs)) \<longrightarrow> img ! i = space ! i)"
proof (induction n arbitrary: cur phs space)
  case 0
  then show ?case by (simp add: load_phdrs.simps loadable_def)
next
  case (Suc n)
  obtain ph phs' where p: "phdr_of program cur = Some ph" "phdrs_from program entsize (cur + entsize) n = Some phs'"
    "phs = ph # phs'" using Suc.prems(1) by (auto split: Option.bind_splits)
  have step: "load_phdrs program entsize cur (cur + Suc n * entsize) space
      = do { sp \<leftarrow> load_segment program ph space; load_phdrs program entsize (cur + entsize) (cur + entsize + n * entsize) sp }"
    using assms p(1) by (subst load_phdrs.simps) (simp add: add.assoc)
  have apart: "segs_apart phs'" using Suc.prems(3) p(3) by (auto simp: segs_apart_def loadable_def split: if_splits)
  show ?case
  proof (cases "p_type ph = PT_LOAD")
    case False
    then show ?thesis
      using Suc.IH [OF p(2) _ apart, of space] Suc.prems(2) step p(3) by (simp add: load_segment_def loadable_def)
  next
    case True
    then have L: "loadable phs = ph # loadable phs'" using p(3) by (simp add: loadable_def)
    obtain sp where sp: "load_segment program ph space = Some sp" "length sp = length space"
      "blk_get sp (unat (p_paddr ph)) (unat (p_filesz ph)) = blk_get program (unat (p_offset ph)) (unat (p_filesz ph))"
      "\<And>i. i \<notin> seg_range ph \<Longrightarrow> i < length space \<Longrightarrow> sp ! i = space ! i"
      using load_segment_fits [OF _ True] Suc.prems(2) L by (metis list.set_intros(1))
    have "\<forall>q \<in> set (loadable phs'). seg_fits program sp q"
      using Suc.prems(2) L sp(2) by (simp add: seg_fits_def)
    then obtain img where img: "load_phdrs program entsize (cur + entsize) (cur + entsize + n * entsize) sp = Some img"
      "length img = length sp"
      "\<forall>q \<in> set (loadable phs'). blk_get img (unat (p_paddr q)) (unat (p_filesz q))
         = blk_get program (unat (p_offset q)) (unat (p_filesz q))"
      "\<forall>i < length sp. i \<notin> \<Union> (seg_range ` set (loadable phs')) \<longrightarrow> img ! i = sp ! i"
      using Suc.IH [OF p(2) _ apart] by blast
    have "seg_range ph \<inter> seg_range q = {}" if "q \<in> set (loadable phs')" for q
      using Suc.prems(3) that L by (simp add: segs_apart_def)
    then have d: "i \<notin> \<Union> (seg_range ` set (loadable phs'))" if "i \<in> seg_range ph" for i
      using that by auto
    have "blk_get img (unat (p_paddr ph)) (unat (p_filesz ph)) = blk_get sp (unat (p_paddr ph)) (unat (p_filesz ph))"
    proof -
      have "take (unat (p_filesz ph)) (drop (unat (p_paddr ph)) img) = take (unat (p_filesz ph)) (drop (unat (p_paddr ph)) sp)"
        using img(2,4) d by (intro nth_equalityI) (auto simp: seg_range_def)
      then show ?thesis using img(2) by (simp add: blk_get_def)
    qed
    then show ?thesis using step sp img L by auto
  qed
qed


text \<open>
  C15.  The loader copies every loadable segment of a well-formed executable to its place
  and leaves every other byte of the program space as it was: in particular the bytes
  between the file size and the memory size of a segment are not cleared.
\<close>

theorem loader_places_segments:
  assumes "ehdr_of program = Some h" "0 < e_phentsize h"
    and "uint (e_phnum h) * uint (e_phentsize h) < 2 ^ 31"
    and "phdrs_from program (unat (e_phentsize h)) (unat (e_phoff h)) (unat (e_phnum h)) = Some phs"
    and "\<forall>ph \<in> set (loadable phs). seg_fits program space ph" "segs_apart phs"
  shows "\<exists>img. load_program program space = Some (e_entry h, img) \<and> length img = length space \<and>
    (\<forall>ph \<in> set (loadable phs). blk_get img (unat (p_paddr ph)) (unat (p_filesz ph))
       = blk_get program (unat (p_offset ph)) (unat (p_filesz ph))) \<and>
    (\<forall>i < length space. i \<notin> \<Union> (seg_range ` set (loadable phs)) \<longrightarrow> img ! i = space ! i)"
proof -
  have e: "0 < unat (e_phentsize h)" using assms(2) by (simp add: word_less_nat_alt)
  have m: "uint (e_phnum h) * uint (e_phentsize h) = int (unat (e_phnum h) * unat (e_phentsize h))" by simp
  have "wrap_s32 (int (unat (e_phnum h) * unat (e_phentsize h))) = int (unat (e_phnum h) * unat (e_phentsize h))"
    using assms(3) unfolding m by (intro wrap_s32_small) linarith+
  then have n: "nat (wrap_s32 (uint (e_phnum h) * uint (e_phentsize h))) = unat (e_phnum h) * unat (e_phentsize h)"
    unfolding m by (simp only: nat_int)
  show ?thesis
    using load_phdrs_loads [OF e assms(4,5,6)] unfolding load_program_def assms(1) by (auto simp: Let_def n)
qed

text \<open>A file with one loadable segment: four bytes of its own header, placed at 2.\<close>

definition elf0 :: "u8 list" where
  "elf0 = [7, 7, 7, 7, 7, 7, 7, 7, 7, 7, 7, 7, 7, 7, 7, 7,
     7, 7, 7, 7, 7, 7, 7, 7, 7, 7, 7, 7, 7, 7, 7, 7,
     64, 0, 0, 0, 0, 0, 0, 0,
     0, 0, 0, 0, 0, 0, 0, 0, 0, 0, 0, 0, 0, 0,
     56, 0, 1, 0,
     0, 0, 0, 0, 0, 0,
     1, 0, 0, 0, 0, 0, 0, 0, 4, 0, 0, 0, 0, 0, 0, 0,
     0, 0, 0, 0, 0, 0, 0, 0,
     2, 0, 0, 0, 0, 0, 0, 0, 4, 0, 0, 0, 0, 0, 0, 0,
     9, 0, 0, 0, 0, 0, 0, 0, 0, 0, 0, 0, 0, 0, 0, 0]"

theorem loader_places_segments_witness:
  "\<exists>e img. load_program elf0 (replicate 16 1) = Some (e, img) \<and> blk_get img 2 4 = Some [7, 7, 7, 7] \<and> img ! 7 = 1"
proof -
  have h: "\<exists>h. ehdr_of elf0 = Some h \<and> e_phentsize h = 56 \<and> e_phnum h = 1 \<and> e_phoff h = 64"
    by (simp add: ehdr_of_def elf0_def blk_get_def field_def take_Cons_numeral drop_Cons_numeral)
  then obtain h where h: "ehdr_of elf0 = Some h" "e_phentsize h = 56" "e_phnum h = 1" "e_phoff h = 64" by blast
  have "\<exists>ph. phdr_of elf0 64 = Some ph \<and> p_type ph = 1 \<and> p_offset ph = 4 \<and> p_paddr ph = 2 \<and> p_filesz ph = 4"
    by (simp add: phdr_of_def elf0_def blk_get_def field_def take_Cons_numeral drop_Cons_numeral)
  then obtain ph where p: "phdr_of elf0 64 = Some ph" "p_type ph = 1" "p_offset ph = 4" "p_paddr ph = 2" "p_filesz ph = 4"
    by blast
  have l: "length elf0 = 120" by (simp add: elf0_def)
  have s: "phdrs_from elf0 56 64 1 = Some [ph]" by (simp add: p(1))
  have L: "loadable [ph] = [ph]" using p(2) by (simp add: loadable_def)
  have g: "blk_get elf0 4 4 = Some [7, 7, 7, 7]" by (simp add: blk_get_def elf0_def take_Cons_numeral drop_Cons_numeral)
  have a: "0 < e_phentsize h" "uint (e_phnum h) * uint (e_phentsize h) < 2 ^ 31"
    "phdrs_from elf0 (unat (e_phentsize h)) (unat (e_phoff h)) (unat (e_phnum h)) = Some [ph]"
    "\<forall>ph \<in> set (loadable [ph]). seg_fits elf0 (replicate 16 1) ph" "segs_apart [ph]"
    using h p s L l by (simp_all add: seg_fits_def segs_apart_def)
  obtain img where "load_program elf0 (replicate 16 1) = Some (e_entry h, img)"
    "blk_get img (unat (p_paddr ph)) (unat (p_filesz ph)) = blk_get elf0 (unat (p_offset ph)) (unat (p_filesz ph))"
    "\<forall>i < length (replicate 16 (1 :: u8)). i \<notin> seg_range ph \<longrightarrow> img ! i = replicate 16 1 ! i"
    using loader_places_segments [OF h(1) a] unfolding L by auto
  then have "load_program elf0 (replicate 16 1) = Some (e_entry h, img)" "blk_get img 2 4 = blk_get elf0 4 4"
    "7 < length (replicate 16 (1 :: u8)) \<longrightarrow> 7 \<notin> seg_range ph \<longrightarrow> img ! 7 = replicate 16 1 ! 7"
    using p by auto
  then show ?thesis using g p by (simp add: seg_range_def)
qed

end
