(* ===== verification/Process.thy ===== *)
theory Process
  imports Threads FileTable Elf
begin

text \<open>
  Processes (\<open>kernel/src/process.c\<close>): a program is read through the file system calls, its segments
  are loaded into a fresh block, and a user-mode thread is created for it and queued.
\<close>

record procs =
  psys :: sys
  psched :: sched
  next_pid :: int
  spaces :: "u64 \<Rightarrow> u8 list option"

text \<open>
  Processes are compared by the difference of their 64-bit numbers, cut to an \<open>int\<close>.
\<close>

definition cmp_process :: "u64 \<Rightarrow> u64 \<Rightarrow> int" where
  "cmp_process p q = signed_take_bit 31 (uint (p - q))"

definition search_process :: "u64 \<Rightarrow> u64 \<Rightarrow> int" where
  "search_process p key = signed_take_bit 31 (uint (p - key))"

text \<open>
  \<open>space0\<close> and \<open>prog0\<close> are what the two fresh blocks hold; \<open>0x16000\<close> bytes are reserved for every
  program.  The process structure is allocated and otherwise not kept.
\<close>

definition new_process :: "u64 \<Rightarrow> u8 list \<Rightarrow> (nat \<Rightarrow> u8 list) \<Rightarrow> u8 list \<Rightarrow> u64 \<Rightarrow> procs \<Rightarrow> procs option" where
  "new_process exit_adr space0 prog0 executable ptr s = do {
     (program_space, sc) \<leftarrow> kmalloc_k 0x16000 (psched s);
     (exe, y) \<leftarrow> sys_open executable (psys s);
     (r, st) \<leftarrow> sys_fstat exe y;
     (program_adr, sc) \<leftarrow> kmalloc_k (st_size st) sc;
     (r, program, y) \<leftarrow> sys_read exe (take (st_size st) (prog0 (st_size st))) (st_size st) y;
     (r, y) \<leftarrow> sys_close exe y;
     (entry, space) \<leftarrow> load_program program (take 0x16000 space0);
     (t, sc) \<leftarrow> new_thread exit_adr (program_space + entry) 0 sc;
     let f = RSP (threads sc t);
     let sc = sc\<lparr>frames := (frames sc)(f := (frames sc f)\<lparr>cs := 0x20 OR 3, ss := 0x28 OR 3, rflags := 0x2\<rparr>)\<rparr>;
     sc \<leftarrow> pool_push t sc;
     let sc = sc\<lparr>frames := (frames sc)(f := (frames sc f)\<lparr>rdi := ptr\<rparr>)\<rparr>;
     (p, sc) \<leftarrow> kmalloc_k 32 sc;
     Some (s\<lparr>psys := y, psched := sc, next_pid := wrap_s32 (next_pid s + 1),
             spaces := (spaces s)(program_space \<mapsto> space)\<rparr>) }"

text \<open>
  The comparison is right only for numbers less than \<open>2^31\<close> apart: two processes that differ
  by a multiple of \<open>2^32\<close> compare equal.
\<close>

lemma power2_31: "(2 :: int) ^ 31 = 2147483648"
  by simp

lemma cmp_process_small:
  assumes "unat p < 2147483648" "unat q < 2147483648"
  shows "cmp_process p q = int (unat p) - int (unat q)"
proof -
  have "uint (p - q) = (uint p - uint q) mod 2 ^ 64" by (simp add: uint_word_ariths)
  then have "cmp_process p q = signed_take_bit 31 (uint p - uint q)"
    unfolding cmp_process_def
    by (simp add: signed_take_bit_eq_iff_take_bit_eq take_bit_eq_mod mod_mod_cancel)
  also have "\<dots> = signed_take_bit 31 (int (unat p) - int (unat q))" by simp
  also have "\<dots> = int (unat p) - int (unat q)"
    using assms by (intro signed_take_bit_int_eq_self; simp only: power2_31; linarith)
  finally show ?thesis .
qed

lemma cmp_process_wraps: "cmp_process (p + 2 ^ 32) p = 0"
  by (simp add: cmp_process_def)

text \<open>
  The thread of a new process starts at the entry point of its image, in user mode, with
  interrupts off, and gets the argument in \<open>rdi\<close>.
\<close>

lemma kmalloc_k_frames: "kmalloc_k n s = Some (a, s') \<Longrightarrow> frames s' = frames s \<and> threads s' = threads s"
  by (auto simp: kmalloc_k_def split: Option.bind_splits)

lemma pool_push_frames: "pool_push t s = Some s' \<Longrightarrow> frames s' = frames s \<and> threads s' = threads s"
  by (auto simp: pool_push_def split: Option.bind_splits)

lemma new_process_frame:
  assumes "new_process exit_adr space0 prog0 executable ptr s = Some s'"
  shows "\<exists>t space_adr entry img program. load_program program (take 0x16000 space0) = Some (entry, img) \<and>
    spaces s' space_adr = Some img \<and>
    (let f = frames (psched s') (RSP (threads (psched s') t)) in
      ip f = space_adr + entry \<and> cs f = 0x23 \<and> ss f = 0x2B \<and> rflags f = 2 \<and> rdi f = ptr)"
proof -
  obtain a b y st entry img program t sc1 sc2 sc3 sc4 where
    l: "load_program program (take 0x16000 space0) = Some (entry, img)" and
    t: "new_thread exit_adr (a + entry) 0 sc1 = Some (t, sc2)" and
    p: "pool_push t (sc2\<lparr>frames := (frames sc2)(RSP (threads sc2 t) := (frames sc2 (RSP (threads sc2 t)))
          \<lparr>cs := 0x20 OR 3, ss := 0x28 OR 3, rflags := 0x2\<rparr>)\<rparr>) = Some sc3" and
    k: "kmalloc_k 32 (sc3\<lparr>frames := (frames sc3)(RSP (threads sc2 t) := (frames sc3 (RSP (threads sc2 t)))
          \<lparr>rdi := ptr\<rparr>)\<rparr>) = Some (b, sc4)" and
    s': "psched s' = sc4" "spaces s' a = Some img"
    using assms by (auto simp: new_process_def Let_def split: Option.bind_splits)
  have "ip (frames sc2 (RSP (threads sc2 t))) = a + entry"
    using new_thread_frame(1) [OF t] by blast
  then show ?thesis
    using l s' pool_push_frames [OF p] kmalloc_k_frames [OF k]
    by (intro exI [of _ t] exI [of _ a] exI [of _ entry] exI [of _ img] exI [of _ program]) (simp add: Let_def)
qed

end
