(* ===== verification/Console.thy ===== *)
theory Console
  imports NumText PortIO
begin

text \<open>
  The text console (\<open>kernel/src/graphics.c\<close>, \<open>kernel/src/bitmap-font.c\<close>) and its escape sequences
  (\<open>kernel/src/tty.c\<close>).  A framebuffer is the list of its pixels; an access outside it is
  \<^const>\<open>None\<close>.  The lemmas show what a drawn glyph changes, and on which contexts printing
  stays inside the buffer.
\<close>

section \<open>Fonts\<close>

record bitmap_font =
  numglyph :: u32
  bytesperglyph :: u32
  fheight :: u32
  fwidth :: u32
  glyphs :: "u8 list"

abbreviation PSF1_MAGIC :: u16 where "PSF1_MAGIC \<equiv> 0x0436"
abbreviation PSF1_MODE512 :: u8 where "PSF1_MODE512 \<equiv> 0x01"
abbreviation PSF2_MAGIC :: u32 where "PSF2_MAGIC \<equiv> 0x864ab572"

record psf1_header =
  mode :: u8
  charsize :: u8

record psf2_header =
  ph_numglyph :: u32
  ph_bytesperglyph :: u32
  ph_height :: u32
  ph_width :: u32

definition word16_at :: "u8 list \<Rightarrow> nat \<Rightarrow> u16 option" where
  "word16_at bs i = (if i + 2 \<le> length bs then Some (le16 (bs ! i) (bs ! (i + 1))) else None)"

definition word32_at :: "u8 list \<Rightarrow> nat \<Rightarrow> u32 option" where
  "word32_at bs i = (if i + 4 \<le> length bs
     then Some (le32 (bs ! i) (bs ! (i + 1)) (bs ! (i + 2)) (bs ! (i + 3))) else None)"

definition psf1_header_of :: "u8 list \<Rightarrow> psf1_header option" where
  "psf1_header_of bs = do { m \<leftarrow> arr_get bs 2; c \<leftarrow> arr_get bs 3; Some \<lparr>mode = m, charsize = c\<rparr> }"

definition psf2_header_of :: "u8 list \<Rightarrow> psf2_header option" where
  "psf2_header_of bs = do {
     n \<leftarrow> word32_at bs 16; b \<leftarrow> word32_at bs 20; h \<leftarrow> word32_at bs 24; w \<leftarrow> word32_at bs 28;
     Some \<lparr>ph_numglyph = n, ph_bytesperglyph = b, ph_height = h, ph_width = w\<rparr> }"

definition line_text :: "string \<Rightarrow> u8 list" where
  "line_text m = of_str m @ [0]"

text \<open>
  Each case reports itself on the serial line.  A buffer with neither magic number yields the
  uninitialised local \<open>junk\<close>.
\<close>

definition load_font :: "device \<Rightarrow> bitmap_font \<Rightarrow> u8 list \<Rightarrow> io_trace \<Rightarrow> (bitmap_font \<times> io_trace) option" where
  "load_font d junk buffer tr = do {
     m1 \<leftarrow> word16_at buffer 0;
     if m1 = PSF1_MAGIC then do {
       tr \<leftarrow> print_serial d (line_text ''PSF1 font found'') tr;
       h \<leftarrow> psf1_header_of buffer;
       Some (\<lparr>numglyph = 256 * (1 + ucast (mode h AND PSF1_MODE512)), bytesperglyph = ucast (charsize h),
              fheight = ucast (charsize h), fwidth = 8, glyphs = drop 4 buffer\<rparr>, tr) }
     else do {
       m2 \<leftarrow> word32_at buffer 0;
       if m2 = PSF2_MAGIC then do {
         tr \<leftarrow> print_serial d (line_text ''PSF2 font found'') tr;
         h \<leftarrow> psf2_header_of buffer;
         Some (\<lparr>numglyph = ph_numglyph h, bytesperglyph = ph_bytesperglyph h, fheight = ph_height h,
                fwidth = ph_width h, glyphs = drop 32 buffer\<rparr>, tr) }
       else do {
         tr \<leftarrow> print_serial d (line_text ''Invalid font found'') tr;
         Some (junk, tr) } } }"

section \<open>The framebuffer\<close>

record Framebuffer =
  pixels :: "u32 list"
  Width :: u32
  Height :: u32
  PixelsPerScanLine :: u32

record graphics_context =
  buf :: Framebuffer
  font :: bitmap_font
  console_width :: u32
  console_height :: u32
  cursor_x :: u32
  cursor_y :: u32
  foreground_color :: u32
  background_color :: u32

text \<open>\<open>4 * PixelsPerScanLine * y + 4 * x\<close>: the first product is a \<open>uint32_t\<close>, the second an \<open>int\<close>.\<close>

definition pixel_offset :: "Framebuffer \<Rightarrow> int \<Rightarrow> int \<Rightarrow> int" where
  "pixel_offset f x y = uint (4 * PixelsPerScanLine f * of_int y :: u32) + 4 * x"

definition PlotPixel_32bpp :: "Framebuffer \<Rightarrow> int \<Rightarrow> int \<Rightarrow> u32 \<Rightarrow> Framebuffer option" where
  "PlotPixel_32bpp f x y pixel =
     (let off = pixel_offset f x y in
      if 0 \<le> off then do {
        p \<leftarrow> arr_put (pixels f) (nat (off div 4)) pixel;
        Some (f\<lparr>pixels := p\<rparr>) }
      else None)"

definition ReadPixel_32bpp :: "Framebuffer \<Rightarrow> int \<Rightarrow> int \<Rightarrow> u32 option" where
  "ReadPixel_32bpp f x y =
     (let off = pixel_offset f x y in if 0 \<le> off then arr_get (pixels f) (nat (off div 4)) else None)"

text \<open>The bit of a glyph at column \<open>x2\<close> of row \<open>y2\<close>.\<close>

definition glyph_bit :: "bitmap_font \<Rightarrow> u8 \<Rightarrow> u32 \<Rightarrow> u32 \<Rightarrow> bool option" where
  "glyph_bit fnt chr x2 y2 = do {
     b \<leftarrow> arr_get (glyphs fnt) (unat (bytesperglyph fnt * ucast chr + y2 * ((fwidth fnt + 7) div 8) + x2 div 8));
     Some (bit b (unat (7 - x2 mod 8))) }"

definition render_char :: "graphics_context \<Rightarrow> u32 \<Rightarrow> u32 \<Rightarrow> u8 \<Rightarrow> graphics_context option" where
  "render_char g x y chr =
     (let x_vis = min (fwidth (font g)) (Width (buf g) - x);
          y_vis = min (fheight (font g)) (Height (buf g) - y)
      in for_range (\<lambda>y2. for_range (\<lambda>x2 g. do {
           b \<leftarrow> glyph_bit (font g) chr (of_nat x2) (of_nat y2);
           f \<leftarrow> PlotPixel_32bpp (buf g) (sint (x + of_nat x2)) (sint (y + of_nat y2))
                  (if b then foreground_color g else background_color g);
           Some (g\<lparr>buf := f\<rparr>) }) 0 (unat x_vis)) 0 (unat y_vis) g)"

definition clearchar :: "graphics_context \<Rightarrow> u32 \<Rightarrow> u32 \<Rightarrow> graphics_context option" where
  "clearchar g x y =
     for_range (\<lambda>y2. for_range (\<lambda>x2 g. do {
       f \<leftarrow> PlotPixel_32bpp (buf g) (sint (x + of_nat x2)) (sint (y + of_nat y2)) 0;
       Some (g\<lparr>buf := f\<rparr>) }) 0 (unat (fwidth (font g)))) 0 (unat (fheight (font g))) g"

section \<open>The cursor\<close>

definition move_cursor :: "graphics_context \<Rightarrow> u32 \<Rightarrow> u32 \<Rightarrow> graphics_context" where
  "move_cursor g x y = g\<lparr>cursor_x := x, cursor_y := y\<rparr>"

definition get_cursor_pos :: "graphics_context \<Rightarrow> u32 \<times> u32" where
  "get_cursor_pos g = (cursor_x g, cursor_y g)"

text \<open>The distance is accepted and not used.\<close>

definition cursor_left :: "graphics_context \<Rightarrow> u64 \<Rightarrow> graphics_context" where
  "cursor_left g distance = g\<lparr>cursor_x := max (cursor_x g) 1 - 1\<rparr>"

definition cursor_right :: "graphics_context \<Rightarrow> u64 \<Rightarrow> graphics_context" where
  "cursor_right g distance = g\<lparr>cursor_x := min (cursor_x g + 1) (console_width g)\<rparr>"

definition cursor_up :: "graphics_context \<Rightarrow> u64 \<Rightarrow> graphics_context" where
  "cursor_up g distance = g\<lparr>cursor_y := max (cursor_y g) 1 - 1\<rparr>"

definition cursor_down :: "graphics_context \<Rightarrow> u64 \<Rightarrow> graphics_context" where
  "cursor_down g distance = g\<lparr>cursor_y := min (cursor_y g + 1) (console_height g)\<rparr>"

definition deletechar :: "graphics_context \<Rightarrow> graphics_context option" where
  "deletechar g =
     (let g = cursor_left g 1
      in clearchar g (cursor_x g * fwidth (font g)) (cursor_y g * fheight (font g)))"

section \<open>Printing\<close>

text \<open>
  The copy moves \<open>row_size_px * (console_height - 1)\<close> pixels up by one text row and clears the
  rest.  \<open>row_size_px\<close> and the number of bytes to copy are computed in 32 bits, and the offset of
  the second row in \<open>int\<close>.
\<close>

definition scroll_console :: "graphics_context \<Rightarrow> graphics_context option" where
  "scroll_console g =
     (let row = PixelsPerScanLine (buf g) * fheight (font g);
          row_size_px = unat row;
          n = unat (row * (console_height g - 1) * 4) div 4;
          p = pixels (buf g)
      in if 4 * row_size_px < 2 ^ 31 \<and> row_size_px + n \<le> length p
         then Some (g\<lparr>buf := (buf g)\<lparr>pixels := take n (drop row_size_px p) @ replicate (length p - n) 0\<rparr>\<rparr>)
         else None)"

definition printchar :: "graphics_context \<Rightarrow> u8 \<Rightarrow> graphics_context option" where
  "printchar g chr =
     (if chr = 10 then
        (let g = g\<lparr>cursor_x := 0, cursor_y := cursor_y g + 1\<rparr>
         in if console_height g \<le> cursor_y g then scroll_console (g\<lparr>cursor_y := cursor_y g - 1\<rparr>) else Some g)
      else if chr = 9 then Some (g\<lparr>cursor_x := (cursor_x g + 4) AND NOT 3\<rparr>)
      else do {
        g \<leftarrow> (if console_height g \<le> cursor_y g
              then scroll_console (g\<lparr>cursor_y := console_height g - 1\<rparr>) else Some g);
        let print_x = cursor_x g;
        let print_y = cursor_y g;
        let g = g\<lparr>cursor_x := cursor_x g + 1\<rparr>;
        let g = (if console_width g \<le> cursor_x g then g\<lparr>cursor_x := 0, cursor_y := cursor_y g + 1\<rparr> else g);
        render_char g (print_x * fwidth (font g)) (print_y * fheight (font g)) chr })"

fun print :: "graphics_context \<Rightarrow> u8 list \<Rightarrow> graphics_context option" where
  "print g [] = None"
| "print g (c # cs) = (if c = 0 then Some g else do { g \<leftarrow> printchar g c; print g cs })"

definition clrscr :: "Framebuffer \<Rightarrow> u32 \<Rightarrow> Framebuffer" where
  "clrscr f color = f\<lparr>pixels := map (\<lambda>p. color) (pixels f)\<rparr>"

text \<open>A font without width or height is a division by zero.\<close>

definition init_text_overlay :: "Framebuffer \<Rightarrow> bitmap_font \<Rightarrow> graphics_context option" where
  "init_text_overlay b fnt =
     (if fwidth fnt = 0 \<or> fheight fnt = 0 then None
      else Some \<lparr>buf = clrscr b 0x12121212, font = fnt, console_width = Width b div fwidth fnt,
                 console_height = Height b div fheight fnt, cursor_x = 0, cursor_y = 0,
                 foreground_color = 0xffffffff, background_color = 0\<rparr>)"

definition get_display_resolution :: "Framebuffer \<Rightarrow> u32 \<times> u32" where
  "get_display_resolution f = (Width f, Height f)"

section \<open>The mouse pointer and double buffering\<close>

definition cursor :: "u16 list" where
  "cursor = [0b1000000000000000, 0b1100000000000000, 0b1110000000000000, 0b1111000000000000,
     0b1111100000000000, 0b1111110000000000, 0b1111111000000000, 0b1111111100000000,
     0b1111111110000000, 0b1111111111000000, 0b1111111111100000, 0b1111110000000000,
     0b1111111000000000, 0b1110111100000000, 0b1100011110000000, 0b1000001100000000]"

text \<open>\<open>(mouse_cursor_x, mouse_cursor_y)\<close>\<close>

definition move_mouse :: "int \<Rightarrow> int \<Rightarrow> int \<times> int" where
  "move_mouse x y = (x, y)"

text \<open>The visible sizes are cut to \<open>uint8_t\<close>; a row above 15 would be read outside \<open>cursor\<close>.\<close>

definition draw_mouse :: "int \<times> int \<Rightarrow> Framebuffer \<Rightarrow> Framebuffer option" where
  "draw_mouse m f =
     (let mx = fst m; my = snd m;
          x_vis = unat (ucast (min 16 (Width f - of_int mx)) :: u8);
          y_vis = unat (ucast (min 16 (Height f - of_int my)) :: u8)
      in for_range (\<lambda>y. for_range (\<lambda>i f. do {
           c \<leftarrow> arr_get cursor y;
           if bit c (15 - i) then PlotPixel_32bpp f (mx + int i) (my + int y) 0xffffffff else Some f })
         0 x_vis) 0 y_vis f)"

text \<open>\<open>for (; dst < lim;) *dst++=*sc++;\<close> over 64-bit words, \<open>k\<close> of them copied so far.\<close>

function copy_words :: "nat \<Rightarrow> u32 list \<Rightarrow> nat \<Rightarrow> u32 list \<Rightarrow> (nat \<times> u32 list) option" where
  "copy_words lim src k dst =
     (if 8 * k < lim then do {
        a \<leftarrow> arr_get src (2 * k);
        b \<leftarrow> arr_get src (2 * k + 1);
        dst \<leftarrow> arr_put dst (2 * k) a;
        dst \<leftarrow> arr_put dst (2 * k + 1) b;
        copy_words lim src (k + 1) dst }
      else Some (k, dst))"
  by pat_completeness auto
termination
  by (relation "measure (\<lambda>(l, s, k, d). l - 8 * k)") auto

declare copy_words.simps [simp del]

definition swap_buffer :: "int \<times> int \<Rightarrow> Framebuffer \<Rightarrow> Framebuffer \<Rightarrow> Framebuffer option" where
  "swap_buffer m dest src =
     (let midpoint = unat (PixelsPerScanLine dest * min (of_int (snd m + 16)) (Height dest) * 4);
          end_ofs = 4 * length (pixels dest)
      in do {
        (k, p) \<leftarrow> copy_words midpoint (pixels src) 0 (pixels dest);
        dest \<leftarrow> draw_mouse m (dest\<lparr>pixels := p\<rparr>);
        (k, p) \<leftarrow> copy_words end_ofs (pixels src) k (pixels dest);
        Some (dest\<lparr>pixels := p\<rparr>) })"

section \<open>Escape sequences\<close>

record tty =
  tty_g :: graphics_context
  saved_x :: u32
  saved_y :: u32
  esc_x :: int
  esc_y :: int
  reading_escape :: bool
  maybe_escape :: bool
  esc_second :: bool
  esc_no_input :: bool

definition init_tty_0 :: "graphics_context \<Rightarrow> tty" where
  "init_tty_0 gc = \<lparr>tty_g = gc, saved_x = 0, saved_y = 0, esc_x = 0, esc_y = 0, reading_escape = False,
     maybe_escape = False, esc_second = False, esc_no_input = False\<rparr>"

definition esc_color :: "int \<Rightarrow> u32" where
  "esc_color col = 0xff000000 + of_int (col AND 1) * 0x00ff0000
     + of_int (drop_bit 1 col AND 1) * 0x0000ff00 + of_int (drop_bit 2 col AND 1) * 0x000000ff"

text \<open>One round of the loop of the \<open>m\<close> sequence; \<open>e\<close> is \<open>i?esc_y:esc_x\<close>.\<close>

definition set_color :: "int \<Rightarrow> graphics_context \<Rightarrow> graphics_context" where
  "set_color e gc =
     (let c = esc_color (c_mod e 10)
      in if c_div e 10 = 3 then gc\<lparr>foreground_color := c\<rparr> else gc\<lparr>background_color := c\<rparr>)"

definition esc_distance :: "tty \<Rightarrow> u64" where
  "esc_distance tt = (if esc_no_input tt then 1 else of_int (esc_x tt))"

text \<open>A character inside an escape sequence.\<close>

definition escape_char :: "u8 \<Rightarrow> tty \<Rightarrow> tty" where
  "escape_char c tt0 =
     (let tt = tt0\<lparr>reading_escape := False\<rparr> in
      if 48 \<le> sint c \<and> sint c \<le> 57 then
        (let tt = (if \<not> esc_second tt then tt\<lparr>esc_x := wrap_s32 (esc_x tt * 10 + (sint c - 48))\<rparr>
                   else tt\<lparr>esc_y := wrap_s32 (esc_y tt * 10 + (sint c - 48))\<rparr>)
         in tt\<lparr>esc_no_input := False, reading_escape := True\<rparr>)
      else if c = 59 then tt\<lparr>reading_escape := True, esc_second := True\<rparr>
      else if c = 72 \<or> c = 102 then tt\<lparr>tty_g := move_cursor (tty_g tt) (of_int (esc_x tt)) (of_int (esc_y tt))\<rparr>
      else if c = 65 then tt\<lparr>tty_g := cursor_up (tty_g tt) (esc_distance tt)\<rparr>
      else if c = 66 then tt\<lparr>tty_g := cursor_down (tty_g tt) (esc_distance tt)\<rparr>
      else if c = 67 then tt\<lparr>tty_g := cursor_right (tty_g tt) (esc_distance tt)\<rparr>
      else if c = 68 then tt\<lparr>tty_g := cursor_left (tty_g tt) (esc_distance tt)\<rparr>
      else if c = 115 then (case get_cursor_pos (tty_g tt) of (x, y) \<Rightarrow> tt\<lparr>saved_x := x, saved_y := y\<rparr>)
      else if c = 117 then tt\<lparr>tty_g := move_cursor (tty_g tt) (saved_x tt) (saved_y tt)\<rparr>
      else if c = 109 then
        (let gc = set_color (esc_x tt) (tty_g tt)
         in tt\<lparr>tty_g := (if esc_second tt then set_color (esc_y tt) gc else gc)\<rparr>)
      else tt)"

definition tty_char :: "u8 \<Rightarrow> tty \<Rightarrow> tty option" where
  "tty_char c tt =
     (if c \<noteq> 27 \<and> \<not> reading_escape tt then do { gc \<leftarrow> printchar (tty_g tt) c; Some (tt\<lparr>tty_g := gc\<rparr>) }
      else if c = 27 then Some (tt\<lparr>reading_escape := True, esc_x := 0, esc_y := 0, esc_second := False,
                                esc_no_input := True, maybe_escape := True\<rparr>)
      else if maybe_escape tt then Some (if c = 91 then tt\<lparr>maybe_escape := False\<rparr> else tt)
      else Some (escape_char c tt))"

fun tty_write :: "tty \<Rightarrow> u8 list \<Rightarrow> tty option" where
  "tty_write tt [] = None"
| "tty_write tt (c # f) = (if c = 0 then Some tt else do { tt \<leftarrow> tty_char c tt; tty_write tt f })"

section \<open>Drawing\<close>

text \<open>A framebuffer whose lines lie inside its pixels, within the range of the offsets.\<close>

definition fb_ok :: "Framebuffer \<Rightarrow> bool" where
  "fb_ok f \<longleftrightarrow> Width f \<le> PixelsPerScanLine f \<and>
     unat (PixelsPerScanLine f) * unat (Height f) \<le> length (pixels f) \<and>
     4 * unat (PixelsPerScanLine f) * unat (Height f) < 2 ^ 31 \<and> Width f < 2 ^ 28 \<and> Height f < 2 ^ 31"

definition at :: "Framebuffer \<Rightarrow> nat \<Rightarrow> nat \<Rightarrow> u32" where
  "at f px py = pixels f ! (py * unat (PixelsPerScanLine f) + px)"

lemma cell_index:
  assumes "px < p" "py < h" "p * h \<le> (n :: nat)"
  shows "py * p + px < n"
proof -
  have "py * p + px < Suc py * p" using assms(1) by simp
  also have "\<dots> \<le> h * p" using assms(2) by (intro mult_le_mono1) simp
  finally show ?thesis using assms(3) by (simp add: mult.commute)
qed

lemma cell_inj: "px < p \<Longrightarrow> px' < p \<Longrightarrow> py * p + px = py' * p + px' \<longleftrightarrow> px = px' \<and> py = py'" for p :: nat
  by (metis add.commute div_mult_self3 div_less mod_less mod_mult_self3 add_0 less_zeroE mult.commute)

lemma plot_inside:
  assumes "fb_ok f" "px < unat (Width f)" "py < unat (Height f)"
  shows "PlotPixel_32bpp f (int px) (int py) c
    = Some (f\<lparr>pixels := (pixels f)[py * unat (PixelsPerScanLine f) + px := c]\<rparr>)"
proof -
  let ?p = "unat (PixelsPerScanLine f)"
  have p: "px < ?p" "?p * unat (Height f) \<le> length (pixels f)" "4 * ?p * unat (Height f) < 2 ^ 31"
    using assms(1,2) by (auto simp: fb_ok_def word_le_nat_alt)
  have i: "py * ?p + px < length (pixels f)" by (rule cell_index [OF p(1) assms(3) p(2)])
  have "4 * ?p * py \<le> 4 * ?p * unat (Height f)" using assms(3) by (intro mult_le_mono2) simp
  then have b: "4 * ?p * py < 2 ^ 31" using p(3) by linarith
  have "unat (4 * PixelsPerScanLine f * of_nat py :: u32) = 4 * ?p * py"
    using b by (simp add: unat_word_ariths unat_of_nat mod_mult_eq mod_mult_left_eq mod_mult_right_eq)
  then have "uint (4 * PixelsPerScanLine f * of_nat py :: u32) = int (4 * ?p * py)" by (metis of_nat_unat)
  then have o: "pixel_offset f (int px) (int py) = 4 * int (py * ?p + px)"
    by (simp add: pixel_offset_def algebra_simps)
  have "nat (4 * int k div 4) = k" "0 \<le> 4 * int k" for k by simp_all
  then show ?thesis using i unfolding PlotPixel_32bpp_def Let_def o by (simp only: arr_put_Some) simp
qed

lemma at_plot:
  assumes "fb_ok f" "px < unat (Width f)" "py < unat (Height f)" "qx < unat (PixelsPerScanLine f)"
  shows "at (f\<lparr>pixels := (pixels f)[py * unat (PixelsPerScanLine f) + px := c]\<rparr>) qx qy
    = (if qx = px \<and> qy = py then c else at f qx qy)"
proof -
  have p: "px < unat (PixelsPerScanLine f)" "unat (PixelsPerScanLine f) * unat (Height f) \<le> length (pixels f)"
    using assms(1,2) by (auto simp: fb_ok_def word_le_nat_alt)
  have i: "py * unat (PixelsPerScanLine f) + px < length (pixels f)" by (rule cell_index [OF p(1) assms(3) p(2)])
  show ?thesis using i cell_inj [OF p(1) assms(4)] by (auto simp: at_def nth_list_update)
qed

text \<open>A font all of whose glyphs lie inside its data.\<close>

definition font_ok :: "bitmap_font \<Rightarrow> bool" where
  "font_ok fnt \<longleftrightarrow> 0 < fwidth fnt \<and> 0 < fheight fnt \<and>
     (\<forall>chr x2 y2. x2 < fwidth fnt \<longrightarrow> y2 < fheight fnt \<longrightarrow> glyph_bit fnt chr x2 y2 \<noteq> None)"

definition glyph_color :: "graphics_context \<Rightarrow> u8 \<Rightarrow> nat \<Rightarrow> nat \<Rightarrow> u32" where
  "glyph_color g chr x2 y2 =
     (if glyph_bit (font g) chr (of_nat x2) (of_nat y2) = Some True then foreground_color g else background_color g)"

text \<open>\<open>h\<close> is \<open>g\<close> with the pixels of \<open>S\<close> painted in the colours \<open>col\<close>.\<close>

definition painted :: "graphics_context \<Rightarrow> (nat \<times> nat) set \<Rightarrow> (nat \<Rightarrow> nat \<Rightarrow> u32) \<Rightarrow> graphics_context \<Rightarrow> bool" where
  "painted g S col h \<longleftrightarrow>
     h = g\<lparr>buf := (buf g)\<lparr>pixels := pixels (buf h)\<rparr>\<rparr> \<and> length (pixels (buf h)) = length (pixels (buf g)) \<and>
     (\<forall>px py. px < unat (PixelsPerScanLine (buf g)) \<longrightarrow>
        at (buf h) px py = (if (px, py) \<in> S then col px py else at (buf g) px py))"

lemma painted_start: "painted g {} col g"
  by (simp add: painted_def)

lemma painted_fields:
  assumes "painted g S col h"
  shows "font h = font g" "foreground_color h = foreground_color g" "background_color h = background_color g"
    "Width (buf h) = Width (buf g)" "Height (buf h) = Height (buf g)"
    "PixelsPerScanLine (buf h) = PixelsPerScanLine (buf g)" "fb_ok (buf h) = fb_ok (buf g)"
    "console_width h = console_width g" "console_height h = console_height g"
    "cursor_x h = cursor_x g" "cursor_y h = cursor_y g"
proof -
  have h: "h = g\<lparr>buf := (buf g)\<lparr>pixels := pixels (buf h)\<rparr>\<rparr>" and l: "length (pixels (buf h)) = length (pixels (buf g))"
    using assms by (auto simp: painted_def)
  show "font h = font g" "foreground_color h = foreground_color g" "background_color h = background_color g"
    "Width (buf h) = Width (buf g)" "Height (buf h) = Height (buf g)"
    "PixelsPerScanLine (buf h) = PixelsPerScanLine (buf g)"
    "console_width h = console_width g" "console_height h = console_height g"
    "cursor_x h = cursor_x g" "cursor_y h = cursor_y g"
    by (subst h, simp)+
  then show "fb_ok (buf h) = fb_ok (buf g)" using l by (simp add: fb_ok_def)
qed

lemma painted_plot:
  assumes "painted g S col h" "fb_ok (buf g)" "px < unat (Width (buf g))" "py < unat (Height (buf g))"
  shows "\<exists>f. PlotPixel_32bpp (buf h) (int px) (int py) (col px py) = Some f \<and>
    painted g (insert (px, py) S) col (h\<lparr>buf := f\<rparr>)"
proof -
  note F = painted_fields [OF assms(1)]
  have p: "px < unat (Width (buf h))" "py < unat (Height (buf h))" "fb_ok (buf h)" using assms F by simp_all
  let ?f = "(buf h)\<lparr>pixels := (pixels (buf h))[py * unat (PixelsPerScanLine (buf h)) + px := col px py]\<rparr>"
  obtain P where h: "h = g\<lparr>buf := (buf g)\<lparr>pixels := P\<rparr>\<rparr>" using assms(1) unfolding painted_def by blast
  have "painted g (insert (px, py) S) col (h\<lparr>buf := ?f\<rparr>)"
    using assms(1) at_plot [OF p(3,1,2)] unfolding h painted_def by simp
  then show ?thesis using plot_inside [OF p(3,1,2)] by blast
qed

text \<open>The part of a glyph's cell at \<open>(x, y)\<close> that is on the screen.\<close>

definition cell :: "graphics_context \<Rightarrow> nat \<Rightarrow> nat \<Rightarrow> (nat \<times> nat) set" where
  "cell g x y = {x..<min (x + unat (fwidth (font g))) (unat (Width (buf g)))}
     \<times> {y..<min (y + unat (fheight (font g))) (unat (Height (buf g)))}"

lemma int_small: "n < 2 ^ 31 \<Longrightarrow> signed_take_bit 31 (int n) = int n"
  by (rule signed_take_bit_int_eq_self) simp_all

lemma sint_small:
  fixes x :: u32
  assumes "unat x < 2 ^ 31"
  shows "sint x = int (unat x)"
proof -
  have "sint x = signed_take_bit 31 (int (unat x))" by (simp add: sint_uint)
  also have "\<dots> = int (unat x)" using assms by (rule int_small)
  finally show ?thesis .
qed

lemma sum_small: "unat x + k < 2 ^ 31 \<Longrightarrow> sint (x + of_nat k :: u32) = int (unat x + k)"
  by (subst sint_small) (simp_all add: unat_word_ariths unat_of_nat mod_add_eq mod_add_right_eq)

lemma unat_min: "unat (min a b) = min (unat a) (unat b)" for a b :: "'a::len word"
  by (simp add: min_def word_le_nat_alt)

lemma render_row:
  fixes x y :: u32
  assumes ok: "fb_ok (buf g)" "font_ok (font g)" and x: "x \<le> Width (buf g)" and py: "unat y + y2 < unat (Height (buf g))"
    and y2: "y2 < unat (fheight (font g))" and start: "painted g S (\<lambda>px py. glyph_color g chr (px - unat x) (py - unat y)) h"
  shows "\<exists>h'. for_range (\<lambda>x2 g. do {
        b \<leftarrow> glyph_bit (font g) chr (of_nat x2) (of_nat y2);
        f \<leftarrow> PlotPixel_32bpp (buf g) (sint (x + of_nat x2)) (sint (y + of_nat y2))
               (if b then foreground_color g else background_color g);
        Some (g\<lparr>buf := f\<rparr>) }) 0 (unat (min (fwidth (font g)) (Width (buf g) - x))) h = Some h' \<and>
    painted g (S \<union> {unat x..<unat x + unat (min (fwidth (font g)) (Width (buf g) - x))} \<times> {unat y + y2})
      (\<lambda>px py. glyph_color g chr (px - unat x) (py - unat y)) h'"
proof -
  let ?col = "\<lambda>px py. glyph_color g chr (px - unat x) (py - unat y)"
  let ?n = "unat (min (fwidth (font g)) (Width (buf g) - x))"
  have w: "Width (buf g) < 2 ^ 28" "Height (buf g) < 2 ^ 31" using ok(1) by (auto simp: fb_ok_def)
  have wx: "unat (Width (buf g) - x) = unat (Width (buf g)) - unat x" using x by (simp add: unat_sub)
  have step: "\<exists>h'. do {
        b \<leftarrow> glyph_bit (font h) chr (of_nat k) (of_nat y2);
        f \<leftarrow> PlotPixel_32bpp (buf h) (sint (x + of_nat k)) (sint (y + of_nat y2))
               (if b then foreground_color h else background_color h);
        Some (h\<lparr>buf := f\<rparr>) } = Some h' \<and> painted g (S \<union> {unat x..<unat x + Suc k} \<times> {unat y + y2}) ?col h'"
    if k: "k < ?n" and P: "painted g (S \<union> {unat x..<unat x + k} \<times> {unat y + y2}) ?col h" for k h
  proof -
    have k1: "k < unat (fwidth (font g))" "unat x + k < unat (Width (buf g))"
      using k unfolding unat_min wx by auto
    have small: "unat x + k < 2 ^ 31" "unat y + y2 < 2 ^ 31"
      using k1(2) py w by (auto simp: word_less_nat_alt)
    have "of_nat k < fwidth (font g)" "of_nat y2 < fheight (font g)"
      using k1(1) y2 by (simp_all add: word_less_nat_alt unat_of_nat take_bit_eq_mod order_le_less_trans [OF mod_less_eq_dividend])
    then have "glyph_bit (font g) chr (of_nat k) (of_nat y2) \<noteq> None"
      using ok(2) unfolding font_ok_def by blast
    then obtain b where b: "glyph_bit (font g) chr (of_nat k) (of_nat y2) = Some b" by blast
    have col: "(if b then foreground_color h else background_color h) = ?col (unat x + k) (unat y + y2)"
      using b painted_fields [OF P] by (simp add: glyph_color_def)
    from painted_plot [OF P ok(1) k1(2) py] obtain f where
      f: "PlotPixel_32bpp (buf h) (int (unat x + k)) (int (unat y + y2)) (?col (unat x + k) (unat y + y2)) = Some f"
        "painted g (insert (unat x + k, unat y + y2) (S \<union> {unat x..<unat x + k} \<times> {unat y + y2})) ?col (h\<lparr>buf := f\<rparr>)"
      by blast
    have "insert (unat x + k, unat y + y2) (S \<union> {unat x..<unat x + k} \<times> {unat y + y2})
        = S \<union> {unat x..<unat x + Suc k} \<times> {unat y + y2}" by auto
    moreover have "do {
        b \<leftarrow> glyph_bit (font h) chr (of_nat k) (of_nat y2);
        f \<leftarrow> PlotPixel_32bpp (buf h) (sint (x + of_nat k)) (sint (y + of_nat y2))
               (if b then foreground_color h else background_color h);
        Some (h\<lparr>buf := f\<rparr>) } = Some (h\<lparr>buf := f\<rparr>)"
      unfolding painted_fields(1) [OF P] b Option.bind_lunit sum_small [OF small(1)] sum_small [OF small(2)] col f(1) ..
    ultimately show ?thesis using f(2) by simp
  qed
  show ?thesis
    using for_range_inv [where P = "\<lambda>k. painted g (S \<union> {unat x..<unat x + k} \<times> {unat y + y2}) ?col" and i = 0 and n = ?n and s = h,
        OF _ step] start by simp
qed

lemma render_char_paints:
  assumes ok: "fb_ok (buf g)" "font_ok (font g)" and x: "x \<le> Width (buf g)" and y: "y \<le> Height (buf g)"
  shows "\<exists>h. render_char g x y chr = Some h \<and>
    painted g (cell g (unat x) (unat y)) (\<lambda>px py. glyph_color g chr (px - unat x) (py - unat y)) h"
proof -
  let ?col = "\<lambda>px py. glyph_color g chr (px - unat x) (py - unat y)"
  let ?n = "unat (min (fwidth (font g)) (Width (buf g) - x))" and ?m = "unat (min (fheight (font g)) (Height (buf g) - y))"
  have e: "{unat x..<unat x + ?n} \<times> {unat y..<unat y + ?m} = cell g (unat x) (unat y)"
    using x y by (auto simp: cell_def unat_min unat_sub word_le_nat_alt)
  have "\<exists>h'. for_range (\<lambda>y2. for_range (\<lambda>x2 g. do {
        b \<leftarrow> glyph_bit (font g) chr (of_nat x2) (of_nat y2);
        f \<leftarrow> PlotPixel_32bpp (buf g) (sint (x + of_nat x2)) (sint (y + of_nat y2))
               (if b then foreground_color g else background_color g);
        Some (g\<lparr>buf := f\<rparr>) }) 0 ?n) 0 ?m g = Some h' \<and>
    painted g ({unat x..<unat x + ?n} \<times> {unat y..<unat y + (0 + ?m)}) ?col h'"
  proof (rule for_range_inv [where P = "\<lambda>k. painted g ({unat x..<unat x + ?n} \<times> {unat y..<unat y + k}) ?col"])
    show "painted g ({unat x..<unat x + ?n} \<times> {unat y..<unat y + 0}) ?col g" by (simp add: painted_start)
  next
    fix k h assume k: "k < 0 + ?m" and P: "painted g ({unat x..<unat x + ?n} \<times> {unat y..<unat y + k}) ?col h"
    have "unat y + k < unat (Height (buf g))" "k < unat (fheight (font g))"
      using k y unfolding unat_min by (auto simp: unat_sub)
    from render_row [OF ok x this P]
    have "\<exists>h'. for_range (\<lambda>x2 g. do {
        b \<leftarrow> glyph_bit (font g) chr (of_nat x2) (of_nat k);
        f \<leftarrow> PlotPixel_32bpp (buf g) (sint (x + of_nat x2)) (sint (y + of_nat k))
               (if b then foreground_color g else background_color g);
        Some (g\<lparr>buf := f\<rparr>) }) 0 ?n h = Some h' \<and>
      painted g ({unat x..<unat x + ?n} \<times> {unat y..<unat y + k} \<union> {unat x..<unat x + ?n} \<times> {unat y + k}) ?col h'" .
    moreover have "{unat x..<unat x + ?n} \<times> {unat y..<unat y + k} \<union> {unat x..<unat x + ?n} \<times> {unat y + k}
        = {unat x..<unat x + ?n} \<times> {unat y..<unat y + Suc k}" by auto
    ultimately show "\<exists>h'. for_range (\<lambda>x2 g. do {
        b \<leftarrow> glyph_bit (font g) chr (of_nat x2) (of_nat k);
        f \<leftarrow> PlotPixel_32bpp (buf g) (sint (x + of_nat x2)) (sint (y + of_nat k))
               (if b then foreground_color g else background_color g);
        Some (g\<lparr>buf := f\<rparr>) }) 0 ?n h = Some h' \<and>
      painted g ({unat x..<unat x + ?n} \<times> {unat y..<unat y + Suc k}) ?col h'" by simp
  qed
  then show ?thesis unfolding render_char_def Let_def e [symmetric] by simp
qed

section \<open>Printing stays on the screen\<close>

definition console_ok :: "graphics_context \<Rightarrow> bool" where
  "console_ok g \<longleftrightarrow> fb_ok (buf g) \<and> font_ok (font g) \<and> 0 < console_width g \<and> 0 < console_height g \<and>
     unat (console_width g) * unat (fwidth (font g)) \<le> unat (Width (buf g)) \<and>
     unat (console_height g) * unat (fheight (font g)) \<le> unat (Height (buf g)) \<and>
     cursor_x g \<le> console_width g \<and> cursor_y g \<le> console_height g"

lemma console_ok_start:
  "fb_ok b \<Longrightarrow> font_ok fnt \<Longrightarrow> fwidth fnt \<le> Width b \<Longrightarrow> fheight fnt \<le> Height b \<Longrightarrow>
    \<exists>g. init_text_overlay b fnt = Some g \<and> console_ok g"
  by (auto simp: init_text_overlay_def console_ok_def clrscr_def fb_ok_def font_ok_def unat_div_distrib
      word_less_nat_alt word_le_nat_alt div_greater_zero_iff)

lemma scroll_ok:
  assumes "console_ok g"
  shows "\<exists>p. scroll_console g = Some (g\<lparr>buf := (buf g)\<lparr>pixels := p\<rparr>\<rparr>) \<and> length p = length (pixels (buf g))"
proof -
  let ?p = "unat (PixelsPerScanLine (buf g))" and ?h = "unat (fheight (font g))" and ?c = "unat (console_height g)"
  have c: "0 < ?c" "?c * ?h \<le> unat (Height (buf g))" "?p * unat (Height (buf g)) \<le> length (pixels (buf g))"
    "4 * ?p * unat (Height (buf g)) < 2 ^ 31"
    using assms by (auto simp: console_ok_def fb_ok_def word_less_nat_alt)
  have "?p * (?c * ?h) \<le> ?p * unat (Height (buf g))" using c(2) by (rule mult_le_mono2)
  then have a: "?p * ?h * ?c \<le> ?p * unat (Height (buf g))" by (simp add: ac_simps)
  have "?p * ?h * 1 \<le> ?p * ?h * ?c" using c(1) by (intro mult_le_mono2) simp
  then have f: "4 * (?p * ?h) < 2 ^ 31" using a c(4) by linarith
  then have r: "unat (PixelsPerScanLine (buf g) * fheight (font g)) = ?p * ?h" by (simp add: unat_word_ariths)
  have m: "unat (console_height g - 1) = ?c - 1" using c(1) by (intro unat_minus_one) auto
  have s: "?p * ?h + ?p * ?h * (?c - 1) = ?p * ?h * ?c" using c(1) by (cases ?c) simp_all
  then have b: "?p * ?h + ?p * ?h * (?c - 1) \<le> length (pixels (buf g))" using a c(3) by linarith
  have u: "?p * ?h * (?c - 1) * 4 < 2 ^ 31" using s a c(4) by linarith
  have below: "x < 2 ^ 32" if "x * 4 < 2 ^ 31" for x :: nat using that by simp
  have mult: "unat (v * w) = unat v * unat w" if "unat v * unat w < 2 ^ 32" for v w :: u32
    using that by (simp add: unat_word_ariths)
  have "unat (PixelsPerScanLine (buf g) * fheight (font g)) * unat (console_height g - 1) < 2 ^ 32"
    unfolding r m by (rule below [OF u])
  from mult [OF this] have "unat (PixelsPerScanLine (buf g) * fheight (font g) * (console_height g - 1)) = ?p * ?h * (?c - 1)"
    unfolding r m .
  then have "unat (PixelsPerScanLine (buf g) * fheight (font g) * (console_height g - 1) * 4) = ?p * ?h * (?c - 1) * 4"
    using mult [of "PixelsPerScanLine (buf g) * fheight (font g) * (console_height g - 1)" 4] u by simp
  then have n: "unat (PixelsPerScanLine (buf g) * fheight (font g) * (console_height g - 1) * 4) div 4 = ?p * ?h * (?c - 1)"
    by simp
  show ?thesis
    using b f unfolding scroll_console_def Let_def r n by (simp only: if_True conj_absorb simp_thms) (intro exI conjI, rule refl, simp)
qed

lemma console_ok_pixels:
  "length p = length (pixels (buf g)) \<Longrightarrow> console_ok (g\<lparr>buf := (buf g)\<lparr>pixels := p\<rparr>\<rparr>) \<longleftrightarrow> console_ok g"
  by (simp add: console_ok_def fb_ok_def)

lemma product_fits:
  fixes a b n :: u32
  assumes "unat a * unat b \<le> unat n" shows "unat (a * b) = unat a * unat b"
proof -
  have "unat n < 2 ^ 32" by (rule less_le_trans [OF unsigned_less]) simp
  then show ?thesis using assms by (simp add: unat_word_ariths)
qed

text \<open>A character other than tab and newline, on a context whose cursor row is on the screen.\<close>

definition next_cursor :: "graphics_context \<Rightarrow> graphics_context" where
  "next_cursor g = (if console_width g \<le> cursor_x g + 1 then g\<lparr>cursor_x := 0, cursor_y := cursor_y g + 1\<rparr>
     else g\<lparr>cursor_x := cursor_x g + 1\<rparr>)"

lemma next_cursor_ok:
  assumes "console_ok g" "cursor_y g < console_height g"
  shows "console_ok (next_cursor g)" "buf (next_cursor g) = buf g" "font (next_cursor g) = font g"
    "foreground_color (next_cursor g) = foreground_color g" "background_color (next_cursor g) = background_color g"
proof -
  have y: "cursor_y g + 1 \<le> console_height g" using assms(2) by (rule inc_le)
  show "console_ok (next_cursor g)"
    using assms y by (auto simp: next_cursor_def console_ok_def)
qed (simp_all add: next_cursor_def)

lemma print_glyph:
  assumes "console_ok g" "cursor_y g < console_height g" "c \<noteq> 10" "c \<noteq> 9"
  defines "x \<equiv> unat (cursor_x g) * unat (fwidth (font g))" and "y \<equiv> unat (cursor_y g) * unat (fheight (font g))"
  shows "\<exists>h. printchar g c = Some h \<and> console_ok h \<and>
    painted (next_cursor g) (cell g x y) (\<lambda>px py. glyph_color g c (px - x) (py - y)) h"
proof -
  let ?n = "next_cursor g"
  note N = next_cursor_ok [OF assms(1,2)]
  have ok: "fb_ok (buf g)" "font_ok (font g)"
    "unat (console_width g) * unat (fwidth (font g)) \<le> unat (Width (buf g))"
    "unat (console_height g) * unat (fheight (font g)) \<le> unat (Height (buf g))"
    "unat (cursor_x g) \<le> unat (console_width g)" "unat (cursor_y g) \<le> unat (console_height g)"
    using assms(1) by (auto simp: console_ok_def word_le_nat_alt)
  have xx: "x \<le> unat (Width (buf g))" unfolding x_def using mult_le_mono1 [OF ok(5), of "unat (fwidth (font g))"] ok(3) by linarith
  have yy: "y \<le> unat (Height (buf g))" unfolding y_def using mult_le_mono1 [OF ok(6), of "unat (fheight (font g))"] ok(4) by linarith
  have ux: "unat (cursor_x g * fwidth (font g)) = x" using xx unfolding x_def by (rule product_fits)
  have uy: "unat (cursor_y g * fheight (font g)) = y" using yy unfolding y_def by (rule product_fits)
  have "cursor_x g * fwidth (font g) \<le> Width (buf ?n)" "cursor_y g * fheight (font g) \<le> Height (buf ?n)"
    using xx yy ux uy N(2) by (simp_all add: word_le_nat_alt)
  from render_char_paints [OF _ _ this, of c] obtain h where
    h: "render_char ?n (cursor_x g * fwidth (font g)) (cursor_y g * fheight (font g)) c = Some h"
      "painted ?n (cell ?n x y) (\<lambda>px py. glyph_color ?n c (px - x) (py - y)) h"
    using ok(1,2) N(2,3) ux uy by auto
  have "printchar g c = Some h"
    using assms(2,3,4) h(1) N(3) by (auto simp: printchar_def Let_def next_cursor_def not_le [symmetric] split: if_splits)
  moreover have "console_ok h" using painted_fields [OF h(2)] N(1) by (simp add: console_ok_def)
  moreover have "cell ?n x y = cell g x y" "glyph_color ?n c = glyph_color g c"
    using N by (auto simp: cell_def glyph_color_def fun_eq_iff)
  ultimately show ?thesis using h(2) by auto
qed


lemma scroll_console_ok:
  "console_ok g \<Longrightarrow> \<exists>g'. scroll_console g = Some g' \<and> console_ok g' \<and> cursor_y g' = cursor_y g \<and>
    console_height g' = console_height g"
  using scroll_ok [of g] console_ok_pixels by fastforce

lemma printchar_ok:
  assumes "console_ok g" "c \<noteq> 9"
  shows "\<exists>h. printchar g c = Some h \<and> console_ok h"
proof (cases "c = 10")
  case True
  let ?g = "g\<lparr>cursor_x := 0, cursor_y := cursor_y g + 1\<rparr>"
  show ?thesis
  proof (cases "console_height g \<le> cursor_y g + 1")
    case True
    then have "console_ok (?g\<lparr>cursor_y := cursor_y g\<rparr>)" using assms(1) by (simp add: console_ok_def)
    then obtain h where "scroll_console (?g\<lparr>cursor_y := cursor_y g\<rparr>) = Some h" "console_ok h"
      using scroll_console_ok by blast
    then show ?thesis using \<open>c = 10\<close> True by (simp add: printchar_def Let_def)
  next
    case False
    then have "console_ok ?g" using assms(1) by (simp add: console_ok_def)
    then show ?thesis using \<open>c = 10\<close> False by (simp add: printchar_def Let_def)
  qed
next
  case False
  show ?thesis
  proof (cases "cursor_y g < console_height g")
    case True
    then show ?thesis using print_glyph [OF assms(1) True False assms(2)] by blast
  next
    case False
    let ?g = "g\<lparr>cursor_y := console_height g - 1\<rparr>"
    have h: "0 < console_height g" using assms(1) by (simp add: console_ok_def)
    then have "unat (console_height g - 1) = unat (console_height g) - 1" by (intro unat_minus_one) auto
    then have l: "console_height g - 1 < console_height g" using h by (simp add: word_less_nat_alt)
    then have "console_ok ?g" using assms(1) by (simp add: console_ok_def)
    then obtain k where k: "scroll_console ?g = Some k" "console_ok k" "cursor_y k = console_height g - 1"
      "console_height k = console_height g" using scroll_console_ok [of ?g] by auto
    have "printchar g c = printchar k c"
      using False \<open>c \<noteq> 10\<close> assms(2) k l [unfolded not_le [symmetric]] by (auto simp: printchar_def Let_def not_less)
    then show ?thesis using print_glyph [OF k(2) _ \<open>c \<noteq> 10\<close> assms(2)] k(3,4) l by auto
  qed
qed

text \<open>
  C37.  Printing is safe: on a context whose sizes fit its framebuffer and font, any
  terminated string without tabs is printed without an access outside the pixels or the
  glyphs, scrolling included, and leaves such a context.
\<close>

theorem print_stays_on_screen:
  assumes "console_ok g" "0 \<notin> set cs" "9 \<notin> set cs"
  shows "\<exists>h. print g (cs @ 0 # rest) = Some h \<and> console_ok h"
  using assms
proof (induction cs arbitrary: g)
  case (Cons c cs)
  then obtain k where "printchar g c = Some k" "console_ok k" using printchar_ok [of g c] by auto
  then show ?case using Cons by auto
qed simp

text \<open>An 8 by 2 screen with a font of 8 by 1 glyphs.\<close>

definition font0 :: bitmap_font where
  "font0 = \<lparr>numglyph = 256, bytesperglyph = 1, fheight = 1, fwidth = 8, glyphs = replicate 256 0xF0\<rparr>"

definition fb0 :: Framebuffer where
  "fb0 = \<lparr>pixels = replicate 16 0, Width = 8, Height = 2, PixelsPerScanLine = 8\<rparr>"

lemma font0_ok: "font_ok font0"
proof -
  have "unat (ucast c + (0 :: u32)) < 256" for c :: u8
    using unsigned_less [of c] by (simp add: unat_ucast_le)
  moreover have "x div 8 = 0" if "x < 8" for x :: u32
    using that by (simp add: div_word_less)
  ultimately show ?thesis
    by (auto simp: font_ok_def font0_def glyph_bit_def arr_get_def)
qed

lemma console0_ok: "\<exists>g. init_text_overlay fb0 font0 = Some g \<and> console_ok g"
  by (rule console_ok_start [OF _ font0_ok]) (simp_all add: fb_ok_def fb0_def font0_def)

theorem print_stays_on_screen_witness:
  "\<exists>g h. init_text_overlay fb0 font0 = Some g \<and> print g [97, 10, 98, 99, 0] = Some h"
proof -
  obtain g where g: "init_text_overlay fb0 font0 = Some g" "console_ok g" using console0_ok by blast
  from print_stays_on_screen [OF g(2), of "[97, 10, 98, 99]" "[]"] g(1) show ?thesis by auto
qed

text \<open>After a tab the cursor can be right of the last column, and the next glyph is drawn outside.\<close>

lemma for_range_stuck: "0 < n \<Longrightarrow> f i s = None \<Longrightarrow> for_range f i n s = None"
  by (cases n) simp_all

lemma tab_overruns:
  "(do { g \<leftarrow> init_text_overlay fb0 font0; print g [9, 97, 0] }) = None"
proof -
  have "render_char \<lparr>buf = clrscr fb0 0x12121212, font = font0, console_width = 1, console_height = 2, cursor_x = 0,
      cursor_y = 1, foreground_color = 0xffffffff, background_color = 0\<rparr> 32 0 97 = None"
    unfolding render_char_def Let_def
    by (intro for_range_stuck)
      (simp_all add: fb0_def font0_def clrscr_def glyph_bit_def PlotPixel_32bpp_def pixel_offset_def min_def arr_put_def)
  then show ?thesis
    by (simp add: init_text_overlay_def fb0_def font0_def clrscr_def printchar_def)
qed

section \<open>Positioning by escape sequence\<close>

definition in_escape :: "tty \<Rightarrow> bool" where
  "in_escape tt \<longleftrightarrow> reading_escape tt \<and> \<not> maybe_escape tt"

lemma write_escape: "in_escape tt \<Longrightarrow> c \<noteq> 0 \<Longrightarrow> c \<noteq> 27 \<Longrightarrow> tty_write tt (c # f) = tty_write (escape_char c tt) f"
  by (simp add: tty_char_def in_escape_def)

lemma digit_char: "d < 10 \<Longrightarrow> glyph d \<noteq> 0 \<and> glyph d \<noteq> 27"
proof -
  assume "d < 10"
  then have "d \<in> {0, 1, 2, 3, 4, 5, 6, 7, 8, 9}" by auto
  then show ?thesis by (auto simp: glyph_def hex_ascii_def of_str_def)
qed

lemma dec_value: "n < 2147483648 \<Longrightarrow> wrap_s32 (int (n div 10) * 10 + int (n mod 10)) = int n"
proof -
  assume n: "n < 2147483648"
  have "int (n div 10) * 10 + int (n mod 10) = int n" by presburger
  with n show ?thesis by simp
qed

lemma digit_step:
  assumes "in_escape tt" "d < 10"
  shows "tty_write tt (glyph d # f) = tty_write
    ((if \<not> esc_second tt then tt\<lparr>esc_x := wrap_s32 (esc_x tt * 10 + int d)\<rparr>
      else tt\<lparr>esc_y := wrap_s32 (esc_y tt * 10 + int d)\<rparr>)\<lparr>esc_no_input := False, reading_escape := True\<rparr>) f"
  using assms write_escape [OF assms(1)] digit_char [OF assms(2)] glyph_sint [OF assms(2)]
  by (simp add: escape_char_def Let_def)

lemma number_x:
  "in_escape tt \<Longrightarrow> \<not> esc_second tt \<Longrightarrow> esc_x tt = 0 \<Longrightarrow> n < 2147483648 \<Longrightarrow>
    tty_write tt (map glyph (rev (radix 10 n)) @ f)
      = tty_write (tt\<lparr>esc_x := int n, esc_no_input := False, reading_escape := True\<rparr>) f"
proof (induction n arbitrary: f rule: less_induct)
  case (less n)
  have r: "radix 10 n = n mod 10 # (if n div 10 = 0 then [] else radix 10 (n div 10))" by (rule radix_step) simp
  have e: "wrap_s32 (int (n div 10) * 10 + int (n mod 10)) = int n"
    using less.prems(4) by (rule dec_value)
  show ?case
  proof (cases "n div 10 = 0")
    case True
    then show ?thesis
      using less.prems e digit_step [OF less.prems(1), of "n mod 10" f] unfolding r by simp
  next
    case False
    then have "n div 10 < n" by simp
    let ?t = "tt\<lparr>esc_x := int (n div 10), esc_no_input := False, reading_escape := True\<rparr>"
    have t: "in_escape ?t" using less.prems(1) by (simp add: in_escape_def)
    have "tty_write tt (map glyph (rev (radix 10 n)) @ f)
        = tty_write tt (map glyph (rev (radix 10 (n div 10))) @ glyph (n mod 10) # f)"
      using False by (subst r) simp
    also have "\<dots> = tty_write ?t (glyph (n mod 10) # f)"
      using less.IH [OF \<open>n div 10 < n\<close>, of "glyph (n mod 10) # f"] less.prems by simp
    finally show ?thesis using e digit_step [OF t, of "n mod 10" f] less.prems(2) by simp
  qed
qed

lemma number_y:
  "in_escape tt \<Longrightarrow> esc_second tt \<Longrightarrow> esc_y tt = 0 \<Longrightarrow> n < 2147483648 \<Longrightarrow>
    tty_write tt (map glyph (rev (radix 10 n)) @ f)
      = tty_write (tt\<lparr>esc_y := int n, esc_no_input := False, reading_escape := True\<rparr>) f"
proof (induction n arbitrary: f rule: less_induct)
  case (less n)
  have r: "radix 10 n = n mod 10 # (if n div 10 = 0 then [] else radix 10 (n div 10))" by (rule radix_step) simp
  have e: "wrap_s32 (int (n div 10) * 10 + int (n mod 10)) = int n"
    using less.prems(4) by (rule dec_value)
  show ?case
  proof (cases "n div 10 = 0")
    case True
    then show ?thesis
      using less.prems e digit_step [OF less.prems(1), of "n mod 10" f] unfolding r by simp
  next
    case False
    then have "n div 10 < n" by simp
    let ?t = "tt\<lparr>esc_y := int (n div 10), esc_no_input := False, reading_escape := True\<rparr>"
    have t: "in_escape ?t" using less.prems(1) by (simp add: in_escape_def)
    have "tty_write tt (map glyph (rev (radix 10 n)) @ f)
        = tty_write tt (map glyph (rev (radix 10 (n div 10))) @ glyph (n mod 10) # f)"
      using False by (subst r) simp
    also have "\<dots> = tty_write ?t (glyph (n mod 10) # f)"
      using less.IH [OF \<open>n div 10 < n\<close>, of "glyph (n mod 10) # f"] less.prems by simp
    finally show ?thesis using e digit_step [OF t, of "n mod 10" f] less.prems(2) by simp
  qed
qed

text \<open>
  The sequence \<open>ESC [ x ; y H\<close>, its numbers as \<^const>\<open>format_number\<close> writes them, moves the
  cursor to exactly \<open>(x, y)\<close>, prints nothing, ends the escape state, and the rest of the
  string is then written; neither number is compared with the size of the console.
\<close>

theorem tty_position_sequence:
  assumes "x < 2 ^ 31" "y < 2 ^ 31" "format_number x 10 = Some xs" "format_number y 10 = Some ys"
  shows "\<exists>tt'. tty_write tt ([27, 91] @ xs @ [59] @ ys @ [72] @ f) = tty_write tt' f \<and> \<not> reading_escape tt' \<and>
    tty_g tt' = move_cursor (tty_g tt) (of_nat x) (of_nat y) \<and> saved_x tt' = saved_x tt \<and> saved_y tt' = saved_y tt"
proof -
  have n: "x < 2147483648" "y < 2147483648" using assms(1,2) by simp_all
  have xs: "xs = map glyph (rev (radix 10 x))" "ys = map glyph (rev (radix 10 y))"
    using format_number_radix [of 10 x] format_number_radix [of 10 y] n assms(3,4) by simp_all
  let ?t0 = "tt\<lparr>reading_escape := True, esc_x := 0, esc_y := 0, esc_second := False, esc_no_input := True, maybe_escape := False\<rparr>"
  let ?t1 = "?t0\<lparr>esc_x := int x, esc_no_input := False, reading_escape := True\<rparr>"
  let ?t2 = "?t1\<lparr>reading_escape := True, esc_second := True\<rparr>"
  let ?t3 = "?t2\<lparr>esc_y := int y, esc_no_input := False, reading_escape := True\<rparr>"
  have "tty_write tt ([27, 91] @ xs @ [59] @ ys @ [72] @ f) = tty_write ?t0 (xs @ [59] @ ys @ [72] @ f)"
    by (simp add: tty_char_def)
  also have "\<dots> = tty_write ?t1 ([59] @ ys @ [72] @ f)"
    unfolding xs(1) using n(1) by (intro number_x) (simp_all add: in_escape_def)
  also have "\<dots> = tty_write ?t2 (ys @ [72] @ f)"
    using write_escape [of ?t1 59] by (simp add: in_escape_def escape_char_def Let_def)
  also have "\<dots> = tty_write ?t3 ([72] @ f)"
    unfolding xs(2) using n(2) by (intro number_y) (simp_all add: in_escape_def)
  also have "\<dots> = tty_write (escape_char 72 ?t3) f"
    using write_escape [of ?t3 72] by (simp add: in_escape_def)
  finally show ?thesis
    by (intro exI [of _ "escape_char 72 ?t3"]) (simp add: escape_char_def Let_def move_cursor_def)
qed

theorem tty_position_sequence_witness:
  "\<exists>g tt'. init_text_overlay fb0 font0 = Some g \<and>
     tty_write (init_tty_0 g) [27, 91, 51, 48, 59, 48, 72, 0] = Some tt' \<and> cursor_x (tty_g tt') = 30"
proof -
  obtain g where g: "init_text_overlay fb0 font0 = Some g" using console0_ok by blast
  have "format_number 30 10 = Some [51, 48]" "format_number 0 10 = Some [48]"
    using format_number_radix [of 10 30] format_number_radix [of 10 0] glyph_dec [of 0] glyph_dec [of 3]
    by (simp_all add: radix_step)
  from tty_position_sequence [OF _ _ this, of "init_tty_0 g" "[0]"] g
  show ?thesis by (auto simp: move_cursor_def)
qed

end
