(* ===== verification/Input.thy ===== *)
theory Input
  imports Console
begin

text \<open>
  Input devices: scan codes to key events (\<open>kernel/src/keyboard.c\<close>) and the packets of the PS/2
  mouse (\<open>kernel/src/mouse.c\<close>).  The lemmas show that the modifier bits follow the keys held and
  that the pointer stays on the display.
\<close>

section \<open>Key codes\<close>

abbreviation LeftShift :: u8 where "LeftShift \<equiv> 0x2A"
abbreviation RightShift :: u8 where "RightShift \<equiv> 0x36"
abbreviation Enter :: u8 where "Enter \<equiv> 0x1C"
abbreviation BackSpace :: u8 where "BackSpace \<equiv> 0x0E"
abbreviation Spacebar :: u8 where "Spacebar \<equiv> 0x39"
abbreviation Up_Arrow :: u8 where "Up_Arrow \<equiv> 0x48"
abbreviation Left_Arrow :: u8 where "Left_Arrow \<equiv> 0x4B"
abbreviation Right_Arrow :: u8 where "Right_Arrow \<equiv> 0x4D"
abbreviation Down_Arrow :: u8 where "Down_Arrow \<equiv> 0x50"
abbreviation Alt :: u8 where "Alt \<equiv> 0x38"
abbreviation Ctrl :: u8 where "Ctrl \<equiv> 0x1d"

abbreviation KEYCODE_UNKNOWN :: int where "KEYCODE_UNKNOWN \<equiv> 0"
abbreviation KEYCODE_BACKSPACE :: int where "KEYCODE_BACKSPACE \<equiv> 8"
abbreviation KEYCODE_RETURN :: int where "KEYCODE_RETURN \<equiv> 10"
abbreviation KEYCODE_SPACE :: int where "KEYCODE_SPACE \<equiv> 32"
abbreviation KEYCODE_RIGHT :: int where "KEYCODE_RIGHT \<equiv> 0x1000"
abbreviation KEYCODE_LEFT :: int where "KEYCODE_LEFT \<equiv> 0x1001"
abbreviation KEYCODE_DOWN :: int where "KEYCODE_DOWN \<equiv> 0x1002"
abbreviation KEYCODE_UP :: int where "KEYCODE_UP \<equiv> 0x1003"
abbreviation KEYCODE_LSHIFT :: int where "KEYCODE_LSHIFT \<equiv> 0x1010"
abbreviation KEYCODE_RSHIFT :: int where "KEYCODE_RSHIFT \<equiv> 0x1011"
abbreviation KEYCODE_LALT :: int where "KEYCODE_LALT \<equiv> 0x1012"
abbreviation KEYCODE_LCTRL :: int where "KEYCODE_LCTRL \<equiv> 0x1014"

abbreviation MODCODE_LSHIFT :: u32 where "MODCODE_LSHIFT \<equiv> 1"
abbreviation MODCODE_RSHIFT :: u32 where "MODCODE_RSHIFT \<equiv> 2"
abbreviation MODCODE_SHIFT :: u32 where "MODCODE_SHIFT \<equiv> 3"
abbreviation MODCODE_KEYDOWN :: u32 where "MODCODE_KEYDOWN \<equiv> 4"
abbreviation MODCODE_KEYUP :: u32 where "MODCODE_KEYUP \<equiv> 8"
abbreviation MODCODE_LALT :: u32 where "MODCODE_LALT \<equiv> 16"
abbreviation MODCODE_RALT :: u32 where "MODCODE_RALT \<equiv> 32"
abbreviation MODCODE_LCTRL :: u32 where "MODCODE_LCTRL \<equiv> 64"
abbreviation MODCODE_RCTRL :: u32 where "MODCODE_RCTRL \<equiv> 128"
abbreviation MODCODE_CTRL :: u32 where "MODCODE_CTRL \<equiv> 192"

text \<open>The enumeration \<open>keycodes\<close>: its names and values.\<close>

definition keycodes :: "(string \<times> int) list" where
  "keycodes =
    [(''KEYCODE_UNKNOWN'', 0), (''KEYCODE_BACKSPACE'', 8), (''KEYCODE_TAB'', 9),
     (''KEYCODE_RETURN'', 10), (''KEYCODE_SPACE'', 32), (''KEYCODE_EXCLAIM'', 33),
     (''KEYCODE_QUOTEDBL'', 34), (''KEYCODE_HASH'', 35), (''KEYCODE_DOLLAR'', 36),
     (''KEYCODE_PERCENT'', 37), (''KEYCODE_AMPERSAND'', 38), (''KEYCODE_QUOTE'', 39),
     (''KEYCODE_LEFTPAREN'', 40), (''KEYCODE_RIGHTPAREN'', 41), (''KEYCODE_ASTERISK'', 42),
     (''KEYCODE_PLUS'', 43), (''KEYCODE_COMMA'', 44), (''KEYCODE_MINUS'', 45),
     (''KEYCODE_PERIOD'', 46), (''KEYCODE_SLASH'', 47), (''KEYCODE_0'', 48),
     (''KEYCODE_1'', 49), (''KEYCODE_2'', 50), (''KEYCODE_3'', 51), (''KEYCODE_4'', 52),
     (''KEYCODE_5'', 53), (''KEYCODE_6'', 54), (''KEYCODE_7'', 55), (''KEYCODE_8'', 56),
     (''KEYCODE_9'', 57), (''KEYCODE_COLON'', 58), (''KEYCODE_SEMICOLON'', 59),
     (''KEYCODE_LESS'', 60), (''KEYCODE_EQUALS'', 61), (''KEYCODE_GREATER'', 62),
     (''KEYCODE_QUESTION'', 63), (''KEYCODE_AT'', 64), (''KEYCODE_LEFTBRACKET'', 91),
     (''KEYCODE_BACKSLASH'', 92), (''KEYCODE_RIGHTBRACKET'', 93), (''KEYCODE_CARET'', 94),
     (''KEYCODE_UNDERSCORE'', 95), (''KEYCODE_BACKQUOTE'', 96), (''KEYCODE_a'', 97),
     (''KEYCODE_b'', 98), (''KEYCODE_c'', 99), (''KEYCODE_d'', 100), (''KEYCODE_e'', 101),
     (''KEYCODE_f'', 102), (''KEYCODE_g'', 103), (''KEYCODE_h'', 104), (''KEYCODE_i'', 105),
     (''KEYCODE_j'', 106), (''KEYCODE_k'', 107), (''KEYCODE_l'', 108), (''KEYCODE_m'', 109),
     (''KEYCODE_n'', 110), (''KEYCODE_o'', 111), (''KEYCODE_p'', 112), (''KEYCODE_q'', 113),
     (''KEYCODE_r'', 114), (''KEYCODE_s'', 115), (''KEYCODE_t'', 116), (''KEYCODE_u'', 117),
     (''KEYCODE_v'', 118), (''KEYCODE_w'', 119), (''KEYCODE_x'', 120), (''KEYCODE_y'', 121),
     (''KEYCODE_z'', 122), (''KEYCODE_DELETE'', 127), (''KEYCODE_RIGHT'', 0x1000),
     (''KEYCODE_LEFT'', 0x1001), (''KEYCODE_DOWN'', 0x1002), (''KEYCODE_UP'', 0x1003),
     (''KEYCODE_LSHIFT'', 0x1010), (''KEYCODE_RSHIFT'', 0x1011), (''KEYCODE_LALT'', 0x1012),
     (''KEYCODE_RALT'', 0x1013), (''KEYCODE_LCTRL'', 0x1014), (''KEYCODE_RCTRL'', 0x1015)]"

record key_event =
  keycode :: int
  event_modifiers :: int

section \<open>The keyboard\<close>

definition ASCIITable :: "u8 list" where
  "ASCIITable =
    [0, 0, 49, 50, 51, 52, 53, 54, 55, 56, 57, 48, 45, 61, 0, 0,
     113, 119, 101, 114, 116, 121, 117, 105, 111, 112, 91, 93, 0, 0, 97, 115,
     100, 102, 103, 104, 106, 107, 108, 59, 39, 96, 0, 92, 122, 120, 99, 118,
     98, 110, 109, 44, 46, 47, 0, 42, 0, 32]"

text \<open>Scan code 58 passes the test and is read past the 58 entries of the table.\<close>

definition Translate :: "u8 \<Rightarrow> bool \<Rightarrow> u8 option" where
  "Translate scancode uppercase =
     (if 58 < scancode then Some 0
      else do {
        c \<leftarrow> arr_get ASCIITable (unat scancode);
        Some (if uppercase then c - 32 else c) })"

text \<open>
  \<open>callback\<close> is the installed function, and \<open>kernel_ttys\<close> holds the graphics context of each of
  the ten terminals, if there is one.  A key is delivered to the callback, printed, or neither.
\<close>

record keyboard =
  modifiers :: u32
  previous_key :: u8
  callbacks_enabled :: bool
  callback :: u64
  current_context :: nat
  kernel_ttys :: "nat option list"

datatype key_result = Called u64 int u32 | Printed u8 | Ignored

text \<open>The two \<open>switch\<close> statements: the key code and the new modifiers.\<close>

definition extended_key :: "u8 \<Rightarrow> int" where
  "extended_key k =
     (if k = Left_Arrow then KEYCODE_LEFT
      else if k = Right_Arrow then KEYCODE_RIGHT
      else if k = Up_Arrow then KEYCODE_UP
      else if k = Down_Arrow then KEYCODE_DOWN
      else 0)"

definition plain_key :: "u8 \<Rightarrow> u32 \<Rightarrow> (int \<times> u32) option" where
  "plain_key k m =
     (if k = LeftShift then Some (KEYCODE_LSHIFT, m OR MODCODE_LSHIFT)
      else if k = LeftShift + 0x80 then Some (KEYCODE_LSHIFT, m AND NOT MODCODE_LSHIFT)
      else if k = RightShift then Some (KEYCODE_RSHIFT, m OR MODCODE_RSHIFT)
      else if k = RightShift + 0x80 then Some (KEYCODE_RSHIFT, m AND NOT MODCODE_RSHIFT)
      else if k = Enter then Some (KEYCODE_RETURN, m)
      else if k = Spacebar then Some (KEYCODE_SPACE, m)
      else if k = BackSpace then Some (KEYCODE_BACKSPACE, m)
      else if k = Alt then Some (KEYCODE_LALT, m OR MODCODE_LALT)
      else if k = Alt + 0x80 then Some (KEYCODE_LALT, m AND NOT MODCODE_LALT)
      else if k = Ctrl then Some (KEYCODE_LCTRL, m OR MODCODE_LCTRL)
      else if k = Ctrl + 0x80 then Some (KEYCODE_LCTRL, m AND NOT MODCODE_LCTRL)
      else do { c \<leftarrow> Translate (k AND NOT 0x80) False; Some (sint c, m) })"

definition handle_key :: "u8 \<Rightarrow> keyboard \<Rightarrow> (key_result \<times> keyboard) option" where
  "handle_key k s =
     (if k = 0xE0 \<and> previous_key s = 0 then Some (Ignored, s\<lparr>previous_key := k\<rparr>)
      else do {
        let m = modifiers s AND NOT (MODCODE_KEYUP OR MODCODE_KEYDOWN);
        let m = m OR (if k AND 0x80 \<noteq> 0 then MODCODE_KEYUP else MODCODE_KEYDOWN);
        (final_keycode, m, prev) \<leftarrow>
          (if previous_key s = 0xE0 then Some (extended_key k, m, 0)
           else do { (f, m) \<leftarrow> plain_key k m; Some (f, m, previous_key s) });
        let s = s\<lparr>modifiers := m, previous_key := prev\<rparr>;
        ascii \<leftarrow> Translate k (m AND MODCODE_SHIFT \<noteq> 0);
        s \<leftarrow> (if isdigit (scast ascii) \<and> m AND MODCODE_CTRL \<noteq> 0
              then do {
                t \<leftarrow> arr_get (kernel_ttys s) (nat (sint ascii - 48));
                c \<leftarrow> t;
                Some (s\<lparr>current_context := c\<rparr>) }
              else Some s);
        if callbacks_enabled s
        then (if callback s = 0 then None else Some (Called (callback s) final_keycode m, s))
        else Some (if isprint (scast ascii) then Printed ascii else Ignored, s) })"

definition set_keyboard_callback :: "u64 \<Rightarrow> keyboard \<Rightarrow> keyboard" where
  "set_keyboard_callback cb s = s\<lparr>callback := cb, callbacks_enabled := True\<rparr>"

fun handle_keys :: "u8 list \<Rightarrow> keyboard \<Rightarrow> keyboard option" where
  "handle_keys [] s = Some s"
| "handle_keys (k # ks) s = do { (r, s) \<leftarrow> handle_key k s; handle_keys ks s }"

section \<open>Modifiers\<close>

text \<open>The modifier keys: the scan code of the key and the bit it controls.\<close>

definition mod_keys :: "(u8 \<times> nat) list" where
  "mod_keys = [(LeftShift, 0), (RightShift, 1), (Alt, 4), (Ctrl, 6)]"

text \<open>Whether a key is held after a run of its scan codes.\<close>

fun held :: "u8 \<Rightarrow> u8 list \<Rightarrow> bool \<Rightarrow> bool" where
  "held p [] b = b"
| "held p (k # ks) b = held p ks (if k = p then True else if k = p + 0x80 then False else b)"

text \<open>
  The codes of the plain keys in a run: the prefix 0xE0 and the code of the extended key that
  follows it are left out.  \<open>e\<close> tells whether the run begins behind a prefix.
\<close>

fun plain_codes :: "bool \<Rightarrow> u8 list \<Rightarrow> u8 list" where
  "plain_codes e [] = []"
| "plain_codes True (k # ks) = plain_codes False ks"
| "plain_codes False (k # ks) = (if k = 0xE0 then plain_codes True ks else k # plain_codes False ks)"

definition keyboard_ok :: "keyboard \<Rightarrow> bool" where
  "keyboard_ok s \<longleftrightarrow> previous_key s \<in> {0, 0xE0} \<and> length (kernel_ttys s) = 10 \<and> None \<notin> set (kernel_ttys s) \<and>
     (callbacks_enabled s \<longrightarrow> callback s \<noteq> 0)"

lemma translate_defined: "k \<noteq> 0x3A \<Longrightarrow> \<exists>c. Translate k u = Some c"
proof -
  assume "k \<noteq> 0x3A"
  then have "58 < k \<or> unat k < length ASCIITable"
    by (auto simp: ASCIITable_def word_less_nat_alt word_unat_eq_iff)
  then show ?thesis by (auto simp: Translate_def)
qed

lemma pow_bit: "k < 32 \<Longrightarrow> bit (2 ^ k :: u32) n \<longleftrightarrow> n = k"
  by (auto simp: bit_exp_iff)

lemma mod_bit:
  "bit (1 :: u32) n \<longleftrightarrow> n = 0" "bit (2 :: u32) n \<longleftrightarrow> n = 1" "bit (4 :: u32) n \<longleftrightarrow> n = 2"
  "bit (8 :: u32) n \<longleftrightarrow> n = 3" "bit (16 :: u32) n \<longleftrightarrow> n = 4" "bit (64 :: u32) n \<longleftrightarrow> n = 6"
  using pow_bit [of 0 n] pow_bit [of 1 n] pow_bit [of 2 n] pow_bit [of 3 n] pow_bit [of 4 n] pow_bit [of 6 n]
  by simp_all

lemma set_clear_bits:
  "bit (m OR 1) n \<longleftrightarrow> bit m n \<or> n = 0" "bit (m OR 2) n \<longleftrightarrow> bit m n \<or> n = 1"
  "bit (m OR 16) n \<longleftrightarrow> bit m n \<or> n = 4" "bit (m OR 64) n \<longleftrightarrow> bit m n \<or> n = 6"
  "bit (m OR 4) n \<longleftrightarrow> bit m n \<or> n = 2" "bit (m OR 8) n \<longleftrightarrow> bit m n \<or> n = 3"
  "bit (m AND - 2) n \<longleftrightarrow> bit m n \<and> n \<noteq> 0" "bit (m AND - 3) n \<longleftrightarrow> bit m n \<and> n \<noteq> 1"
  "bit (m AND - 17) n \<longleftrightarrow> bit m n \<and> n \<noteq> 4" "bit (m AND - 65) n \<longleftrightarrow> bit m n \<and> n \<noteq> 6"
  "bit (m AND - 13) n \<longleftrightarrow> bit m n \<and> n \<noteq> 2 \<and> n \<noteq> 3" for m :: u32
proof -
  have p: "(- 2 :: u32) = NOT 1" "(- 3 :: u32) = NOT 2" "(- 17 :: u32) = NOT 16" "(- 65 :: u32) = NOT 64"
    "(- 13 :: u32) = NOT (4 OR 8)" by simp_all
  note b = bit_or_iff bit_and_iff bit_not_iff mod_bit
  show "bit (m OR 1) n \<longleftrightarrow> bit m n \<or> n = 0" "bit (m OR 2) n \<longleftrightarrow> bit m n \<or> n = 1"
    "bit (m OR 16) n \<longleftrightarrow> bit m n \<or> n = 4" "bit (m OR 64) n \<longleftrightarrow> bit m n \<or> n = 6"
    "bit (m OR 4) n \<longleftrightarrow> bit m n \<or> n = 2" "bit (m OR 8) n \<longleftrightarrow> bit m n \<or> n = 3"
    unfolding b by auto
  show "bit (m AND - 2) n \<longleftrightarrow> bit m n \<and> n \<noteq> 0" "bit (m AND - 3) n \<longleftrightarrow> bit m n \<and> n \<noteq> 1"
    "bit (m AND - 17) n \<longleftrightarrow> bit m n \<and> n \<noteq> 4" "bit (m AND - 65) n \<longleftrightarrow> bit m n \<and> n \<noteq> 6"
    "bit (m AND - 13) n \<longleftrightarrow> bit m n \<and> n \<noteq> 2 \<and> n \<noteq> 3"
    unfolding p b by (auto dest: bit_imp_le_length)
qed

lemma plain_key_bits:
  assumes "k AND NOT 0x80 \<noteq> 0x3A" "(p, n) \<in> set mod_keys"
  shows "\<exists>f m'. plain_key k m = Some (f, m') \<and> (bit m' n \<longleftrightarrow> (if k = p then True else if k = p + 0x80 then False else bit m n))"
proof -
  obtain c where "Translate (k AND NOT 0x80) False = Some c" using translate_defined [OF assms(1)] by blast
  then have c: "Translate (k AND - 129) False = Some c" by simp
  have "(p, n) = (LeftShift, 0) \<or> (p, n) = (RightShift, 1) \<or> (p, n) = (Alt, 4) \<or> (p, n) = (Ctrl, 6)"
    using assms(2) by (simp add: mod_keys_def)
  then show ?thesis
    by (elim disjE) (simp_all add: plain_key_def c set_clear_bits)
qed


lemma sint_char: "sint (scast c :: s32) = sint c" for c :: u8
proof -
  have "sint (scast c :: s32) = signed_take_bit 31 (sint c)" by (simp add: signed_scast_eq)
  also have "\<dots> = sint c"
    using sint_ge [of c] sint_lt [of c] by (intro signed_take_bit_int_eq_self) simp_all
  finally show ?thesis .
qed

lemma switch_terminal:
  fixes c :: u8
  assumes "length (kernel_ttys s) = 10" "None \<notin> set (kernel_ttys s)"
  shows "\<exists>x. (if isdigit (scast c) \<and> b
      then do { t \<leftarrow> arr_get (kernel_ttys s) (nat (sint c - 48)); x \<leftarrow> t; Some (s\<lparr>current_context := x\<rparr>) }
      else Some s) = Some (s\<lparr>current_context := x\<rparr>)"
proof (cases "isdigit (scast c)")
  case True
  then have "48 \<le> sint c" "sint c \<le> 57"
    by (simp_all add: isdigit_def sint_char)
  then have i: "nat (sint c - 48) < length (kernel_ttys s)" using assms(1) by (simp add: nat_less_iff)
  then obtain x where "kernel_ttys s ! nat (sint c - 48) = Some x"
    using assms(2) nth_mem [OF i] by (cases "kernel_ttys s ! nat (sint c - 48)") auto
  then show ?thesis using i by (auto intro: exI [of _ "current_context s"])
next
  case False
  then show ?thesis by (auto intro: exI [of _ "current_context s"])
qed

text \<open>The part of the handler behind the two \<open>switch\<close> statements always returns.\<close>

lemma key_delivered:
  assumes "keyboard_ok s" "k \<noteq> 0x3A"
  shows "\<exists>r x. (do {
      ascii \<leftarrow> Translate k u;
      s \<leftarrow> (if isdigit (scast ascii) \<and> b
            then do { t \<leftarrow> arr_get (kernel_ttys s) (nat (sint ascii - 48)); c \<leftarrow> t; Some (s\<lparr>current_context := c\<rparr>) }
            else Some s);
      if callbacks_enabled s
      then (if callback s = 0 then None else Some (Called (callback s) f m, s))
      else Some (if isprint (scast ascii) then Printed ascii else Ignored, s) }) = Some (r, s\<lparr>current_context := x\<rparr>)"
proof -
  obtain c where c: "Translate k u = Some c" using translate_defined [OF assms(2)] by blast
  obtain x where x: "(if isdigit (scast c) \<and> b
      then do { t \<leftarrow> arr_get (kernel_ttys s) (nat (sint c - 48)); c \<leftarrow> t; Some (s\<lparr>current_context := c\<rparr>) }
      else Some s) = Some (s\<lparr>current_context := x\<rparr>)"
    using switch_terminal [of s c b] assms(1) by (auto simp: keyboard_ok_def)
  show ?thesis using assms(1) unfolding c bind.simps x by (auto simp: keyboard_ok_def)
qed

text \<open>A code behind the prefix leaves the four bits alone and ends the extension.\<close>

lemma handle_extended_key:
  assumes k: "k \<noteq> 0x3A" and ok: "keyboard_ok s" and e: "previous_key s = 0xE0"
  shows "\<exists>r s'. handle_key k s = Some (r, s') \<and> keyboard_ok s' \<and> previous_key s' = 0 \<and>
    (\<forall>(p, n) \<in> set mod_keys. bit (modifiers s') n = bit (modifiers s) n)"
proof -
  define m where "m = (modifiers s AND NOT (MODCODE_KEYUP OR MODCODE_KEYDOWN)) OR
    (if k AND 0x80 \<noteq> 0 then MODCODE_KEYUP else MODCODE_KEYDOWN)"
  have m_bits: "\<forall>(p, n) \<in> set mod_keys. bit m n = bit (modifiers s) n"
    by (auto simp: m_def mod_keys_def set_clear_bits)
  let ?s = "s\<lparr>modifiers := m, previous_key := 0\<rparr>"
  have ok': "keyboard_ok (?s\<lparr>current_context := x\<rparr>)" "keyboard_ok ?s" for x using ok by (simp_all add: keyboard_ok_def)
  obtain r x where "handle_key k s = Some (r, ?s\<lparr>current_context := x\<rparr>)"
    using key_delivered [OF ok'(2) k, of "m AND MODCODE_SHIFT \<noteq> 0" "m AND MODCODE_CTRL \<noteq> 0" "extended_key k" m] e
    unfolding handle_key_def Let_def m_def [symmetric] by auto
  then show ?thesis using ok'(1) m_bits by force
qed

lemma handle_plain_key:
  assumes k: "k \<noteq> 0xE0" "k AND NOT 0x80 \<noteq> 0x3A" and ok: "keyboard_ok s" and p0: "previous_key s = 0"
  shows "\<exists>r s'. handle_key k s = Some (r, s') \<and> keyboard_ok s' \<and> previous_key s' = 0 \<and>
    (\<forall>(p, n) \<in> set mod_keys. bit (modifiers s') n
       \<longleftrightarrow> (if k = p then True else if k = p + 0x80 then False else bit (modifiers s) n))"
proof -
  define m where "m = (modifiers s AND NOT (MODCODE_KEYUP OR MODCODE_KEYDOWN)) OR
    (if k AND 0x80 \<noteq> 0 then MODCODE_KEYUP else MODCODE_KEYDOWN)"
  have m_bits: "bit m n = bit (modifiers s) n" if "(p, n) \<in> set mod_keys" for p n
    using that by (auto simp: m_def mod_keys_def set_clear_bits)
  obtain f m' where f: "plain_key k m = Some (f, m')" using plain_key_bits [OF k(2), of LeftShift 0 m] by (auto simp: mod_keys_def)
  have bits: "bit m' n \<longleftrightarrow> (if k = p then True else if k = p + 0x80 then False else bit (modifiers s) n)"
    if "(p, n) \<in> set mod_keys" for p n
    using plain_key_bits [OF k(2) that, of m] f m_bits [OF that] by simp
  have k': "k \<noteq> 0x3A" using k(2) by auto
  let ?s = "s\<lparr>modifiers := m', previous_key := 0\<rparr>"
  have ok': "keyboard_ok (?s\<lparr>current_context := x\<rparr>)" "keyboard_ok ?s" for x using ok by (simp_all add: keyboard_ok_def)
  obtain r x where "handle_key k s = Some (r, ?s\<lparr>current_context := x\<rparr>)"
    using key_delivered [OF ok'(2) k', of "m' AND MODCODE_SHIFT \<noteq> 0" "m' AND MODCODE_CTRL \<noteq> 0" f m'] p0 k(1) f
    unfolding handle_key_def Let_def m_def [symmetric] by auto
  then show ?thesis using ok'(1) bits by force
qed

text \<open>
  C38.  After any run of scan codes without the caps-lock key, the modifier bit of each of the
  four modifier keys tells whether the key is held: it is set exactly when the last of its two
  scan codes was the press.  The code behind a prefix 0xE0 belongs to another key, also when it
  is the code of Ctrl or Alt, and never changes one of the bits.  Every such run is handled,
  beginning and ending on either side of a prefix.
\<close>

theorem modifiers_track_keys:
  assumes "\<forall>k \<in> set ks. k AND NOT 0x80 \<noteq> 0x3A" "keyboard_ok s"
  shows "\<exists>s'. handle_keys ks s = Some s' \<and> keyboard_ok s' \<and>
    (\<forall>(p, n) \<in> set mod_keys.
       bit (modifiers s') n \<longleftrightarrow> held p (plain_codes (previous_key s = 0xE0) ks) (bit (modifiers s) n))"
  using assms
proof (induction ks arbitrary: s)
  case (Cons k ks)
  then have k: "k AND NOT 0x80 \<noteq> 0x3A" "k \<noteq> 0x3A" and ks: "\<forall>k \<in> set ks. k AND NOT 0x80 \<noteq> 0x3A" by auto
  consider (ext) "previous_key s = 0xE0" | (prefix) "previous_key s = 0" "k = 0xE0"
    | (plain) "previous_key s = 0" "k \<noteq> 0xE0"
    using Cons.prems(2) by (auto simp: keyboard_ok_def)
  then show ?case
  proof cases
    case ext
    with handle_extended_key [OF k(2) Cons.prems(2)] obtain r s1 where s1: "handle_key k s = Some (r, s1)"
      "keyboard_ok s1" "previous_key s1 = 0" "\<forall>(p, n) \<in> set mod_keys. bit (modifiers s1) n = bit (modifiers s) n" by blast
    then show ?thesis using Cons.IH [OF ks s1(2)] ext by fastforce
  next
    case prefix
    let ?s = "s\<lparr>previous_key := 0xE0\<rparr>"
    have "handle_key k s = Some (Ignored, ?s)" "keyboard_ok ?s"
      using prefix Cons.prems(2) by (simp_all add: handle_key_def keyboard_ok_def)
    then show ?thesis using Cons.IH [OF ks, of ?s] prefix by simp
  next
    case plain
    with handle_plain_key [OF plain(2) k(1) Cons.prems(2)] obtain r s1 where s1: "handle_key k s = Some (r, s1)"
      "keyboard_ok s1" "previous_key s1 = 0" "\<forall>(p, n) \<in> set mod_keys. bit (modifiers s1) n
         \<longleftrightarrow> (if k = p then True else if k = p + 0x80 then False else bit (modifiers s) n)" by blast
    then show ?thesis using Cons.IH [OF ks s1(2)] plain by fastforce
  qed
qed auto

definition keyboard0 :: keyboard where
  "keyboard0 = \<lparr>modifiers = 0, previous_key = 0, callbacks_enabled = False, callback = 0, current_context = 0,
     kernel_ttys = map Some [0..<10]\<rparr>"

lemma keyboard0_ok: "keyboard_ok keyboard0"
  by (auto simp: keyboard_ok_def keyboard0_def)

theorem modifiers_track_keys_witness:
  "\<exists>s'. handle_keys [LeftShift, 0x1E, Ctrl, 0xE0, Alt, LeftShift + 0x80, 0xE0, Ctrl + 0x80, RightShift] keyboard0 = Some s' \<and>
     \<not> bit (modifiers s') 0 \<and> bit (modifiers s') 1 \<and> \<not> bit (modifiers s') 4 \<and> bit (modifiers s') 6"
proof -
  have "previous_key keyboard0 = 0" "modifiers keyboard0 = 0" by (simp_all add: keyboard0_def)
  with modifiers_track_keys [OF _ keyboard0_ok,
      of "[LeftShift, 0x1E, Ctrl, 0xE0, Alt, LeftShift + 0x80, 0xE0, Ctrl + 0x80, RightShift]"]
  show ?thesis by (auto simp: mod_keys_def)
qed

text \<open>
  The right Ctrl and Alt keys send the codes of the left ones behind a prefix; the bits
  \<open>MODCODE_RCTRL\<close> and \<open>MODCODE_RALT\<close> are never set for them.
\<close>

lemma right_ctrl_alt_ignored:
  "\<exists>s'. handle_keys [0xE0, Ctrl, 0xE0, Alt] keyboard0 = Some s' \<and> modifiers s' AND (MODCODE_RCTRL OR MODCODE_RALT) = 0"
  by (simp add: handle_key_def Let_def keyboard0_def Translate_def ASCIITable_def isdigit_def isprint_def)

text \<open>The caps-lock key makes the handler read past its table.\<close>

lemma caps_lock_outside: "previous_key s = 0 \<Longrightarrow> handle_key 0x3A s = None"
  by (simp add: handle_key_def Let_def plain_key_def Translate_def ASCIITable_def)

text \<open>Every character the table produces is the value of a name of the enumeration.\<close>

lemma table_in_keycodes: "\<forall>c \<in> set ASCIITable. sint c \<in> snd ` set keycodes"
  by (simp add: ASCIITable_def keycodes_def)

section \<open>The PS/2 controller\<close>

text \<open>
  \<open>while (busy(inb(0x64)) && timeout--);\<close>: at most \<open>timeout + 1\<close> reads.  The read side tests
  \<open>!inb(0x64) & 1\<close>, which is 1 exactly when the whole status byte is 0.
\<close>

fun ps2_wait :: "device \<Rightarrow> (u8 \<Rightarrow> bool) \<Rightarrow> nat \<Rightarrow> io_trace \<Rightarrow> io_trace" where
  "ps2_wait d busy 0 tr = snd (inb d 0x64 tr)"
| "ps2_wait d busy (Suc timeout) tr =
     (case inb d 0x64 tr of (v, tr) \<Rightarrow> if busy v then ps2_wait d busy timeout tr else tr)"

definition PS2_WAIT_WRITE :: "device \<Rightarrow> u16 \<Rightarrow> u8 \<Rightarrow> io_trace \<Rightarrow> io_trace" where
  "PS2_WAIT_WRITE d port data tr = outb port data (ps2_wait d (\<lambda>v. v AND 0b10 \<noteq> 0) 10000 tr)"

definition PS2_WAIT_READ :: "device \<Rightarrow> u16 \<Rightarrow> io_trace \<Rightarrow> u8 \<times> io_trace" where
  "PS2_WAIT_READ d port tr = inb d port (ps2_wait d (\<lambda>v. v = 0) 10000 tr)"

definition PS2_WRITE_PORT_2 :: "device \<Rightarrow> u16 \<Rightarrow> u8 \<Rightarrow> io_trace \<Rightarrow> io_trace" where
  "PS2_WRITE_PORT_2 d port data tr = outb port data (PS2_WAIT_WRITE d 0x64 0xD4 tr)"

text \<open>\<open>skip\<close>, the packet buffer, the position and the display size of \<open>mouse.c\<close>.\<close>

record mouse =
  skip :: u8
  fragment_counter :: u8
  fragments :: "u8 list"
  mouse_x :: int
  mouse_y :: int
  display_width :: u32
  display_height :: u32
  pointer :: "int \<times> int"

definition INIT_PS2_MOUSE :: "device \<Rightarrow> Framebuffer \<Rightarrow> mouse \<Rightarrow> io_trace \<Rightarrow> mouse \<times> io_trace" where
  "INIT_PS2_MOUSE d screen ms tr0 =
     (let tr = PS2_WAIT_WRITE d 0x64 0xA8 tr0;
          tr = PS2_WAIT_WRITE d 0x64 0x20 tr;
          (v, tr) = PS2_WAIT_READ d 0x60 tr;
          minp = v OR 2;
          tr = PS2_WAIT_WRITE d 0x64 0x60 tr;
          tr = PS2_WAIT_WRITE d 0x60 minp tr;
          tr = PS2_WRITE_PORT_2 d 0x60 0xF6 tr;
          (v, tr) = PS2_WAIT_READ d 0x60 tr;
          tr = PS2_WRITE_PORT_2 d 0x60 0xF4 tr;
          (v, tr) = PS2_WAIT_READ d 0x60 tr;
          (w, h) = get_display_resolution screen
      in (ms\<lparr>display_width := w, display_height := h\<rparr>, tr))"

section \<open>Mouse packets\<close>

abbreviation PS2Leftbutton :: u8 where "PS2Leftbutton \<equiv> 0b00000001"
abbreviation PS2Middlebutton :: u8 where "PS2Middlebutton \<equiv> 0b00000100"
abbreviation PS2Rightbutton :: u8 where "PS2Rightbutton \<equiv> 0b00000010"
abbreviation PS2XSign :: u8 where "PS2XSign \<equiv> 0b00010000"
abbreviation PS2YSign :: u8 where "PS2YSign \<equiv> 0b00100000"
abbreviation PS2XOverflow :: u8 where "PS2XOverflow \<equiv> 0b01000000"
abbreviation PS2YOverflow :: u8 where "PS2YOverflow \<equiv> 0b10000000"

text \<open>\<open>MIN(MAX(v,0),size-1)\<close>: the minimum is taken in \<open>uint32_t\<close> and cut back to \<open>int\<close>.\<close>

definition clamp :: "int \<Rightarrow> u32 \<Rightarrow> int" where
  "clamp v sz = sint (min (of_int (max v 0)) (sz - 1))"

definition HANDLE_PS2_MOUSE :: "u8 \<Rightarrow> mouse \<times> graphics_context \<Rightarrow> (mouse \<times> graphics_context) option" where
  "HANDLE_PS2_MOUSE frag s = (case s of (ms, gc) \<Rightarrow>
     if skip ms \<noteq> 0 then Some (ms\<lparr>skip := skip ms - 1\<rparr>, gc)
     else do {
       fr \<leftarrow> arr_put (fragments ms) (unat (fragment_counter ms)) frag;
       let ms = ms\<lparr>fragments := fr, fragment_counter := fragment_counter ms + 1\<rparr>;
       if fragment_counter ms \<noteq> 3 then Some (ms, gc)
       else do {
         let ms = ms\<lparr>fragment_counter := 0\<rparr>;
         let x_neg = (fr ! 0 AND PS2XSign \<noteq> 0);
         let y_neg = (fr ! 0 AND PS2YSign \<noteq> 0);
         if fr ! 0 AND (PS2XOverflow OR PS2YOverflow) \<noteq> 0 then Some (ms, gc)
         else do {
           let x = wrap_s32 (mouse_x ms + (if x_neg then uint (fr ! 1) - 256 else uint (fr ! 1)));
           let y = wrap_s32 (mouse_y ms - (if y_neg then uint (fr ! 2) - 256 else uint (fr ! 2)));
           let ms = ms\<lparr>mouse_x := clamp x (display_width ms), mouse_y := clamp y (display_height ms)\<rparr>;
           gc \<leftarrow> (if fr ! 0 AND PS2Leftbutton \<noteq> 0
                 then render_char gc (of_int (mouse_x ms)) (of_int (mouse_y ms)) 97 else Some gc);
           Some (ms\<lparr>pointer := move_mouse (mouse_x ms) (mouse_y ms)\<rparr>, gc) } } })"

fun mouse_bytes :: "u8 list \<Rightarrow> mouse \<times> graphics_context \<Rightarrow> (mouse \<times> graphics_context) option" where
  "mouse_bytes [] s = Some s"
| "mouse_bytes (b # bs) s = do { s \<leftarrow> HANDLE_PS2_MOUSE b s; mouse_bytes bs s }"

section \<open>The pointer stays on the display\<close>

definition mouse_ok :: "mouse \<Rightarrow> bool" where
  "mouse_ok ms \<longleftrightarrow> fragment_counter ms < 3 \<and> length (fragments ms) = 4 \<and>
     0 < display_width ms \<and> display_width ms < 2 ^ 30 \<and> 0 < display_height ms \<and> display_height ms < 2 ^ 30 \<and>
     0 \<le> mouse_x ms \<and> mouse_x ms < uint (display_width ms) \<and> 0 \<le> mouse_y ms \<and> mouse_y ms < uint (display_height ms) \<and>
     pointer ms = (mouse_x ms, mouse_y ms)"

text \<open>
  What the bytes of the mouse say: packets of three bytes, of which the second and third are the
  low eight bits of two 9-bit two's-complement movements whose signs are bits 4 and 5 of the
  first.  Up is positive for the mouse and negative on the screen.  A packet with an overflow bit
  does not count, and the position is kept between 0 and the size less 1.
\<close>

definition into :: "u32 \<Rightarrow> int \<Rightarrow> int" where
  "into sz v = max 0 (min v (uint sz - 1))"

definition movement :: "u8 \<Rightarrow> bool \<Rightarrow> int" where
  "movement b neg = uint b - (if neg then 256 else 0)"

fun travel :: "u32 \<times> u32 \<Rightarrow> u8 list \<Rightarrow> int \<times> int \<Rightarrow> int \<times> int" where
  "travel sz (b0 # b1 # b2 # bs) p = travel sz bs
     (if bit b0 6 \<or> bit b0 7 then p
      else (into (fst sz) (fst p + movement b1 (bit b0 4)), into (snd sz) (snd p - movement b2 (bit b0 5))))"
| "travel sz bs p = p"

text \<open>The bytes the handler acts on: those of the packet it has begun, and what comes after the bytes it skips.\<close>

definition packet_bytes :: "mouse \<Rightarrow> u8 list \<Rightarrow> u8 list" where
  "packet_bytes ms bs = take (unat (fragment_counter ms)) (fragments ms) @ drop (unat (skip ms)) bs"

text \<open>The screen drawn on has the size the mouse was initialised with.\<close>

definition screen_ok :: "mouse \<Rightarrow> graphics_context \<Rightarrow> bool" where
  "screen_ok ms gc \<longleftrightarrow> fb_ok (buf gc) \<and> font_ok (font gc) \<and>
     Width (buf gc) = display_width ms \<and> Height (buf gc) = display_height ms"

lemma clamp_into:
  assumes "0 < sz" "sz < 2 ^ 31" "v < 2 ^ 31"
  shows "clamp v sz = into sz v"
proof -
  have "sz \<noteq> 0" using assms(1) by auto
  then have s: "unat (sz - 1) = unat sz - 1" "0 < unat sz" "unat sz < 2 ^ 31"
    using assms(1,2) unat_minus_one [of sz] by (auto simp: word_less_nat_alt)
  obtain n where n: "max v 0 = int n" "n < 2 ^ 31" using assms(3) by (cases "max v 0") auto
  then have u: "unat (of_int (max v 0) :: u32) = n" by (simp add: unat_of_nat)
  have m: "unat (min (of_int (max v 0)) (sz - 1)) = min n (unat sz - 1)" by (simp add: unat_min u s)
  have "clamp v sz = int (min n (unat sz - 1))"
    unfolding clamp_def using s(3) by (subst sint_small) (simp_all only: m)
  moreover have "uint sz = int (unat sz)" by simp
  ultimately show ?thesis using s(2) n(1) unfolding into_def by linarith
qed

lemma into_range: "0 < sz \<Longrightarrow> 0 \<le> into sz v" "0 < sz \<Longrightarrow> into sz v < uint sz"
proof -
  assume "0 < sz"
  then have "0 < uint sz" by (simp add: word_less_def)
  then show "0 \<le> into sz v" "into sz v < uint sz" by (simp_all add: into_def)
qed

text \<open>A movement never leaves the range of \<open>int\<close>.\<close>

lemma moved_into:
  assumes "0 < sz" "sz < 2 ^ 30" "0 \<le> v" "v < uint sz"
  shows "clamp (wrap_s32 (v + movement b neg)) sz = into sz (v + movement b neg)"
    "clamp (wrap_s32 (v - movement b neg)) sz = into sz (v - movement b neg)"
proof -
  have b: "0 \<le> uint b" "uint b < 256" using uint_lt2p [of b] by simp_all
  have z: "uint sz < 2 ^ 30" using assms(2) by (simp add: word_less_def)
  have sz: "sz < 2 ^ 31" using assms(2) by (rule less_trans) simp
  have w: "wrap_s32 x = x" if "- (2 ^ 31) \<le> x" "x < 2 ^ 31" for x
    unfolding wrap_s32_def using that by (intro signed_take_bit_int_eq_self) simp_all
  have d: "- 256 \<le> movement b neg" "movement b neg < 256"
    using b order_trans [of "- 256" 0 "uint b"] by (simp_all add: movement_def)
  have r: "- (2 ^ 31) \<le> v + movement b neg" "v + movement b neg < 2 ^ 31"
    "- (2 ^ 31) \<le> v - movement b neg" "v - movement b neg < 2 ^ 31"
    using assms(3,4) d z by simp_all
  show "clamp (wrap_s32 (v + movement b neg)) sz = into sz (v + movement b neg)"
    "clamp (wrap_s32 (v - movement b neg)) sz = into sz (v - movement b neg)"
    unfolding w [OF r(1,2)] w [OF r(3,4)] using clamp_into [OF assms(1) sz] r by blast+
qed

lemma unat_of_int_le:
  fixes w :: u32
  assumes "0 \<le> v" "v < uint w"
  shows "unat (of_int v :: u32) \<le> unat w"
proof -
  obtain n where n: "v = int n" using assms(1) by (metis nonneg_int_cases)
  have "int n < int (unat w)" using assms(2) n by simp
  then have "n < unat w" by (simp only: of_nat_less_iff)
  then show ?thesis unfolding n by (simp add: unat_of_nat take_bit_eq_mod order_trans [OF mod_less_eq_dividend])
qed

lemma packet_flags:
  "b AND PS2XSign \<noteq> 0 \<longleftrightarrow> bit b 4" "b AND PS2YSign \<noteq> 0 \<longleftrightarrow> bit b 5"
  "b AND 192 \<noteq> 0 \<longleftrightarrow> bit b 6 \<or> bit b 7" for b :: u8
proof -
  have p: "bit (16 :: u8) n \<longleftrightarrow> n = 4" "bit (32 :: u8) n \<longleftrightarrow> n = 5" "bit (64 :: u8) n \<longleftrightarrow> n = 6" "bit (128 :: u8) n \<longleftrightarrow> n = 7" for n
    using bit_exp_iff [where 'a = u8, of 4 n] bit_exp_iff [where 'a = u8, of 5 n]
      bit_exp_iff [where 'a = u8, of 6 n] bit_exp_iff [where 'a = u8, of 7 n] by auto
  have o: "(192 :: u8) = PS2XOverflow OR PS2YOverflow" by simp
  show "b AND PS2XSign \<noteq> 0 \<longleftrightarrow> bit b 4" "b AND PS2YSign \<noteq> 0 \<longleftrightarrow> bit b 5"
    unfolding bit_eq_iff [of _ 0] bit_and_iff p by auto
  show "b AND 192 \<noteq> 0 \<longleftrightarrow> bit b 6 \<or> bit b 7"
    unfolding o bit_eq_iff [of _ 0] bit_and_iff bit_or_iff p by (auto intro: exI [of _ 6] exI [of _ 7])
qed

text \<open>The state behind a complete packet.\<close>

lemma packet_complete:
  assumes ok: "mouse_ok ms" "screen_ok ms gc" and s: "skip ms = 0" and fr: "take 2 (fragments ms) = [b0, b1]"
    and c: "fragment_counter ms = 2"
  shows "\<exists>ms' gc'. HANDLE_PS2_MOUSE b (ms, gc) = Some (ms', gc') \<and> mouse_ok ms' \<and> screen_ok ms' gc' \<and>
    skip ms' = 0 \<and> fragment_counter ms' = 0 \<and>
    display_width ms' = display_width ms \<and> display_height ms' = display_height ms \<and>
    pointer ms' = travel (display_width ms, display_height ms) [b0, b1, b] (pointer ms)"
proof -
  let ?fr = "(fragments ms)[2 := b]"
  let ?m0 = "ms\<lparr>fragments := ?fr, fragment_counter := 0\<rparr>"
  have l: "length (fragments ms) = 4" using ok(1) by (simp add: mouse_ok_def)
  then obtain b2 b3 where "fragments ms = [b0, b1, b2, b3]"
    using fr by (auto simp: numeral_eq_Suc length_Suc_conv)
  then have n: "?fr ! 0 = b0" "?fr ! Suc 0 = b1" "?fr ! 2 = b" by (simp_all add: numeral_eq_Suc)
  have ok0: "mouse_ok ?m0" "screen_ok ?m0 gc" using ok by (simp_all add: mouse_ok_def screen_ok_def)
  have start: "HANDLE_PS2_MOUSE b (ms, gc) = (if bit b0 6 \<or> bit b0 7 then Some (?m0, gc)
      else do {
        let x = clamp (wrap_s32 (mouse_x ms + movement b1 (bit b0 4))) (display_width ms);
        let y = clamp (wrap_s32 (mouse_y ms - movement b (bit b0 5))) (display_height ms);
        gc \<leftarrow> (if b0 AND PS2Leftbutton \<noteq> 0 then render_char gc (of_int x) (of_int y) 97 else Some gc);
        Some (?m0\<lparr>mouse_x := x, mouse_y := y, pointer := move_mouse x y\<rparr>, gc) })"
    using s l c unfolding HANDLE_PS2_MOUSE_def by (simp add: Let_def n packet_flags movement_def)
  show ?thesis
  proof (cases "bit b0 6 \<or> bit b0 7")
    case True
    then show ?thesis using ok0 s unfolding start by auto
  next
    case False
    let ?x = "into (display_width ms) (mouse_x ms + movement b1 (bit b0 4))"
    let ?y = "into (display_height ms) (mouse_y ms - movement b (bit b0 5))"
    let ?m1 = "?m0\<lparr>mouse_x := ?x, mouse_y := ?y, pointer := (?x, ?y)\<rparr>"
    have d: "0 < display_width ms" "0 < display_height ms" using ok(1) by (simp_all add: mouse_ok_def)
    have xy: "clamp (wrap_s32 (mouse_x ms + movement b1 (bit b0 4))) (display_width ms) = ?x"
      "clamp (wrap_s32 (mouse_y ms - movement b (bit b0 5))) (display_height ms) = ?y"
      using ok(1) by (auto simp: mouse_ok_def intro!: moved_into)
    note R = into_range [OF d(1), of "mouse_x ms + movement b1 (bit b0 4)"] into_range [OF d(2), of "mouse_y ms - movement b (bit b0 5)"]
    have m1: "mouse_ok ?m1" "screen_ok ?m1 gc" using ok0 R by (simp_all add: mouse_ok_def screen_ok_def)
    have "of_int ?x \<le> Width (buf gc)" "of_int ?y \<le> Height (buf gc)"
      using R ok(2) by (simp_all add: screen_ok_def word_le_nat_alt unat_of_int_le)
    then obtain h where h: "render_char gc (of_int ?x) (of_int ?y) 97 = Some h" "screen_ok ?m1 h"
      using render_char_paints [of gc "of_int ?x" "of_int ?y" 97] ok(2) painted_fields
      by (fastforce simp: screen_ok_def)
    have p: "travel (display_width ms, display_height ms) [b0, b1, b] (pointer ms) = (?x, ?y)"
      using False ok(1) by (simp add: mouse_ok_def)
    show ?thesis using False h m1 s unfolding start Let_def xy p move_mouse_def by auto
  qed
qed

lemma travel_packet: "travel sz (b0 # b1 # b2 # bs) p = travel sz bs (travel sz [b0, b1, b2] p)"
  by simp

lemma travel_part: "length bs < 3 \<Longrightarrow> travel sz bs p = p"
  by (cases "(sz, bs, p)" rule: travel.cases) simp_all

text \<open>One byte: skipped, stored as the first or second of its packet, or the end of the packet.\<close>

lemma mouse_step:
  assumes ok: "mouse_ok ms" "screen_ok ms gc"
  shows "\<exists>ms' gc'. HANDLE_PS2_MOUSE b (ms, gc) = Some (ms', gc') \<and> mouse_ok ms' \<and> screen_ok ms' gc' \<and>
    display_width ms' = display_width ms \<and> display_height ms' = display_height ms \<and>
    (\<forall>bs. travel (display_width ms, display_height ms) (packet_bytes ms (b # bs)) (pointer ms)
      = travel (display_width ms, display_height ms) (packet_bytes ms' bs) (pointer ms'))"
proof -
  consider (skip) "skip ms \<noteq> 0" | (store) "skip ms = 0" "fragment_counter ms \<noteq> 2"
    | (last) "skip ms = 0" "fragment_counter ms = 2" by blast
  then show ?thesis
  proof cases
    case skip
    then have u: "unat (skip ms) = Suc (unat (skip ms - 1))"
      using unat_minus_one [OF skip] by (simp add: unat_gt_0)
    show ?thesis using ok skip by (auto simp: HANDLE_PS2_MOUSE_def mouse_ok_def screen_ok_def packet_bytes_def u)
  next
    case store
    let ?c = "unat (fragment_counter ms)"
    let ?ms = "ms\<lparr>fragments := (fragments ms)[?c := b], fragment_counter := fragment_counter ms + 1\<rparr>"
    have c: "?c < length (fragments ms)" "?c < 2"
      using ok(1) store(2) by (auto simp: mouse_ok_def word_less_nat_alt word_unat_eq_iff)
    then have u: "unat (fragment_counter ms + 1) = Suc ?c" by (simp add: unat_word_ariths)
    then have "fragment_counter ms + 1 \<noteq> 3" "fragment_counter ms + 1 < 3"
      using c(2) by (simp_all add: word_less_nat_alt word_unat_eq_iff)
    moreover have "packet_bytes ms (b # bs) = packet_bytes ?ms bs" for bs
      using store(1) c(1) by (simp add: packet_bytes_def u take_Suc_conv_app_nth)
    ultimately show ?thesis using ok store(1) c(1)
      by (auto simp: HANDLE_PS2_MOUSE_def Let_def mouse_ok_def screen_ok_def)
  next
    case last
    have "length (fragments ms) = 4" using ok(1) by (simp add: mouse_ok_def)
    then obtain b0 b1 where fr: "take 2 (fragments ms) = [b0, b1]" by (auto simp: numeral_eq_Suc length_Suc_conv)
    have pb: "packet_bytes ms (b # bs) = b0 # b1 # b # bs" for bs
      using last fr by (simp add: packet_bytes_def)
    obtain ms' gc' where "HANDLE_PS2_MOUSE b (ms, gc) = Some (ms', gc')" "mouse_ok ms'" "screen_ok ms' gc'"
      "display_width ms' = display_width ms" "display_height ms' = display_height ms"
      "pointer ms' = travel (display_width ms, display_height ms) [b0, b1, b] (pointer ms)"
      and z: "skip ms' = 0" "fragment_counter ms' = 0"
      using packet_complete [OF ok last(1) fr last(2)] by blast
    moreover have "packet_bytes ms' bs = bs" for bs by (simp add: packet_bytes_def z)
    moreover have "travel sz (packet_bytes ms (b # bs)) p = travel sz bs (travel sz [b0, b1, b] p)" for sz bs p
      unfolding pb by (rule travel_packet)
    ultimately show ?thesis by (intro exI [of _ ms'] exI [of _ gc'] conjI allI) simp_all
  qed
qed

text \<open>
  C39.  Whatever bytes the mouse sends, in or out of step with its packets, the handler returns
  and never writes outside the packet buffer or the screen.  The pointer that is drawn ends at
  the place the packets of the movement bytes lead to, kept on the display.
\<close>

theorem mouse_stays_on_display:
  assumes "mouse_ok ms" "screen_ok ms gc"
  shows "\<exists>ms' gc'. mouse_bytes bs (ms, gc) = Some (ms', gc') \<and> mouse_ok ms' \<and> screen_ok ms' gc' \<and>
    display_width ms' = display_width ms \<and> display_height ms' = display_height ms \<and>
    pointer ms' = travel (display_width ms, display_height ms) (packet_bytes ms bs) (pointer ms) \<and>
    0 \<le> fst (pointer ms') \<and> fst (pointer ms') < uint (Width (buf gc')) \<and>
    0 \<le> snd (pointer ms') \<and> snd (pointer ms') < uint (Height (buf gc'))"
  using assms
proof (induction bs arbitrary: ms gc)
  case Nil
  have "length (packet_bytes ms []) < 3"
    using Nil.prems(1) by (simp add: packet_bytes_def mouse_ok_def word_less_nat_alt)
  then show ?case using Nil travel_part by (simp add: mouse_ok_def screen_ok_def)
next
  case (Cons b bs)
  obtain m1 g1 where 1: "HANDLE_PS2_MOUSE b (ms, gc) = Some (m1, g1)" "mouse_ok m1" "screen_ok m1 g1"
    "display_width m1 = display_width ms" "display_height m1 = display_height ms"
    "travel (display_width ms, display_height ms) (packet_bytes ms (b # bs)) (pointer ms)
      = travel (display_width ms, display_height ms) (packet_bytes m1 bs) (pointer m1)"
    using mouse_step [OF Cons.prems] by blast
  then show ?case using Cons.IH [OF 1(2,3)] by simp
qed

definition mouse0 :: mouse where
  "mouse0 = \<lparr>skip = 1, fragment_counter = 0, fragments = [0, 0, 0, 0], mouse_x = 0, mouse_y = 0,
     display_width = 8, display_height = 2, pointer = (0, 0)\<rparr>"

theorem mouse_stays_on_display_witness:
  "\<exists>gc ms' gc'. init_text_overlay fb0 font0 = Some gc \<and>
     mouse_bytes [0xFA, 0x29, 100, 0xFF, 0x18, 0xFE, 0] (mouse0, gc) = Some (ms', gc') \<and> pointer ms' = (5, 1)"
proof -
  obtain gc where g: "init_text_overlay fb0 font0 = Some gc" "console_ok gc" using console0_ok by blast
  then have "buf gc = clrscr fb0 0x12121212" by (auto simp: init_text_overlay_def split: if_splits)
  then have s: "screen_ok mouse0 gc"
    using g(2) by (simp add: screen_ok_def console_ok_def mouse0_def clrscr_def fb0_def)
  have m: "mouse_ok mouse0" by (simp add: mouse_ok_def mouse0_def)
  have t: "travel (display_width mouse0, display_height mouse0)
      (packet_bytes mouse0 [0xFA, 0x29, 100, 0xFF, 0x18, 0xFE, 0]) (pointer mouse0) = (5, 1)"
    by (simp add: packet_bytes_def mouse0_def movement_def into_def bit_simps)
  from mouse_stays_on_display [OF m s, of "[0xFA, 0x29, 100, 0xFF, 0x18, 0xFE, 0]"] g(1)
  show ?thesis unfolding t by blast
qed

end
