(* ===== verification/Descriptors.thy ===== *)
theory Descriptors
  imports PortIO
begin

text \<open>
  The segment descriptors (\<open>kernel/src/gdt.c\<close>) and the interrupt table (\<open>kernel/src/idt.c\<close>): the
  split offset of a gate, which vectors get a handler, and the privilege of the selectors
  the kernel and its processes use.
\<close>

section \<open>Segments\<close>

record GDT_Entry =
  Limit0 :: u16
  Base0 :: u16
  Base1 :: u8
  AccessByte :: u8
  Limit1_Flags :: u8
  Base2 :: u8

record LONG_GDT_Entry = GDT_Entry +
  base_3 :: u32
  Reserved :: u32

record GDT =
  Null_entry :: GDT_Entry
  KernelCode :: GDT_Entry
  KernelData :: GDT_Entry
  UserNull :: GDT_Entry
  UserCode :: GDT_Entry
  UserData :: GDT_Entry

record GDT_Descriptor =
  gdt_size :: u16
  gdt_offset :: u64

definition gdt_entry :: "u16 \<Rightarrow> u16 \<Rightarrow> u8 \<Rightarrow> u8 \<Rightarrow> u8 \<Rightarrow> u8 \<Rightarrow> GDT_Entry" where
  "gdt_entry l0 b0 b1 a lf b2 =
     \<lparr>Limit0 = l0, Base0 = b0, Base1 = b1, AccessByte = a, Limit1_Flags = lf, Base2 = b2\<rparr>"

definition Default_GDT :: GDT where
  "Default_GDT = \<lparr>
     Null_entry = gdt_entry 0 0 0 0x00 0x00 0,
     KernelCode = gdt_entry 0 0 0 0x9a 0xa0 0,
     KernelData = gdt_entry 0 0 0 0x92 0xa0 0,
     UserNull = gdt_entry 0 0 0 0x00 0x00 0,
     UserCode = gdt_entry 0 0 0 0xfa 0xa0 0,
     UserData = gdt_entry 0 0 0 0xf2 0xa0 0\<rparr>"

text \<open>\<open>sizeof(GDT)\<close> is 4096: the structure is aligned to a page.  The result is what is loaded.\<close>

definition INIT_GDT :: "u64 \<Rightarrow> GDT_Descriptor" where
  "INIT_GDT gdt_adr = \<lparr>gdt_size = 4096 - 1, gdt_offset = gdt_adr\<rparr>"

text \<open>The entry a selector names.\<close>

definition selected :: "GDT \<Rightarrow> u64 \<Rightarrow> GDT_Entry option" where
  "selected t sel =
     (let es = [Null_entry t, KernelCode t, KernelData t, UserNull t, UserCode t, UserData t]
      in arr_get es (unat (drop_bit 3 sel)))"

definition privilege :: "GDT_Entry \<Rightarrow> u8" where
  "privilege e = drop_bit 5 (AccessByte e) AND 3"

text \<open>
  The selectors 8 and 16 of kernel threads name segments of privilege 0, the selectors
  \<open>0x20|3\<close> and \<open>0x28|3\<close> of processes segments of privilege 3, and the latter ask for 3.
\<close>

lemma selectors_match_privilege:
  "map_option privilege (selected Default_GDT 0x8) = Some 0"
  "map_option privilege (selected Default_GDT 0x10) = Some 0"
  "map_option privilege (selected Default_GDT (0x20 OR 3)) = Some 3"
  "map_option privilege (selected Default_GDT (0x28 OR 3)) = Some 3"
  by (simp_all add: selected_def Default_GDT_def gdt_entry_def privilege_def)

section \<open>Interrupt gates\<close>

abbreviation INTERRUPT_GATE :: u8 where "INTERRUPT_GATE \<equiv> 0x8E"
abbreviation TRAP_GATE :: u8 where "TRAP_GATE \<equiv> 0x8F"
abbreviation USER_SYSCALL_GATE :: u8 where "USER_SYSCALL_GATE \<equiv> 0xEE"

record IDT_ENTRY =
  Offset_0 :: u16
  Segment_Selector :: u16
  Reserved_0 :: u8
  Gate :: u8
  Offset_1 :: u16
  Offset_2 :: u32
  Reserved_1 :: u32

record IDT_Descriptor =
  idt_size :: u16
  idt_offset :: u64

definition IDT_Set_Offset :: "u64 \<Rightarrow> IDT_ENTRY \<Rightarrow> IDT_ENTRY" where
  "IDT_Set_Offset adr entry = entry\<lparr>
     Offset_0 := ucast (adr AND 0xffff),
     Offset_1 := ucast (drop_bit 16 adr AND 0xffff),
     Offset_2 := ucast (drop_bit 32 adr AND 0xffffffff)\<rparr>"

definition IDT_Get_Offset :: "IDT_ENTRY \<Rightarrow> u64" where
  "IDT_Get_Offset entry = push_bit 32 (ucast (Offset_2 entry)) OR
     push_bit 16 (ucast (Offset_1 entry)) OR ucast (Offset_0 entry)"

definition idt_slots :: nat where "idt_slots = 0xFF"

text \<open>Vector 255 is outside the table.\<close>

definition create_idt_entry :: "u64 \<Rightarrow> u8 \<Rightarrow> u8 \<Rightarrow> u8 \<Rightarrow> IDT_ENTRY list \<Rightarrow> IDT_ENTRY list option" where
  "create_idt_entry handler entryOffset type_attr selector idt_entries = do {
     e \<leftarrow> arr_get idt_entries (unat entryOffset);
     arr_put idt_entries (unat entryOffset)
       ((IDT_Set_Offset handler e)\<lparr>Gate := type_attr, Segment_Selector := ucast selector\<rparr>) }"

text \<open>The addresses of the handlers.\<close>

record handlers =
  Unhandled_Handler :: u64
  interupt3 :: u64
  PageFault_Handler :: u64
  GeneralFault_Handler :: u64
  DoubleFault_Handler :: u64
  Keyboard_Handler :: u64
  Mouse_Handler :: u64
  Pit_Handler_Asm :: u64
  int80 :: u64

text \<open>The loop of \<open>create_interrupts\<close>: its counter is not used, every round sets vector 3.\<close>

fun idt_loop :: "u64 \<Rightarrow> nat \<Rightarrow> IDT_ENTRY list \<Rightarrow> IDT_ENTRY list option" where
  "idt_loop h 0 t = Some t"
| "idt_loop h (Suc n) t = do { t \<leftarrow> create_idt_entry h 0x03 INTERRUPT_GATE 0x08 t; idt_loop h n t }"

text \<open>\<open>sizeof(IDT_ENTRY)\<close> is 16.  The descriptor is what \<open>lidt\<close> loads.\<close>

definition create_interrupts ::
  "device \<Rightarrow> u64 \<Rightarrow> handlers \<Rightarrow> IDT_ENTRY list \<Rightarrow> io_trace \<Rightarrow> (IDT_ENTRY list \<times> IDT_Descriptor \<times> io_trace) option" where
  "create_interrupts d table_adr h t tr = do {
     t \<leftarrow> idt_loop (Unhandled_Handler h) 256 t;
     t \<leftarrow> create_idt_entry (interupt3 h) 0x03 INTERRUPT_GATE 0x08 t;
     t \<leftarrow> create_idt_entry (PageFault_Handler h) 0x0E INTERRUPT_GATE 0x08 t;
     t \<leftarrow> create_idt_entry (GeneralFault_Handler h) 0x0D INTERRUPT_GATE 0x08 t;
     t \<leftarrow> create_idt_entry (DoubleFault_Handler h) 0x08 INTERRUPT_GATE 0x08 t;
     t \<leftarrow> create_idt_entry (Keyboard_Handler h) 0x21 INTERRUPT_GATE 0x08 t;
     t \<leftarrow> create_idt_entry (Mouse_Handler h) 0x2C INTERRUPT_GATE 0x08 t;
     t \<leftarrow> create_idt_entry (Pit_Handler_Asm h) 0x20 INTERRUPT_GATE 0x08 t;
     t \<leftarrow> create_idt_entry (int80 h) 0x80 USER_SYSCALL_GATE 0x08 t;
     let desc = \<lparr>idt_size = of_nat (16 * idt_slots - 1), idt_offset = table_adr\<rparr>;
     let tr = PIC_remap d (ucast PIC1) (ucast (PIC1 + 8)) tr;
     let tr = outb PIC1_DATA 0b11111000 tr;
     Some (t, desc, outb PIC2_DATA 0b11101111 tr) }"

section \<open>What the table holds\<close>

lemma offset_masks:
  "adr AND 0xffff = take_bit 16 adr" "adr AND 0xffffffff = take_bit 32 adr" for adr :: u64
  by (simp_all add: take_bit_eq_mask mask_eq_exp_minus_1)

lemma split_offset:
  "push_bit 32 (ucast (ucast (take_bit 32 (drop_bit 32 adr)) :: u32)) OR
   push_bit 16 (ucast (ucast (take_bit 16 (drop_bit 16 adr)) :: u16)) OR
   ucast (ucast (take_bit 16 adr) :: u16) = adr" (is "?l = _") for adr :: u64
proof (rule bit_word_eqI)
  fix n assume "n < LENGTH(64)"
  then show "bit ?l n = bit adr n"
    by (cases "n < 32"; cases "n < 16") (auto simp: bit_simps)
qed

text \<open>A gate keeps all 64 bits of its handler's address.\<close>

lemma IDT_Get_Set_Offset [simp]: "IDT_Get_Offset (IDT_Set_Offset adr e) = adr"
  using split_offset [of adr] by (simp add: IDT_Get_Offset_def IDT_Set_Offset_def offset_masks)

lemma IDT_Get_Offset_gate [simp]:
  "IDT_Get_Offset (e\<lparr>Gate := ty, Segment_Selector := sel\<rparr>) = IDT_Get_Offset e"
  by (simp add: IDT_Get_Offset_def)

definition gate_of :: "u64 \<Rightarrow> u8 \<Rightarrow> u8 \<Rightarrow> IDT_ENTRY \<Rightarrow> IDT_ENTRY" where
  "gate_of handler type_attr selector e =
     (IDT_Set_Offset handler e)\<lparr>Gate := type_attr, Segment_Selector := ucast selector\<rparr>"

lemma gate_of_fields [simp]:
  "IDT_Get_Offset (gate_of h ty sel e) = h"
  "Gate (gate_of h ty sel e) = ty"
  "Segment_Selector (gate_of h ty sel e) = ucast sel"
  by (simp_all add: gate_of_def)

lemma gate_of_twice [simp]: "gate_of h ty sel (gate_of h' ty' sel' e) = gate_of h ty sel e"
  by (simp add: gate_of_def IDT_Set_Offset_def)

lemma create_idt_entry_eq:
  "unat v < length t \<Longrightarrow>
   create_idt_entry h v ty sel t = Some (t[unat v := gate_of h ty sel (t ! unat v)])"
  by (simp add: create_idt_entry_def gate_of_def)

lemma create_idt_entry_outside:
  "length t \<le> unat v \<Longrightarrow> create_idt_entry h v ty sel t = None"
  by (simp add: create_idt_entry_def)

lemma idt_loop_sets_3:
  "3 < length t \<Longrightarrow>
   idt_loop h n t = Some (if n = 0 then t else t[3 := gate_of h INTERRUPT_GATE 0x08 (t ! 3)])"
  by (induction n arbitrary: t) (simp_all add: create_idt_entry_eq)

text \<open>The handler and the gate type of each vector the kernel serves.\<close>

definition vectors_of :: "handlers \<Rightarrow> nat \<Rightarrow> (u64 \<times> u8) option" where
  "vectors_of h = [3 \<mapsto> (interupt3 h, INTERRUPT_GATE), 14 \<mapsto> (PageFault_Handler h, INTERRUPT_GATE),
     13 \<mapsto> (GeneralFault_Handler h, INTERRUPT_GATE), 8 \<mapsto> (DoubleFault_Handler h, INTERRUPT_GATE),
     33 \<mapsto> (Keyboard_Handler h, INTERRUPT_GATE), 44 \<mapsto> (Mouse_Handler h, INTERRUPT_GATE),
     32 \<mapsto> (Pit_Handler_Asm h, INTERRUPT_GATE), 128 \<mapsto> (int80 h, USER_SYSCALL_GATE)]"

text \<open>The table \<open>t'\<close> serves those vectors and has the gates of \<open>t\<close> elsewhere.\<close>

definition idt_serves :: "handlers \<Rightarrow> IDT_ENTRY list \<Rightarrow> IDT_ENTRY list \<Rightarrow> bool" where
  "idt_serves h t t' \<longleftrightarrow> length t' = idt_slots \<and>
     (\<forall>i < idt_slots. case vectors_of h i of
        Some (adr, ty) \<Rightarrow> IDT_Get_Offset (t' ! i) = adr \<and> Gate (t' ! i) = ty \<and> Segment_Selector (t' ! i) = 8
      | None \<Rightarrow> t' ! i = t ! i)"

lemma create_interrupts_serves:
  assumes "length t = idt_slots"
  shows "\<exists>t' tr'. create_interrupts d a h t tr = Some (t', \<lparr>idt_size = 0xFEF, idt_offset = a\<rparr>, tr') \<and>
    idt_serves h t t' \<and> last_out 0x21 tr' = 0xF8 \<and> last_out 0xA1 tr' = 0xEF"
  using assms
  by (simp add: create_interrupts_def idt_serves_def idt_loop_sets_3 create_idt_entry_eq idt_slots_def vectors_of_def
      Let_def nth_list_update outb_def)

text \<open>
  C40.  Setting the interrupts up never leaves the table; it gives the eight vectors the kernel
  serves their handlers, whose whole address is read back, leaves every other gate as it was
  (the loop meant to fill all of them sets vector 3 only), and unmasks the timer, the keyboard,
  the cascade and the mouse.
\<close>

theorem create_interrupts_table:
  assumes "length t = idt_slots" "i < idt_slots"
  shows "\<exists>t' d' tr'. create_interrupts d a h t tr = Some (t', d', tr') \<and> length t' = idt_slots \<and>
     (case vectors_of h i of
        Some (adr, ty) \<Rightarrow> IDT_Get_Offset (t' ! i) = adr \<and> Gate (t' ! i) = ty \<and> Segment_Selector (t' ! i) = 8
      | None \<Rightarrow> t' ! i = t ! i) \<and>
     last_out 0x21 tr' = 0xF8 \<and> last_out 0xA1 tr' = 0xEF"
  using assms
  by (simp add: create_interrupts_def idt_loop_sets_3 create_idt_entry_eq idt_slots_def vectors_of_def
      Let_def nth_list_update outb_def)

definition blank_gate :: IDT_ENTRY where
  "blank_gate = \<lparr>Offset_0 = 0, Segment_Selector = 0, Reserved_0 = 0, Gate = 0, Offset_1 = 0, Offset_2 = 0, Reserved_1 = 0\<rparr>"

theorem create_interrupts_table_witness:
  "\<exists>t' d' tr'. create_interrupts \<lparr>dev8 = (\<lambda>tr p. 0), dev16 = (\<lambda>tr p. 0)\<rparr> 0
      \<lparr>Unhandled_Handler = 1, interupt3 = 2, PageFault_Handler = 3, GeneralFault_Handler = 4, DoubleFault_Handler = 5,
       Keyboard_Handler = 0x123456789A, Mouse_Handler = 7, Pit_Handler_Asm = 8, int80 = 9\<rparr>
      (replicate idt_slots blank_gate) [] = Some (t', d', tr') \<and> IDT_Get_Offset (t' ! 33) = 0x123456789A"
  using create_interrupts_table [of "replicate idt_slots blank_gate" 33 "\<lparr>dev8 = (\<lambda>tr p. 0), dev16 = (\<lambda>tr p. 0)\<rparr>" 0
    "\<lparr>Unhandled_Handler = 1, interupt3 = 2, PageFault_Handler = 3, GeneralFault_Handler = 4, DoubleFault_Handler = 5,
       Keyboard_Handler = 0x123456789A, Mouse_Handler = 7, Pit_Handler_Asm = 8, int80 = 9\<rparr>" "[]"]
  by (auto simp: vectors_of_def idt_slots_def)

end
