(* ===== verification/Boot.thy ===== *)
theory Boot
  imports PageAlloc Elf NumText Console
begin

text \<open>
  The boot loader (\<open>gnu-efi/bootloader/main.c\<close>, \<open>strutil.h\<close>): the configuration file, loading the
  kernel's segments, fetching the memory map, the search for the ACPI tables, the choice of
  a graphics mode and the loader's console.  The firmware is a parameter: what its services
  answer is a function of their arguments and of how often they were called.  Text printed
  on the firmware's own console is left out.
\<close>

section \<open>Strings\<close>

text \<open>\<open>CHAR8\<close> is unsigned, so is the comparison.\<close>

fun boot_strcmp :: "u8 list \<Rightarrow> u8 list \<Rightarrow> int option" where
  "boot_strcmp (a # as) (b # bs) =
     (if a = b \<and> a \<noteq> 0 then boot_strcmp as bs else Some (uint a - uint b))"
| "boot_strcmp _ _ = None"

text \<open>The number is built in an \<open>unsigned long long\<close> and cut to an \<open>int\<close> at the end.\<close>

fun boot_digits :: "u8 list \<Rightarrow> u64 \<Rightarrow> nat \<Rightarrow> u64 option" where
  "boot_digits [] output index = None"
| "boot_digits (c # cs) output index =
     (if 48 \<le> sint c \<and> sint c \<le> 57 \<and> index < 20
      then boot_digits cs (output * 10 + of_int (sint c - 48)) (index + 1) else Some output)"

definition boot_atoi :: "u8 list \<Rightarrow> int option" where
  "boot_atoi b = (case b of [] \<Rightarrow> None
     | c # cs \<Rightarrow>
        if c = 45 then map_option (\<lambda>n. sint (ucast (n * - 1) :: s32)) (boot_digits cs 0 1)
        else map_option (\<lambda>n. sint (ucast n :: s32)) (boot_digits b 0 0))"

fun boot_strlen :: "u8 list \<Rightarrow> nat option" where
  "boot_strlen [] = None"
| "boot_strlen (c # cs) = (if c = 0 then Some 0 else map_option Suc (boot_strlen cs))"

text \<open>
  The block comes from \<open>AllocatePool\<close>, \<open>pool n\<close> is what a fresh block of \<open>n\<close> bytes holds; the
  section pointers take 8 bytes each and the copy follows them.  The terminator is stored in
  \<open>str\<close>, where it already is, and not behind the last section.  The first loop counts the bytes
  in an \<open>int\<close>.
\<close>

definition boot_split_string_by_char :: "(u64 \<Rightarrow> u8 list) \<Rightarrow> u8 list \<Rightarrow> u8 \<Rightarrow> (nat \<times> nat list \<times> u8 list) option" where
  "boot_split_string_by_char pool str sep = do {
     k \<leftarrow> count_sep str sep;
     c0 \<leftarrow> arr_get str 0;
     len \<leftarrow> boot_strlen str;
     let index = (if c0 \<noteq> sep then 0 else 1);
     let n_count = (if c0 \<noteq> sep then Suc k else k);
     if len < 2 ^ 31
     then do {
       (secs, start) \<leftarrow> split_loop (drop index str) sep index
         (drop (8 * n_count) (pool (of_nat (8 * n_count + Suc len)))) [index];
       Some (n_count, secs, start) }
     else None }"

text \<open>Neither pointer moves, so every round compares the first bytes.\<close>

fun boot_strncmp :: "u8 list \<Rightarrow> u8 list \<Rightarrow> nat \<Rightarrow> u64 option" where
  "boot_strncmp a b 0 = Some 0"
| "boot_strncmp a b (Suc n) = do {
     x \<leftarrow> arr_get a 0;
     y \<leftarrow> arr_get b 0;
     if x \<noteq> y then Some (ucast x - ucast y) else boot_strncmp a b n }"

section \<open>The configuration file\<close>

record boot_conf =
  font_name :: "u16 list"
  conf_width :: u32
  conf_height :: u32

text \<open>\<open>for (int y = 0; names[i][y]; ++y) font_name[y] = names[i][y]\<close>\<close>

fun copy_name :: "u8 list \<Rightarrow> nat \<Rightarrow> u16 list \<Rightarrow> u16 list option" where
  "copy_name [] y fn = None"
| "copy_name (c # cs) y fn =
     (if c = 0 then Some fn else do { fn \<leftarrow> arr_put fn y (ucast c); copy_name cs (y + 1) fn })"

text \<open>A line is what one of the section pointers points at; pointers behind the last are not read.\<close>

definition name_at :: "nat list \<Rightarrow> u8 list \<Rightarrow> nat \<Rightarrow> u8 list option" where
  "name_at names start i = do { k \<leftarrow> arr_get names i; Some (drop k start) }"

function read_config :: "nat list \<Rightarrow> u8 list \<Rightarrow> nat \<Rightarrow> nat \<Rightarrow> boot_conf \<Rightarrow> boot_conf option" where
  "read_config names start line_count i c =
     (if i < line_count then do {
        s \<leftarrow> name_at names start i;
        isfont \<leftarrow> boot_strcmp s (of_str ''#font'' @ [0]);
        if isfont = 0 then do {
          s \<leftarrow> name_at names start (i + 1);
          fn \<leftarrow> copy_name s 0 (font_name c);
          read_config names start line_count (i + 2) (c\<lparr>font_name := fn\<rparr>) }
        else do {
          isres \<leftarrow> boot_strcmp s (of_str ''#resolution'' @ [0]);
          if isres = 0 then do {
            s \<leftarrow> name_at names start (i + 1);
            w \<leftarrow> boot_atoi s;
            s \<leftarrow> name_at names start (i + 2);
            h \<leftarrow> boot_atoi s;
            read_config names start line_count (i + 3) (c\<lparr>conf_width := of_int w, conf_height := of_int h\<rparr>) }
          else do {
            isend \<leftarrow> boot_strcmp s (of_str ''#end'' @ [0]);
            if isend = 0 then Some c else read_config names start line_count (i + 1) c } } }
      else Some c)"
  by pat_completeness auto
termination
  by (relation "measure (\<lambda>(names, start, n, i, c). n - i)") auto

declare read_config.simps [simp del]

definition no_conf :: boot_conf where
  "no_conf = \<lparr>font_name = replicate 256 0, conf_width = 0, conf_height = 0\<rparr>"

definition load_config :: "(u64 \<Rightarrow> u8 list) \<Rightarrow> u8 list \<Rightarrow> boot_conf option" where
  "load_config pool conf_buf = do {
     (line_count, names, start) \<leftarrow> boot_split_string_by_char pool conf_buf 10;
     read_config names start line_count 0 no_conf }"

section \<open>Files\<close>

text \<open>
  The volume's services: opening a file by name, its size, what a read of at most \<open>n\<close> bytes
  delivers, and a fresh pool block of at least \<open>n\<close> bytes.
\<close>

record volume =
  vol_open :: "u16 list \<Rightarrow> nat option"
  vol_size :: "nat \<Rightarrow> u64 option"
  vol_read :: "nat \<Rightarrow> u64 \<Rightarrow> u8 list"
  pool_block :: "u64 \<Rightarrow> u8 list"

definition FileSize :: "volume \<Rightarrow> nat \<Rightarrow> u64 option" where
  "FileSize V FileHandle = vol_size V FileHandle"

text \<open>The status of the open is not looked at: a file that is not there has no handle.\<close>

definition Load_File :: "volume \<Rightarrow> u16 list \<Rightarrow> (u8 list \<times> u64) option" where
  "Load_File V FileName = do {
     h \<leftarrow> vol_open V FileName;
     ReadSize \<leftarrow> FileSize V h;
     let Buffer = pool_block V ReadSize;
     let bs = vol_read V h ReadSize;
     Buffer \<leftarrow> blk_put Buffer 0 bs;
     Some (Buffer, of_nat (length bs)) }"

definition Load_Text_File :: "volume \<Rightarrow> u16 list \<Rightarrow> u8 list option" where
  "Load_Text_File V FileName = do {
     (Buffer, ReadSize) \<leftarrow> Load_File V FileName;
     arr_put Buffer (unat ReadSize) 0 }"

section \<open>The kernel's segments\<close>

text \<open>The machine's memory, and the page allocations asked for (address, pages), newest first.\<close>

record boot_mem =
  bm :: mem
  allocated :: "(u64 \<times> int) list"

fun copy_to_mem :: "mem \<Rightarrow> nat \<Rightarrow> u8 list \<Rightarrow> nat \<Rightarrow> nat \<Rightarrow> mem option" where
  "copy_to_mem m v kern src 0 = Some m"
| "copy_to_mem m v kern src (Suc n) = do {
     b \<leftarrow> arr_get kern src;
     copy_to_mem (m(v := b)) (v + 1) kern (src + 1) n }"

text \<open>
  \<open>AllocateAddress\<close> leaves the address it is given as it is, whether it succeeds or not, and its
  status is not looked at.
\<close>

definition boot_segment :: "u8 list \<Rightarrow> Elf64_Phdr \<Rightarrow> boot_mem \<Rightarrow> boot_mem option" where
  "boot_segment kern phdr m =
     (if p_type phdr = PT_LOAD then do {
        let pages = sint (ucast ((p_memsz phdr + 0x1000 - 1) div 0x1000) :: s32);
        let vaddr = p_vaddr phdr;
        let m = m\<lparr>allocated := (vaddr, pages) # allocated m\<rparr>;
        mm \<leftarrow> copy_to_mem (bm m) (unat vaddr) kern (unat (p_offset phdr)) (unat (p_filesz phdr));
        Some (m\<lparr>bm := mm\<rparr>) }
      else Some m)"

function boot_phdrs :: "u8 list \<Rightarrow> nat \<Rightarrow> nat \<Rightarrow> nat \<Rightarrow> boot_mem \<Rightarrow> boot_mem option" where
  "boot_phdrs kern entsize cur last_cur m =
     (if cur < last_cur \<and> 0 < entsize then do {
        phdr \<leftarrow> phdr_of kern cur;
        m \<leftarrow> boot_segment kern phdr m;
        boot_phdrs kern entsize (cur + entsize) last_cur m }
      else Some m)"
  by pat_completeness auto
termination
  by (relation "measure (\<lambda>(p, e, c, l, s). l - c)") auto

declare boot_phdrs.simps [simp del]

definition load_kernel :: "u8 list \<Rightarrow> boot_mem \<Rightarrow> (u64 \<times> boot_mem) option" where
  "load_kernel kern m = do {
     header \<leftarrow> ehdr_of kern;
     let phdrs = unat (e_phoff header);
     m \<leftarrow> boot_phdrs kern (unat (e_phentsize header)) phdrs
            (phdrs + nat (wrap_s32 (uint (e_phnum header) * uint (e_phentsize header)))) m;
     Some (e_entry header, m) }"

section \<open>The firmware's tables\<close>

type_synonym efi_status = u64

abbreviation EFI_BUFFER_TOO_SMALL :: efi_status where "EFI_BUFFER_TOO_SMALL \<equiv> 0x8000000000000005"
abbreviation EFI_NOT_STARTED :: efi_status where "EFI_NOT_STARTED \<equiv> 0x8000000000000013"

definition EFI_ERROR :: "efi_status \<Rightarrow> bool" where
  "EFI_ERROR a \<longleftrightarrow> sint a < 0"

record map_answer =
  ma_status :: efi_status
  ma_size :: u64
  ma_key :: u64
  ma_desc_size :: u64
  ma_map :: "EFI_MEMORY_DESCRIPTOR list"

text \<open>
  The \<open>while\<close> that enlarges the buffer until the map fits: \<open>gmm k sz\<close> is what the \<open>k\<close>-th call
  of \<open>GetMemoryMap\<close> answers for a buffer of \<open>sz\<close> bytes, an error when \<open>AllocatePool\<close> gave none for it
  among them.  The loop has no bound.
\<close>

partial_function (option) fetch_map :: "(nat \<Rightarrow> u64 \<Rightarrow> map_answer) \<Rightarrow> nat \<Rightarrow> u64 \<Rightarrow> map_answer option" where
  "fetch_map gmm k sz =
     (if ma_status (gmm k sz) = EFI_BUFFER_TOO_SMALL
      then fetch_map gmm (k + 1) (ma_size (gmm k sz) + ma_desc_size (gmm k sz) * 10)
      else Some (gmm k sz))"

text \<open>The two totals: of all the memory and of all but the reserved.\<close>

definition boot_mem_sizes :: "map_answer \<Rightarrow> (nat \<times> nat) option" where
  "boot_mem_sizes a =
     (if ma_desc_size a = 0 then None
      else for_range (\<lambda>i (mem_size, mem_size_0). do {
        desc \<leftarrow> arr_get (ma_map a) i;
        let n = wrap64 (4096 * NumberOfPages desc);
        Some (wrap64 (mem_size + n),
              if Type desc \<noteq> EfiReservedMemoryType then wrap64 (mem_size_0 + n) else mem_size_0) })
        0 (unat (ma_size a div ma_desc_size a)) (0, 0))"

text \<open>A GUID as the four 32-bit words it is compared by.\<close>

type_synonym guid = "u32 \<times> u32 \<times> u32 \<times> u32"

fun RtCompareGuid :: "guid \<Rightarrow> guid \<Rightarrow> s32" where
  "RtCompareGuid (a0, a1, a2, a3) (b0, b1, b2, b3) =
     (a0 - b0) OR (a1 - b1) OR (a2 - b2) OR (a3 - b3)"

definition CompareGuid :: "guid \<Rightarrow> guid \<Rightarrow> s32" where
  "CompareGuid g h = RtCompareGuid g h"

definition ACPI_20_TABLE_GUID :: guid where
  "ACPI_20_TABLE_GUID = (0x8868e871, 0x11d3e4f1, 0x800022bc, 0x81883cc7)"

record config_table =
  VendorGuid :: guid
  VendorTable :: u64

text \<open>
  The search for the ACPI tables.  \<open>configTable\<close> is advanced in every round and indexed by
  \<open>index\<close> as well, so the GUID is that of entry \<open>2 * index\<close> and the table that of entry
  \<open>index\<close>.
\<close>

definition rsdp_round :: "config_table list \<Rightarrow> mem \<Rightarrow> nat \<Rightarrow> u64 \<Rightarrow> u64 option" where
  "rsdp_round tables m index rsdp = do {
     e2 \<leftarrow> arr_get tables (index + index);
     if CompareGuid (VendorGuid e2) ACPI_20_TABLE_GUID \<noteq> 0 then do {
       e1 \<leftarrow> arr_get tables index;
       r \<leftarrow> boot_strncmp (of_str ''RSD PTR '') (rd_bytes m (unat (VendorTable e1)) 8) 8;
       Some (if r = 0 then VendorTable e1 else rsdp) }
     else Some rsdp }"

definition find_rsdp :: "config_table list \<Rightarrow> nat \<Rightarrow> mem \<Rightarrow> u64 option" where
  "find_rsdp tables n m = for_range (rsdp_round tables m) 0 n 0"

section \<open>The graphics mode\<close>

record mode_info =
  HorizontalResolution :: u32
  VerticalResolution :: u32
  ScanLine :: u32

record gop_mode =
  MaxMode :: u32
  cur_mode :: u32
  FrameBufferBase :: u64
  FrameBufferSize :: u64
  Info :: mode_info

text \<open>
  The graphics output protocol: its \<open>Mode\<close> (NULL before a mode is set), what \<open>QueryMode\<close> answers,
  and what \<open>SetMode\<close> leaves in \<open>Mode\<close>.
\<close>

record gop_fw =
  gop_locate :: "efi_status \<times> gop_mode option"
  QueryMode :: "gop_mode option \<Rightarrow> u32 \<Rightarrow> efi_status \<times> mode_info option"
  SetMode :: "gop_mode option \<Rightarrow> u32 \<Rightarrow> efi_status \<times> gop_mode option"

record boot_framebuffer =
  fb_BaseAddress :: u64
  fb_BufferSize :: u64
  fb_Width :: u32
  fb_Height :: u32
  fb_PixelsPerScanLine :: u32

text \<open>
  One round of the search: \<open>info\<close> keeps its value when a query fails, and the distance is a
  product of differences in \<open>uint32_t\<close>.
\<close>

definition mode_dif :: "u32 \<Rightarrow> u32 \<Rightarrow> mode_info \<Rightarrow> u32" where
  "mode_dif pref_width pref_height info =
     (HorizontalResolution info - pref_width) * (VerticalResolution info - pref_height)"

type_synonym mode_search = "mode_info option \<times> u32 option \<times> u32"

definition mode_round ::
  "gop_fw \<Rightarrow> gop_mode option \<Rightarrow> u32 \<Rightarrow> u32 \<Rightarrow> nat \<Rightarrow> mode_search \<Rightarrow> mode_search option" where
  "mode_round fw gm pref_width pref_height i st =
     (case st of (info, md, greatest_dif) \<Rightarrow> do {
        let (status, new) = QueryMode fw gm (of_nat i);
        inf \<leftarrow> (if EFI_ERROR status then info else new);
        let dif = mode_dif pref_width pref_height inf;
        Some (if dif < greatest_dif then (Some inf, Some (of_nat i), dif) else (Some inf, md, greatest_dif)) })"

text \<open>
  The result is NULL (\<open>Some None\<close>) when there is no graphics protocol.  \<open>mode\<close> is an \<open>int\<close> that
  starts as -1.
\<close>

definition setup_graphics :: "gop_fw \<Rightarrow> u32 \<Rightarrow> u32 \<Rightarrow> boot_framebuffer option option" where
  "setup_graphics fw pref_width pref_height =
     (if EFI_ERROR (fst (gop_locate fw)) then Some None
      else do {
        let gm = snd (gop_locate fw);
        let (status, info) = QueryMode fw gm (case gm of None \<Rightarrow> 0 | Some g \<Rightarrow> cur_mode g);
        let (status, gm) = (if status = EFI_NOT_STARTED then SetMode fw gm 0 else (status, gm));
        numModes \<leftarrow> (if EFI_ERROR status then Some 0 else map_option MaxMode gm);
        (info, md, dif) \<leftarrow> for_range (mode_round fw gm pref_width pref_height) 0 (unat numModes) (info, None, 1000000);
        let gm = (case md of None \<Rightarrow> gm | Some k \<Rightarrow> if 0 \<le> sint k then snd (SetMode fw gm k) else gm);
        g \<leftarrow> gm;
        Some (Some \<lparr>fb_BaseAddress = FrameBufferBase g, fb_BufferSize = FrameBufferSize g,
                fb_Width = HorizontalResolution (Info g), fb_Height = VerticalResolution (Info g),
                fb_PixelsPerScanLine = ScanLine (Info g)\<rparr>) })"

section \<open>The loader's console\<close>

record boot_console =
  bc_fb :: Framebuffer
  bc_font :: bitmap_font
  bc_width :: u32
  bc_height :: u32
  bc_x :: u32
  bc_y :: u32

text \<open>Only the set bits of a glyph are drawn.\<close>

definition boot_putchar :: "u32 \<Rightarrow> u32 \<Rightarrow> u8 \<Rightarrow> boot_console \<Rightarrow> boot_console option" where
  "boot_putchar x y chr c =
     for_range (\<lambda>y2. for_range (\<lambda>x2 c. do {
       b \<leftarrow> glyph_bit (bc_font c) chr (of_nat x2) (of_nat y2);
       if b then do {
         f \<leftarrow> PlotPixel_32bpp (bc_fb c) (sint (x + of_nat x2)) (sint (y + of_nat y2)) 0xffffffff;
         Some (c\<lparr>bc_fb := f\<rparr>) }
       else Some c }) 0 (unat (fwidth (bc_font c)))) 0 (unat (fheight (bc_font c))) c"

definition boot_printchar :: "u8 \<Rightarrow> boot_console \<Rightarrow> boot_console option" where
  "boot_printchar chr c =
     (if chr = 10 then Some (c\<lparr>bc_x := 0, bc_y := bc_y c + 1\<rparr>)
      else do {
        c \<leftarrow> boot_putchar (bc_x c * fwidth (bc_font c)) (bc_y c * fheight (bc_font c)) chr c;
        let c = c\<lparr>bc_x := bc_x c + 1\<rparr>;
        Some (if bc_width c \<le> bc_x c then c\<lparr>bc_x := 0, bc_y := bc_y c + 1\<rparr> else c) })"

fun boot_print :: "u8 list \<Rightarrow> boot_console \<Rightarrow> boot_console option" where
  "boot_print [] c = None"
| "boot_print (b # str) c = (if b = 0 then Some c else do { c \<leftarrow> boot_printchar b c; boot_print str c })"

definition boot_text_overlay :: "Framebuffer \<Rightarrow> bitmap_font \<Rightarrow> boot_console option" where
  "boot_text_overlay b fnt =
     (if fwidth fnt = 0 \<or> fheight fnt = 0 then None
      else Some \<lparr>bc_fb = b, bc_font = fnt, bc_width = Width b div fwidth fnt,
                 bc_height = Height b div fheight fnt, bc_x = 0, bc_y = 0\<rparr>)"

section \<open>The whole loader\<close>

text \<open>\<open>load_font\<close> of the loader: as the kernel's, without the serial line.\<close>

definition boot_load_font :: "bitmap_font \<Rightarrow> u8 list \<Rightarrow> bitmap_font option" where
  "boot_load_font junk buffer = do {
     m1 \<leftarrow> word16_at buffer 0;
     if m1 = PSF1_MAGIC then do {
       h \<leftarrow> psf1_header_of buffer;
       Some \<lparr>numglyph = 256 * (1 + ucast (mode h AND PSF1_MODE512)), bytesperglyph = ucast (charsize h),
             fheight = ucast (charsize h), fwidth = 8, glyphs = drop 4 buffer\<rparr> }
     else do {
       m2 \<leftarrow> word32_at buffer 0;
       if m2 = PSF2_MAGIC then do {
         h \<leftarrow> psf2_header_of buffer;
         Some \<lparr>numglyph = ph_numglyph h, bytesperglyph = ph_bytesperglyph h, fheight = ph_height h,
               fwidth = ph_width h, glyphs = drop 32 buffer\<rparr> }
       else Some junk } }"

record bootinfo =
  bi_buf :: boot_framebuffer
  bi_font :: bitmap_font
  bi_mem_map :: "EFI_MEMORY_DESCRIPTOR list"
  bi_map_size :: u64
  bi_map_desc_size :: u64
  bi_rsdp :: u64

record firmware =
  fw_volume :: volume
  fw_map :: "nat \<Rightarrow> u64 \<Rightarrow> map_answer"
  fw_tables :: "config_table list"
  fw_gop :: gop_fw
  fw_pixels :: "boot_framebuffer \<Rightarrow> u32 list"

definition fb_pixels :: "firmware \<Rightarrow> boot_framebuffer \<Rightarrow> Framebuffer" where
  "fb_pixels fw b = \<lparr>pixels = fw_pixels fw b, Width = fb_Width b, Height = fb_Height b,
     PixelsPerScanLine = fb_PixelsPerScanLine b\<rparr>"

text \<open>
  \<open>junk\<close> is the uninitialised font a file with neither magic number gives.  The result is the
  argument of the kernel, its entry point, the memory it is started in and the loader's
  console at that moment.
\<close>

definition efi_main ::
  "firmware \<Rightarrow> bitmap_font \<Rightarrow> boot_mem \<Rightarrow> (bootinfo \<times> u64 \<times> boot_mem \<times> boot_console) option" where
  "efi_main fw junk m = do {
     let V = fw_volume fw;
     conf_buf \<leftarrow> Load_Text_File V (map ucast (of_str (''resources'' @ [CHR 0x5c] @ ''config.txt'')) @ [0]);
     c \<leftarrow> load_config (pool_block V) conf_buf;
     (fnt, font_size) \<leftarrow> Load_File V (font_name c);
     (kern, kern_size) \<leftarrow> Load_File V (map ucast (of_str ''kernel.elf'') @ [0]);
     (entry, m) \<leftarrow> load_kernel kern m;
     a \<leftarrow> fetch_map (fw_map fw) 0 0;
     sizes \<leftarrow> boot_mem_sizes a;
     rsdp \<leftarrow> find_rsdp (fw_tables fw) (length (fw_tables fw)) (bm m);
     newBuffer \<leftarrow> setup_graphics (fw_gop fw) (conf_width c) (conf_height c);
     bmf \<leftarrow> boot_load_font junk fnt;
     b \<leftarrow> newBuffer;
     con \<leftarrow> boot_text_overlay (fb_pixels fw b) bmf;
     con \<leftarrow> for_range (\<lambda>i. boot_printchar (of_nat i)) 0 256 con;
     con \<leftarrow> boot_print (of_str ''Exiting boot services'' @ [0]) con;
     Some (\<lparr>bi_buf = b, bi_font = bmf, bi_mem_map = ma_map a, bi_map_size = ma_size a,
            bi_map_desc_size = ma_desc_size a, bi_rsdp = rsdp\<rparr>, entry, m, con) }"

section \<open>Reading the configuration\<close>

text \<open>Lines put together with separators, and the offsets where they start.\<close>

fun join_lines :: "u8 \<Rightarrow> u8 list list \<Rightarrow> u8 list" where
  "join_lines sep [] = []"
| "join_lines sep [l] = l"
| "join_lines sep (l # ls) = l @ sep # join_lines sep ls"

fun line_offs :: "nat \<Rightarrow> u8 list list \<Rightarrow> nat list" where
  "line_offs i [] = []"
| "line_offs i (l # ls) = i # line_offs (i + length l + 1) ls"

lemma sep_offs_append: "sep_offs sep i (a @ b) = sep_offs sep i a @ sep_offs sep (i + length a) b"
  by (induction a arbitrary: i) auto

lemma sep_offs_free: "sep \<notin> set a \<Longrightarrow> sep_offs sep i a = []"
  by (induction a arbitrary: i) auto

lemma sep_offs_lines:
  "ls \<noteq> [] \<Longrightarrow> \<forall>l \<in> set ls. sep \<notin> set l \<Longrightarrow> i # sep_offs sep i (join_lines sep ls) = line_offs i ls"
  by (induction sep ls arbitrary: i rule: join_lines.induct) (auto simp: sep_offs_append sep_offs_free)

lemma length_line_offs [simp]: "length (line_offs i ls) = length ls"
  by (induction ls arbitrary: i) auto

lemma zap_free: "sep \<notin> set l \<Longrightarrow> zap sep l = l"
  by (induction l) auto

lemma line_in_copy:
  "\<forall>l \<in> set ls. sep \<notin> set l \<Longrightarrow> k < length ls \<Longrightarrow>
   \<exists>q. drop (line_offs (length pre) ls ! k) (pre @ zap sep (join_lines sep ls) @ z # zs)
     = ls ! k @ (if Suc k = length ls then z else 0) # q"
proof (induction sep ls arbitrary: pre k rule: join_lines.induct)
  case (2 sep l)
  then show ?case by (auto simp: zap_free)
next
  case (3 sep l l' ls)
  show ?case
  proof (cases k)
    case 0
    with 3(2) show ?thesis by (auto simp: zap_free)
  next
    case (Suc k')
    obtain q where "drop (line_offs (length (pre @ l @ [0])) (l' # ls) ! k')
        ((pre @ l @ [0]) @ zap sep (join_lines sep (l' # ls)) @ z # zs)
      = (l' # ls) ! k' @ (if Suc k' = length (l' # ls) then z else 0) # q"
      using 3(1) [of k' "pre @ l @ [0]"] 3(2,3) Suc by auto
    then show ?thesis using Suc 3(2) by (auto simp: zap_free)
  qed
qed simp

lemma cstr_join: "sep \<noteq> 0 \<Longrightarrow> \<forall>l \<in> set ls. cstr l \<Longrightarrow> cstr (join_lines sep ls)"
  by (induction sep ls rule: join_lines.induct) (auto simp: cstr_def)

lemma lines_le: "length ls \<le> Suc (length (join_lines sep ls))"
  by (induction sep ls rule: join_lines.induct) auto

lemma boot_strlen_eq: "boot_strlen s = strlen s"
  by (induction s) auto

text \<open>The sections of a text that does not start with an empty line are its lines.\<close>

lemma boot_split_lines:
  assumes "sep \<noteq> 0" "ls \<noteq> []" "hd ls \<noteq> []" "\<forall>l \<in> set ls. cstr l \<and> sep \<notin> set l"
    and pool: "\<And>n. unat n \<le> length (pool n)" and small: "length (join_lines sep ls) < 2 ^ 31"
  shows "\<exists>start. boot_split_string_by_char pool (join_lines sep ls @ 0 # r) sep = Some (length ls, line_offs 0 ls, start) \<and>
    (\<forall>k < length ls. \<exists>z q. drop (line_offs 0 ls ! k) start = ls ! k @ z # q \<and> (Suc k < length ls \<longrightarrow> z = 0))"
proof -
  let ?t = "join_lines sep ls" and ?n = "8 * length ls"
  have c: "cstr ?t" using assms(1,4) by (intro cstr_join) auto
  obtain a l ls' where ls: "ls = (a # l) # ls'" using assms(2,3) by (cases ls; cases "hd ls") auto
  then obtain t' where t: "?t = a # t'" by (cases ls') auto
  have a: "a \<noteq> sep" "a \<noteq> 0" using assms(4) ls by auto
  have offs: "0 # sep_offs sep 0 ?t = line_offs 0 ls" using assms by (intro sep_offs_lines) auto
  then have cnt: "Suc (count_list ?t sep) = length ls" by (metis length_Cons length_line_offs length_sep_offs)
  let ?b = "drop ?n (pool (of_nat (?n + Suc (length ?t))))"
  have "length ls \<le> Suc (length ?t)" by (rule lines_le)
  then have "?n + Suc (length ?t) < 2 ^ 64" using small by simp
  then have "unat (of_nat (?n + Suc (length ?t)) :: u64) = ?n + Suc (length ?t)"
    by (simp only: unsigned_of_nat of_nat_id) (intro take_bit_nat_eq_self, simp)
  then have len: "Suc (length ?t) \<le> length ?b" using pool [of "of_nat (?n + Suc (length ?t))"] by simp
  then obtain z zs where z: "drop (length ?t) ?b = z # zs" by (cases "drop (length ?t) ?b") auto
  let ?start = "zap sep ?t @ z # zs"
  have sp: "split_loop (?t @ 0 # r) sep 0 ?b [0] = Some (line_offs 0 ls, ?start)"
    using split_loop_cstr [OF c assms(1), of 0 ?b r "[0]"] len offs z by simp
  have get: "arr_get (?t @ 0 # r) 0 = Some a" using t by simp
  have "boot_split_string_by_char pool (?t @ 0 # r) sep = Some (length ls, line_offs 0 ls, ?start)"
    by (simp only: boot_split_string_by_char_def boot_strlen_eq count_sep_cstr [OF c assms(1)] strlen_cstr [OF c]
        get bind.bind_lunit Let_def a(1) not_False_eq_True if_True cnt drop_0 small sp prod.case)
  moreover have "\<exists>z q. drop (line_offs 0 ls ! k) ?start = ls ! k @ z # q \<and> (Suc k < length ls \<longrightarrow> z = 0)"
    if "k < length ls" for k
    using line_in_copy [of ls sep k "[]" z zs] assms(4) that by fastforce
  ultimately show ?thesis by blast
qed

lemma boot_strcmp_kw:
  "cstr l \<Longrightarrow> cstr kw \<Longrightarrow> \<exists>r. boot_strcmp (l @ 0 # q) (kw @ [0]) = Some r \<and> (r = 0 \<longleftrightarrow> l = kw)"
proof (induction l arbitrary: kw)
  case Nil
  then show ?case by (cases kw) (auto simp: uint_0_iff)
next
  case (Cons c l)
  then show ?case by (cases kw) (auto simp: word_uint_eq_iff)
qed

lemma copy_name_at:
  "cstr l \<Longrightarrow> y + length l \<le> length fn \<Longrightarrow>
   copy_name (l @ 0 # q) y fn = Some (take y fn @ map ucast l @ drop (y + length l) fn)"
proof (induction l arbitrary: y fn)
  case (Cons c l)
  then show ?case by (simp add: take_Suc_update drop_update_cancel)
qed simp

lemma boot_digits_loop:
  "boot_digits cs (of_int v) i = map_option of_int (digits_loop (\<lambda>x. x) cs v i)"
proof (induction cs arbitrary: v i)
  case (Cons c cs)
  have "of_int v * 10 + of_int (sint c - 48) = (of_int (v * 10 + (sint c - 48)) :: u64)" by simp
  then show ?case unfolding boot_digits.simps digits_loop.simps by (simp only: Cons.IH if_distrib [of "map_option _"] option.map)
qed simp

definition dec_text :: "nat \<Rightarrow> u8 list" where
  "dec_text n = map glyph (rev (radix 10 n))"

lemma dec_text_digits: "c \<in> set (dec_text n) \<Longrightarrow> 48 \<le> sint c \<and> sint c \<le> 57"
  using radix_less [of 10 _ n] by (force simp: dec_text_def glyph_sint)

lemma dec_text_ne: "dec_text n \<noteq> []"
  using radix_step [of 10 n] by (simp add: dec_text_def)

lemma boot_atoi_dec:
  assumes "n < 2 ^ 31"
  shows "boot_atoi (dec_text n @ 0 # q) = Some (int n)"
proof -
  have l: "length (radix 10 n) \<le> 20"
    using assms by (intro radix_length) auto
  have "boot_digits (dec_text n @ 0 # q) (of_int 0) 0 = Some (of_int (int n))"
    unfolding boot_digits_loop dec_text_def using l by (subst digits_loop_radix) auto
  moreover obtain c cs where "dec_text n = c # cs" using dec_text_ne by (cases "dec_text n") auto
  moreover have "c \<noteq> 45" using dec_text_digits [of c n] calculation(2) by auto
  moreover have "sint (ucast (of_int (int n) :: u64) :: s32) = int n"
    using assms by (simp add: sint_uint unsigned_of_nat unsigned_ucast_eq signed_take_bit_int_eq_self take_bit_nat_eq_self)
  ultimately show ?thesis by (simp add: boot_atoi_def)
qed

text \<open>\<open>start\<close> holds the lines, all but the last one terminated.\<close>

definition holds_lines :: "u8 list list \<Rightarrow> u8 list \<Rightarrow> bool" where
  "holds_lines ls start \<longleftrightarrow> (\<forall>k < length ls. \<exists>z q. drop (line_offs 0 ls ! k) start = ls ! k @ z # q \<and> (Suc k < length ls \<longrightarrow> z = 0))"

lemma line_at:
  assumes "holds_lines ls start" "Suc k < length ls"
  obtains q where "name_at (line_offs 0 ls) start k = Some (ls ! k @ 0 # q)"
  using assms by (fastforce simp: holds_lines_def name_at_def dest: spec [of _ k])

abbreviation kw_font :: "u8 list" where "kw_font \<equiv> [35, 102, 111, 110, 116]"
abbreviation kw_resolution :: "u8 list" where "kw_resolution \<equiv> [35, 114, 101, 115, 111, 108, 117, 116, 105, 111, 110]"
abbreviation kw_end :: "u8 list" where "kw_end \<equiv> [35, 101, 110, 100]"

lemma conf_keys: "of_str ''#font'' = kw_font" "of_str ''#resolution'' = kw_resolution" "of_str ''#end'' = kw_end"
  by (simp_all add: of_str_def)

lemma skip_line:
  assumes "holds_lines ls start" "Suc i < length ls" "cstr (ls ! i)" "ls ! i \<notin> {kw_font, kw_resolution, kw_end}"
  shows "read_config (line_offs 0 ls) start (length ls) i c = read_config (line_offs 0 ls) start (length ls) (i + 1) c"
proof -
  obtain q where q: "name_at (line_offs 0 ls) start i = Some (ls ! i @ 0 # q)" using line_at assms(1,2) .
  have ne: "\<exists>r. boot_strcmp (ls ! i @ 0 # q) (kw @ [0]) = Some r \<and> r \<noteq> 0" if "kw \<in> {kw_font, kw_resolution, kw_end}" for kw
    using boot_strcmp_kw [OF assms(3), of kw q] assms(4) that by force
  show ?thesis
    by (subst read_config.simps, insert ne [of kw_font] ne [of kw_resolution] ne [of kw_end] assms(2))
       (auto simp: q conf_keys)
qed

lemma end_line:
  assumes "holds_lines ls start" "i < length ls" "ls ! i = kw_end"
  shows "read_config (line_offs 0 ls) start (length ls) i c = Some c"
proof -
  obtain z q where z: "name_at (line_offs 0 ls) start i = Some (kw_end @ z # q)" "Suc i < length ls \<longrightarrow> z = 0"
    using assms by (fastforce simp: holds_lines_def name_at_def dest: spec [of _ i])
  show ?thesis
  proof (cases "Suc i < length ls")
    case True
    then show ?thesis using z by (subst read_config.simps) (simp add: conf_keys)
  next
    case False
    then have "Suc i = length ls" using assms(2) by simp
    then show ?thesis using z(1) by (subst read_config.simps) (simp add: conf_keys, subst read_config.simps, simp)
  qed
qed

lemma resolution_line:
  assumes "holds_lines ls start" "i + 3 < length ls" "ls ! i = kw_resolution"
    "ls ! (i + 1) = dec_text w" "ls ! (i + 2) = dec_text h" "w < 2 ^ 31" "h < 2 ^ 31"
  shows "read_config (line_offs 0 ls) start (length ls) i c =
    read_config (line_offs 0 ls) start (length ls) (i + 3) (c\<lparr>conf_width := of_nat w, conf_height := of_nat h\<rparr>)"
proof -
  obtain q where q: "name_at (line_offs 0 ls) start i = Some (kw_resolution @ 0 # q)"
    using line_at [OF assms(1), of i] assms(2,3) by auto
  obtain q1 where q1: "name_at (line_offs 0 ls) start (i + 1) = Some (dec_text w @ 0 # q1)"
    using line_at [OF assms(1), of "i + 1"] assms(2,4) by auto
  obtain q2 where q2: "name_at (line_offs 0 ls) start (i + 2) = Some (dec_text h @ 0 # q2)"
    using line_at [OF assms(1), of "i + 2"] assms(2,5) by auto
  show ?thesis
    using assms(2) q q1 q2 boot_atoi_dec [OF assms(6), of q1] boot_atoi_dec [OF assms(7), of q2]
    by (subst read_config.simps) (simp add: conf_keys)
qed

lemma font_line:
  assumes "holds_lines ls start" "i + 2 < length ls" "ls ! i = kw_font" "cstr (ls ! (i + 1))" "length (ls ! (i + 1)) \<le> length (font_name c)"
  shows "read_config (line_offs 0 ls) start (length ls) i c =
    read_config (line_offs 0 ls) start (length ls) (i + 2)
      (c\<lparr>font_name := map ucast (ls ! (i + 1)) @ drop (length (ls ! (i + 1))) (font_name c)\<rparr>)"
proof -
  obtain q where q: "name_at (line_offs 0 ls) start i = Some (kw_font @ 0 # q)"
    using line_at [OF assms(1), of i] assms(2,3) by auto
  obtain q1 where q1: "name_at (line_offs 0 ls) start (i + 1) = Some (ls ! (i + 1) @ 0 # q1)"
    using line_at [OF assms(1), of "i + 1"] assms(2) by auto
  show ?thesis
    using assms(2) q q1 copy_name_at [OF assms(4), of 0 "font_name c" q1] assms(5)
    by (subst read_config.simps) (simp add: conf_keys)
qed

text \<open>The entries of a configuration file, their lines, and what an entry changes.\<close>

datatype conf_item =
    Resolution nat nat
  | Font "u8 list"
  | Other "u8 list"

fun item_lines :: "conf_item \<Rightarrow> u8 list list" where
  "item_lines (Resolution w h) = [of_str ''#resolution'', dec_text w, dec_text h]"
| "item_lines (Font f) = [of_str ''#font'', f]"
| "item_lines (Other l) = [l]"

definition text_line :: "u8 list \<Rightarrow> bool" where
  "text_line l \<longleftrightarrow> cstr l \<and> 10 \<notin> set l"

fun item_ok :: "conf_item \<Rightarrow> bool" where
  "item_ok (Resolution w h) = (w < 2 ^ 31 \<and> h < 2 ^ 31)"
| "item_ok (Font f) = (text_line f \<and> length f < 256)"
| "item_ok (Other l) = (text_line l \<and> l \<notin> {of_str ''#font'', of_str ''#resolution'', of_str ''#end''})"

fun apply_item :: "conf_item \<Rightarrow> boot_conf \<Rightarrow> boot_conf" where
  "apply_item (Resolution w h) c = c\<lparr>conf_width := of_nat w, conf_height := of_nat h\<rparr>"
| "apply_item (Font f) c = c\<lparr>font_name := map ucast f @ drop (length f) (font_name c)\<rparr>"
| "apply_item (Other l) c = c"

definition conf_lines :: "conf_item list \<Rightarrow> u8 list list \<Rightarrow> u8 list list" where
  "conf_lines its rest = concat (map item_lines its) @ of_str ''#end'' # rest"

definition conf_text :: "conf_item list \<Rightarrow> u8 list list \<Rightarrow> u8 list" where
  "conf_text its rest = join_lines 10 (conf_lines its rest)"

lemma dec_text_line: "text_line (dec_text n)"
  using dec_text_digits [of 0 n] dec_text_digits [of 10 n] by (auto simp: text_line_def cstr_def)

lemma item_lines_ok: "item_ok it \<Longrightarrow> l \<in> set (item_lines it) \<Longrightarrow> text_line l"
  by (cases it) (auto simp: dec_text_line, simp_all add: text_line_def cstr_def conf_keys)

lemma drop_nth: "drop i ls = xs @ ys \<Longrightarrow> j < length xs \<Longrightarrow> ls ! (i + j) = xs ! j"
  by (metis append_take_drop_id drop_eq_Nil length_append length_append length_drop nth_append nth_drop add.commute
      less_imp_le_nat linorder_not_le list.size(3) not_add_less1 add_is_0 length_0_conv append_is_Nil_conv not_less_zero)

text \<open>One entry, with a line behind it.\<close>

lemma item_step:
  assumes s: "holds_lines ls start" and d: "drop i ls = item_lines it @ m # ms" and ok: "item_ok it"
    and c: "length (font_name c) = 256"
  shows "read_config (line_offs 0 ls) start (length ls) i c =
    read_config (line_offs 0 ls) start (length ls) (i + length (item_lines it)) (apply_item it c)"
proof -
  have len: "i + length (item_lines it) < length ls" using arg_cong [OF d, of length] by simp
  note at = drop_nth [OF d]
  show ?thesis
  proof (cases it)
    case (Resolution w h)
    then have "ls ! i = kw_resolution" "ls ! (i + 1) = dec_text w" "ls ! (i + 2) = dec_text h"
      using at [of 0] at [of 1] at [of 2] by (simp_all add: conf_keys)
    from resolution_line [OF s _ this] show ?thesis using Resolution len ok by (simp add: numeral_3_eq_3)
  next
    case (Font f)
    then have f: "ls ! i = kw_font" "ls ! (i + 1) = f" using at [of 0] at [of 1] by (simp_all add: conf_keys)
    from font_line [OF s _ f(1), of c, unfolded f(2)] show ?thesis using Font len ok c by (simp add: text_line_def)
  next
    case (Other l)
    then have "ls ! i = l" using at [of 0] by simp
    then show ?thesis using skip_line [OF s, of i c] Other len ok by (simp add: text_line_def conf_keys)
  qed
qed

lemma read_items:
  assumes s: "holds_lines ls start" and "drop i ls = conf_lines its rest" and "\<forall>it \<in> set its. item_ok it"
    and "length (font_name c) = 256"
  shows "read_config (line_offs 0 ls) start (length ls) i c = Some (fold apply_item its c)"
  using assms(2-)
proof (induction its arbitrary: i c)
  case Nil
  then have "i < length ls" "ls ! i = kw_end"
    using drop_nth [of i ls "[kw_end]" rest 0] by (cases "i < length ls"; simp add: conf_lines_def conf_keys)+
  then show ?case using end_line [OF s] by simp
next
  case (Cons it its)
  obtain m ms where m: "conf_lines its rest = m # ms" by (cases "conf_lines its rest") (auto simp: conf_lines_def)
  have d: "drop i ls = item_lines it @ m # ms" using Cons.prems(1) unfolding m [symmetric] by (simp add: conf_lines_def)
  then have "drop (i + length (item_lines it)) ls = conf_lines its rest"
    unfolding m by (metis append_eq_conv_conj drop_drop add.commute)
  moreover have "length (font_name (apply_item it c)) = 256" using Cons.prems(2,3) by (cases it) auto
  ultimately show ?case
    using item_step [OF s d _ Cons.prems(3)] Cons.IH [of "i + length (item_lines it)" "apply_item it c"] Cons.prems(2) by simp
qed

text \<open>
  C35.  A configuration file of resolutions, fonts and other lines in any order, ended by a line
  \<open>#end\<close>, gives the loader what its entries say, one after the other, and nothing behind \<open>#end\<close>
  counts, whatever the pool held and although the last line is not terminated.  A font is copied
  over the one before it, so of a longer earlier name the end stays.
\<close>

theorem config_file_read:
  assumes "\<forall>it \<in> set its. item_ok it" and "\<forall>l \<in> set rest. text_line l" and "hd (conf_lines its rest) \<noteq> []"
    and "\<forall>n. unat n \<le> length (pool n)" and "length (conf_text its rest) < 2 ^ 31"
  shows "load_config pool (conf_text its rest @ 0 # r) = Some (fold apply_item its no_conf)"
proof -
  let ?ls = "conf_lines its rest"
  have "(10 :: u8) \<noteq> 0" "?ls \<noteq> []" by (simp_all add: conf_lines_def)
  moreover have "\<forall>l \<in> set ?ls. cstr l \<and> 10 \<notin> set l"
    using assms(1,2) item_lines_ok by (auto simp: conf_lines_def text_line_def, auto simp: cstr_def conf_keys)
  ultimately obtain start where
    s: "boot_split_string_by_char pool (conf_text its rest @ 0 # r) 10 = Some (length ?ls, line_offs 0 ?ls, start)"
      "holds_lines ?ls start"
    using boot_split_lines [of 10 ?ls pool r] assms(3-5) unfolding holds_lines_def conf_text_def by blast
  have "length (font_name no_conf) = 256" by (simp add: no_conf_def)
  with read_items [OF s(2) _ assms(1), of 0 rest no_conf] s(1) show ?thesis by (simp add: load_config_def)
qed

text \<open>The configuration file of the repository, \<open>gnu-efi/bootloader/dat/config.txt\<close>; 92 is the backslash.\<close>

definition shipped_conf :: "u8 list" where
  "shipped_conf = of_str ''#resolution'' @ [10] @ of_str ''1280'' @ [10] @ of_str ''720'' @ [10] @ of_str ''#font'' @ [10]
     @ of_str ''resources'' @ [92] @ of_str ''ter-powerline-v28n.psf'' @ [10]
     @ of_str ''resources'' @ [92] @ of_str ''zap-light16.psf'' @ [10] @ of_str ''#end''"

definition shipped_items :: "conf_item list" where
  "shipped_items = [Resolution 1280 720, Font (of_str ''resources'' @ [92] @ of_str ''ter-powerline-v28n.psf''),
     Other (of_str ''resources'' @ [92] @ of_str ''zap-light16.psf'')]"

lemma shipped_conf_text: "shipped_conf = conf_text shipped_items []"
  by (simp add: shipped_conf_def conf_text_def conf_lines_def shipped_items_def dec_text_def of_str_def radix_step glyph_dec)

theorem config_file_read_witness:
  "\<exists>c. load_config (\<lambda>n. replicate (unat n) 7) (shipped_conf @ [0]) = Some c \<and> conf_width c = 1280 \<and> conf_height c = 720 \<and>
     take 10 (font_name c) = map ucast (of_str ''resources'' @ [92 :: u8])"
proof -
  have "\<forall>it \<in> set shipped_items. item_ok it" "hd (conf_lines shipped_items []) \<noteq> []" "length shipped_conf < 2 ^ 31"
    by (simp_all add: shipped_items_def conf_lines_def text_line_def cstr_def of_str_def shipped_conf_def)
  then have "load_config (\<lambda>n. replicate (unat n) 7) (shipped_conf @ [0]) = Some (fold apply_item shipped_items no_conf)"
    using config_file_read [of shipped_items "[]" "\<lambda>n. replicate (unat n) 7" "[]"] unfolding shipped_conf_text by simp
  then show ?thesis by (simp add: shipped_items_def of_str_def)
qed

section \<open>Files and segments\<close>

text \<open>A text file whose pool block is exactly as long as the file is terminated outside the block.\<close>

lemma text_file_overruns:
  assumes "vol_open V f = Some h" "vol_size V h = Some n" "length (pool_block V n) = unat n"
    "length (vol_read V h n) = unat n"
  shows "Load_Text_File V f = None"
  using assms by (simp add: Load_Text_File_def Load_File_def FileSize_def blk_put_def arr_put_def)

lemma copy_to_mem_eq:
  "src + n \<le> length kern \<Longrightarrow> copy_to_mem m v kern src n = Some (wr_bytes m v (take n (drop src kern)))"
proof (induction n arbitrary: m v src)
  case (Suc n)
  have d: "take (Suc n) (drop src kern) = kern ! src # take n (drop (Suc src) kern)"
    using Suc.prems by (simp add: Cons_nth_drop_Suc [symmetric])
  have w: "wr_bytes (m(v := b)) (Suc v) bs = wr_bytes m v (b # bs)" for b bs
    by (rule ext) (auto simp: wr_bytes_def nth_Cons')
  have "copy_to_mem m v kern src (Suc n) = copy_to_mem (m(v := kern ! src)) (Suc v) kern (Suc src) n"
    using Suc.prems by simp
  also have "\<dots> = Some (wr_bytes m v (take (Suc n) (drop src kern)))"
    using Suc.prems unfolding d by (subst Suc.IH) (simp, simp only: w)
  finally show ?case .
qed simp

definition seg_bytes :: "u8 list \<Rightarrow> Elf64_Phdr \<Rightarrow> u8 list" where
  "seg_bytes kern ph = take (unat (p_filesz ph)) (drop (unat (p_offset ph)) kern)"

definition in_file :: "u8 list \<Rightarrow> Elf64_Phdr \<Rightarrow> bool" where
  "in_file kern ph \<longleftrightarrow> unat (p_offset ph) + unat (p_filesz ph) \<le> length kern"

lemma boot_phdrs_loads:
  assumes "0 < entsize"
  shows "phdrs_from kern entsize cur n = Some phs \<Longrightarrow> \<forall>ph \<in> set (loadable phs). in_file kern ph \<Longrightarrow>
    \<exists>m'. boot_phdrs kern entsize cur (cur + n * entsize) m = Some m' \<and>
      bm m' = fold (\<lambda>ph mm. wr_bytes mm (unat (p_vaddr ph)) (seg_bytes kern ph)) (loadable phs) (bm m)"
proof (induction n arbitrary: cur phs m)
  case 0
  then show ?case by (simp add: boot_phdrs.simps loadable_def)
next
  case (Suc n)
  obtain ph phs' where p: "phdr_of kern cur = Some ph" "phdrs_from kern entsize (cur + entsize) n = Some phs'"
    "phs = ph # phs'" using Suc.prems(1) by (auto split: Option.bind_splits)
  have rest: "\<forall>ph \<in> set (loadable phs'). in_file kern ph" using Suc.prems(2) p(3) by (auto simp: loadable_def)
  have "p_type ph = PT_LOAD \<Longrightarrow> in_file kern ph" using Suc.prems(2) p(3) by (simp add: loadable_def)
  then obtain m1 where m1: "boot_segment kern ph m = Some m1"
    "bm m1 = (if p_type ph = PT_LOAD then wr_bytes (bm m) (unat (p_vaddr ph)) (seg_bytes kern ph) else bm m)"
    by (cases "p_type ph = PT_LOAD") (auto simp: boot_segment_def in_file_def seg_bytes_def copy_to_mem_eq Let_def)
  have "boot_phdrs kern entsize cur (cur + Suc n * entsize) m
      = boot_phdrs kern entsize (cur + entsize) (cur + entsize + n * entsize) m1"
    using assms p(1) m1(1) by (subst boot_phdrs.simps) (simp add: add.assoc)
  then show ?case using Suc.IH [OF p(2) rest, of m1] m1(2) p(3) by (auto simp: loadable_def)
qed

section \<open>The memory map and the tables\<close>

text \<open>The second total is the memory size the kernel computes from the map it is handed.\<close>

lemma boot_mem_sizes_loop:
  "k + n \<le> length ds \<Longrightarrow>
   \<exists>a'. for_range (\<lambda>i (mem_size, mem_size_0). do {
        desc \<leftarrow> arr_get ds i;
        let n = wrap64 (4096 * NumberOfPages desc);
        Some (wrap64 (mem_size + n),
              if Type desc \<noteq> EfiReservedMemoryType then wrap64 (mem_size_0 + n) else mem_size_0) }) k n (a, b)
     = Some (a', getMemorySize (take n (drop k ds)) b)"
proof (induction n arbitrary: k a b)
  case (Suc n)
  have d: "take (Suc n) (drop k ds) = ds ! k # take n (drop (Suc k) ds)"
    using Suc.prems by (simp add: Cons_nth_drop_Suc [symmetric])
  show ?case using Suc by (simp add: d Let_def split: prod.split)
qed simp

lemma boot_total_is_kernel_total:
  assumes "ma_desc_size a \<noteq> 0" "unat (ma_size a div ma_desc_size a) = length (ma_map a)"
  shows "\<exists>t. boot_mem_sizes a = Some (t, getMemorySize (ma_map a) 0)"
  using boot_mem_sizes_loop [of 0 "length (ma_map a)" "ma_map a" 0 0] assms by (simp add: boot_mem_sizes_def)

text \<open>
  A firmware whose map needs \<open>need k\<close> bytes at the \<open>k\<close>-th call, never more than \<open>B\<close>: it reports
  that size when the buffer is too small.
\<close>

definition honest_map :: "(nat \<Rightarrow> u64 \<Rightarrow> map_answer) \<Rightarrow> (nat \<Rightarrow> nat) \<Rightarrow> nat \<Rightarrow> nat \<Rightarrow> bool" where
  "honest_map gmm need dsz B \<longleftrightarrow> 0 < dsz \<and> B + 10 * dsz < 2 ^ 64 \<and>
     (\<forall>k sz. need k \<le> B \<and> unat (ma_desc_size (gmm k sz)) = dsz \<and>
        (if unat sz < need k then ma_status (gmm k sz) = EFI_BUFFER_TOO_SMALL \<and> unat (ma_size (gmm k sz)) = need k
         else ma_status (gmm k sz) = 0))"

lemma fetch_map_ends:
  assumes "honest_map gmm need dsz B"
  shows "\<exists>a. fetch_map gmm k sz = Some a \<and> ma_status a = 0"
proof (induction "B + 1 + 10 * dsz - unat sz" arbitrary: k sz rule: less_induct)
  case less
  show ?case
  proof (cases "unat sz < need k")
    case False
    then have "ma_status (gmm k sz) = 0" using assms unfolding honest_map_def by (metis (full_types))
    then show ?thesis by (subst fetch_map.simps) simp
  next
    case True
    have h: "ma_status (gmm k sz) = EFI_BUFFER_TOO_SMALL" "unat (ma_size (gmm k sz)) = need k"
      "unat (ma_desc_size (gmm k sz)) = dsz" "need k \<le> B" "B + 10 * dsz < 2 ^ 64" "0 < dsz"
      using assms True unfolding honest_map_def by (metis (full_types))+
    let ?sz = "ma_size (gmm k sz) + ma_desc_size (gmm k sz) * 10"
    have "unat (ma_desc_size (gmm k sz) * 10) = dsz * 10"
      using h by (subst unat_mult_lem [THEN iffD1]) auto
    then have s: "unat ?sz = need k + 10 * dsz" using h by (subst unat_add_lem [THEN iffD1]) auto
    have m: "B + 1 + 10 * dsz - unat ?sz < B + 1 + 10 * dsz - unat sz" using True h(4) unfolding s by linarith
    obtain a where "fetch_map gmm (k + 1) ?sz = Some a" "ma_status a = 0"
      using less [of ?sz "k + 1"] m by auto
    then show ?thesis using h(1) by (subst fetch_map.simps) simp
  qed
qed

text \<open>
  C36.  The loop that fetches the memory map ends, with a map that fits its buffer, for every
  firmware whose map stays below some bound: each answer that the buffer is too small is
  followed by a buffer larger by ten descriptors than what was asked for.
\<close>

theorem memory_map_fetched:
  assumes "honest_map gmm need dsz B"
  shows "\<exists>a. fetch_map gmm 0 0 = Some a \<and> ma_status a = 0"
  using assms by (rule fetch_map_ends)

definition growing_map :: "nat \<Rightarrow> u64 \<Rightarrow> map_answer" where
  "growing_map k sz = (let n = (if k = 0 then 96 else 900) in
     \<lparr>ma_status = (if unat sz < n then EFI_BUFFER_TOO_SMALL else 0), ma_size = of_nat n, ma_key = 0,
      ma_desc_size = 48, ma_map = []\<rparr>)"

theorem memory_map_fetched_witness:
  "\<exists>a. fetch_map growing_map 0 0 = Some a \<and> ma_status a = 0"
proof -
  have "honest_map growing_map (\<lambda>k. if k = 0 then 96 else 900) 48 900"
    by (simp add: honest_map_def growing_map_def)
  then show ?thesis by (rule memory_map_fetched)
qed

lemma CompareGuid_0: "CompareGuid g h = 0 \<longleftrightarrow> g = h"
proof -
  show ?thesis by (cases g; cases h) (auto simp: CompareGuid_def or_eq_0_iff)
qed

text \<open>Only the first byte of a table is compared with the signature.\<close>

lemma boot_strncmp_first: "0 < n \<Longrightarrow> boot_strncmp (a # as) (b # bs) n = Some (ucast a - ucast b)"
proof (induction n)
  case (Suc n)
  then show ?case by (cases n) auto
qed simp

lemma signature_round:
  "boot_strncmp (of_str ''RSD PTR '') (rd_bytes m p 8) 8 = Some (0x52 - ucast (m p))"
proof -
  have "of_str ''RSD PTR '' = 0x52 # of_str ''SD PTR ''" by (simp add: of_str_def)
  moreover have "rd_bytes m p 8 = m p # rd_bytes m (Suc p) 7" using rd_bytes_Suc [of m p 7] by simp
  moreover have "ucast (0x52 :: u8) = (0x52 :: u64)" by simp
  ultimately show ?thesis by (simp only: boot_strncmp_first [of 8] zero_less_numeral)
qed

lemma rsdp_round_eq:
  "i + i < length tables \<Longrightarrow> rsdp_round tables m i r =
     Some (if VendorGuid (tables ! (i + i)) \<noteq> ACPI_20_TABLE_GUID \<and> m (unat (VendorTable (tables ! i))) = 0x52
           then VendorTable (tables ! i) else r)"
proof -
  have "((0x52 :: u64) - ucast b = 0) \<longleftrightarrow> b = 0x52" for b :: u8
  proof -
    have "ucast b = (0x52 :: u64) \<longleftrightarrow> b = 0x52" unfolding word_unat_eq_iff by (simp add: unat_ucast_le)
    then show ?thesis unfolding right_minus_eq by metis
  qed
  then show "i + i < length tables \<Longrightarrow> ?thesis"
    by (auto simp: rsdp_round_def CompareGuid_0 signature_round)
qed

text \<open>
  The search for the ACPI tables never finds them: it takes the table of the only entry when
  that entry is \<^emph>\<open>not\<close> the ACPI one and its table starts with an R, and with two or more entries it
  reads behind the list.
\<close>

theorem rsdp_search_wrong:
  "find_rsdp tables (length tables) m =
     (case tables of [] \<Rightarrow> Some 0
      | [t] \<Rightarrow> Some (if VendorGuid t \<noteq> ACPI_20_TABLE_GUID \<and> m (unat (VendorTable t)) = 0x52 then VendorTable t else 0)
      | _ \<Rightarrow> None)"
proof -
  have none: "for_range (rsdp_round ts m) i n r = None" if "i < i + n" "length ts = i + n" "2 \<le> i + n" for ts i n r
    using that
  proof (induction n arbitrary: i r)
    case (Suc n)
    show ?case
    proof (cases n)
      case 0
      then show ?thesis using Suc.prems by (simp add: rsdp_round_def arr_get_def)
    next
      case (Suc k)
      then show ?thesis using Suc.IH [of "Suc i"] Suc.prems by (cases "rsdp_round ts m i r") simp_all
    qed
  qed simp
  show ?thesis
  proof (cases "2 \<le> length tables")
    case True
    then show ?thesis using none [of 0 "length tables" tables 0] by (auto simp: find_rsdp_def split: list.splits)
  next
    case False
    then show ?thesis by (cases tables) (auto simp: find_rsdp_def rsdp_round_eq split: list.splits)
  qed
qed

section \<open>The mode chosen\<close>

definition search_inv :: "(nat \<Rightarrow> u32) \<Rightarrow> nat \<Rightarrow> mode_search \<Rightarrow> bool" where
  "search_inv dif i st \<longleftrightarrow> (case st of (info, md, g) \<Rightarrow>
     case md of None \<Rightarrow> g = 1000000 \<and> (\<forall>j < i. 1000000 \<le> dif j)
     | Some k \<Rightarrow> unat k < i \<and> g = dif (unat k) \<and> g < 1000000 \<and> (\<forall>j < i. g \<le> dif j) \<and> (\<forall>j < unat k. g < dif j))"

text \<open>The search returns the first mode of least distance, if one is below a million.\<close>

lemma mode_search_first_least:
  assumes "\<And>i. i < n \<Longrightarrow> QueryMode fw gm (of_nat i) = (0, Some (mi i))" "n < 2 ^ 32"
  shows "\<exists>st. for_range (mode_round fw gm pw ph) 0 n (info, None, 1000000) = Some st \<and>
    search_inv (\<lambda>i. mode_dif pw ph (mi i)) n st"
proof -
  let ?d = "\<lambda>i. mode_dif pw ph (mi i)"
  have "\<exists>s'. mode_round fw gm pw ph k s = Some s' \<and> search_inv ?d (Suc k) s'" if "k < n" "search_inv ?d k s" for k s
  proof -
    obtain info md g where s: "s = (info, md, g)" by (cases s)
    have u: "unat (of_nat k :: u32) = k"
      using that(1) assms(2) by (simp add: unsigned_of_nat take_bit_nat_eq_self)
    have r: "mode_round fw gm pw ph k s = Some (if ?d k < g then (Some (mi k), Some (of_nat k), ?d k) else (Some (mi k), md, g))"
      using assms(1) [OF that(1)] by (simp add: mode_round_def s EFI_ERROR_def Let_def)
    show ?thesis
    proof (cases "?d k < g")
      case True
      then have "\<forall>j < k. ?d k < ?d j" "?d k < 1000000"
        using that(2) by (auto simp: search_inv_def s split: option.splits)
      then show ?thesis using True r by (auto simp: search_inv_def u less_Suc_eq)
    next
      case False
      then show ?thesis using that(2) r by (auto simp: search_inv_def s less_Suc_eq split: option.splits)
    qed
  qed
  then show ?thesis
    using for_range_inv [of "search_inv ?d" 0 "(info, None, 1000000)" n "mode_round fw gm pw ph"]
    by (simp add: search_inv_def)
qed

text \<open>A mode of the wanted width is a perfect match whatever its height.\<close>

lemma same_width_perfect: "HorizontalResolution mi = pw \<Longrightarrow> mode_dif pw ph mi = 0"
  by (simp add: mode_dif_def)

definition two_modes :: gop_fw where
  "two_modes = (let mi = (\<lambda>k :: u32. \<lparr>HorizontalResolution = 1920, VerticalResolution = (if k = 0 then 1440 else 1080), ScanLine = 1920\<rparr>);
                    md = (\<lambda>k. \<lparr>MaxMode = 2, cur_mode = k, FrameBufferBase = 0x80000000, FrameBufferSize = 0, Info = mi k\<rparr>)
     in \<lparr>gop_locate = (0, Some (md 1)), QueryMode = (\<lambda>_ k. (0, Some (mi k))), SetMode = (\<lambda>_ k. (0, Some (md k)))\<rparr>)"

lemma for_range_two: "for_range f i 2 s = do { s \<leftarrow> f i s; f (Suc i) s }"
  unfolding numeral_2_eq_2
  by (cases "f i s"; cases "f (Suc i) (the (f i s))") simp_all

lemma preferred_mode_missed:
  "\<exists>b. setup_graphics two_modes 1920 1080 = Some (Some b) \<and> fb_Height b = 1440"
  by (simp add: setup_graphics_def two_modes_def Let_def EFI_ERROR_def for_range_two mode_round_def mode_dif_def)

end
