(* ===== verification/DynArray.thy ===== *)
theory DynArray
  imports Heap Threads
begin

text \<open>
  The growing array of pointers (\<open>kernel/src/dynarray.c\<close>).  The structure's fields are a record;
  the pointers are 8-byte words in the kernel heap, where growing moves them with \<open>krealloc\<close>.
  The operations are shown to implement a list: adding appends and removing an index drops
  that element.  The last section holds the routines of other components that only take or
  return blocks of the kernel heap.
\<close>

section \<open>Operations\<close>

record dynarray =
  da_adr :: nat
  da_data :: nat
  da_size :: int
  da_capacity :: int

abbreviation INITIAL_CAPACITY :: int where "INITIAL_CAPACITY \<equiv> 16"

text \<open>A byte count \<open>n*sizeof(void*)\<close>: the \<open>int\<close> is converted to \<open>size_t\<close> first.\<close>

definition ptr_count :: "int \<Rightarrow> nat" where
  "ptr_count n = nat ((n * 8) mod 2 ^ 64)"

text \<open>\<open>sizeof(dynarray)\<close> is 16.\<close>

definition dynarray_init :: "(nat \<Rightarrow> 'p \<Rightarrow> 'p option) \<Rightarrow> heap \<Rightarrow> 'p \<Rightarrow> (dynarray \<times> heap \<times> 'p) option" where
  "dynarray_init mp h p = do {
     (adr, h, p) \<leftarrow> kmalloc mp 16 h p;
     (data, h, p) \<leftarrow> kmalloc mp (ptr_count INITIAL_CAPACITY) h p;
     Some (\<lparr>da_adr = adr, da_data = data, da_size = 0, da_capacity = INITIAL_CAPACITY\<rparr>, h, p) }"

definition dynarray_add ::
  "(nat \<Rightarrow> 'p \<Rightarrow> 'p option) \<Rightarrow> u64 \<Rightarrow> dynarray \<Rightarrow> heap \<Rightarrow> 'p \<Rightarrow> (dynarray \<times> heap \<times> 'p) option" where
  "dynarray_add mp elem arr h p = do {
     (arr, h, p) \<leftarrow>
       (if da_size arr = da_capacity arr then do {
          let arr = arr\<lparr>da_capacity := wrap_s32 (da_capacity arr * 2)\<rparr>;
          (data, h, p) \<leftarrow> krealloc mp (da_data arr) (ptr_count (da_capacity arr)) h p;
          Some (arr\<lparr>da_data := data\<rparr>, h, p) }
        else Some (arr, h, p));
     let h = h\<lparr>hmem := wr_bytes (hmem h) (nat (int (da_data arr) + 8 * da_size arr)) (ptr_bytes elem)\<rparr>;
     Some (arr\<lparr>da_size := wrap_s32 (da_size arr + 1)\<rparr>, h, p) }"

definition dynarray_remove_index :: "int \<Rightarrow> dynarray \<Rightarrow> heap \<Rightarrow> dynarray \<times> heap" where
  "dynarray_remove_index index arr h =
     (let dst = nat (int (da_data arr) + 8 * index);
          h = h\<lparr>hmem := memmove (hmem h) dst (dst + 8) (ptr_count (wrap_s32 (da_size arr - index - 1)))\<rparr>
      in (arr\<lparr>da_size := wrap_s32 (da_size arr - 1)\<rparr>, h))"

section \<open>The list an array represents\<close>

definition ptr_at :: "mem \<Rightarrow> nat \<Rightarrow> nat \<Rightarrow> u64" where
  "ptr_at m data i = bytes_ptr (rd_bytes m (data + 8 * i) 8)"

definition da_list :: "dynarray \<Rightarrow> heap \<Rightarrow> u64 list" where
  "da_list arr h = map (ptr_at (hmem h) (da_data arr)) [0..<nat (da_size arr)]"

text \<open>The array's block is live, as large as the capacity, and its counters are in range.\<close>

definition da_ok :: "dynarray \<Rightarrow> heap \<Rightarrow> (nat \<times> nat) set \<Rightarrow> bool" where
  "da_ok arr h L \<longleftrightarrow> heap_rep h L \<and> (da_data arr, ptr_count (da_capacity arr)) \<in> L \<and>
     0 \<le> da_size arr \<and> da_size arr \<le> da_capacity arr \<and> 0 < da_capacity arr \<and> da_capacity arr < 2 ^ 30"

lemma ptr_count_small: "0 \<le> n \<Longrightarrow> n < 2 ^ 32 \<Longrightarrow> ptr_count n = 8 * nat n"
  by (simp add: ptr_count_def nat_mult_distrib mult.commute)

lemma ptr_at_eq: "rd_bytes m a 8 = rd_bytes m' b 8 \<Longrightarrow> a = data + 8 * i \<Longrightarrow> b = data' + 8 * j \<Longrightarrow> ptr_at m data i = ptr_at m' data' j"
  by (simp add: ptr_at_def)

lemma rd_bytes_sub: "rd_bytes m p n = rd_bytes m' q n \<Longrightarrow> i + k \<le> n \<Longrightarrow> rd_bytes m (p + i) k = rd_bytes m' (q + i) k"
proof (rule nth_equalityI)
  fix j assume a: "rd_bytes m p n = rd_bytes m' q n" "i + k \<le> n" "j < length (rd_bytes m (p + i) k)"
  have "m (p + (i + j)) = m' (q + (i + j))" using arg_cong [OF a(1), of "\<lambda>xs. xs ! (i + j)"] a(2,3) by simp
  with a(3) show "rd_bytes m (p + i) k ! j = rd_bytes m' (q + i) k ! j" by (simp add: add.assoc)
qed simp

lemma ptr_at_prefix:
  "rd_bytes m p (8 * n) = rd_bytes m' q (8 * n) \<Longrightarrow> i < n \<Longrightarrow> ptr_at m p i = ptr_at m' q i"
  unfolding ptr_at_def by (subst rd_bytes_sub [of m p "8 * n" m' q]) auto

text \<open>A store of one pointer.\<close>

lemma ptr_at_store:
  "ptr_at (wr_bytes m (data + 8 * k) (ptr_bytes e)) data i = (if i = k then e else ptr_at m data i)"
proof (cases "i = k")
  case True
  have "rd_bytes (wr_bytes m (data + 8 * k) (ptr_bytes e)) (data + 8 * k) 8 = ptr_bytes e"
    using rd_wr_bytes [of m "data + 8 * k" "ptr_bytes e"] by simp
  with True show ?thesis by (simp add: ptr_at_def)
next
  case False
  then have "data + 8 * i + 8 \<le> data + 8 * k \<or> data + 8 * k + length (ptr_bytes e) \<le> data + 8 * i" by auto
  with False show ?thesis by (simp add: ptr_at_def rd_wr_bytes_other)
qed

lemma da_list_store:
  "k = nat (da_size arr) \<Longrightarrow> 0 \<le> da_size arr \<Longrightarrow> da_size arr < 2 ^ 30 \<Longrightarrow>
   da_list (arr\<lparr>da_size := wrap_s32 (da_size arr + 1)\<rparr>) (h\<lparr>hmem := wr_bytes (hmem h) (da_data arr + 8 * k) (ptr_bytes e)\<rparr>)
     = da_list arr h @ [e]"
  by (simp add: da_list_def nat_add_distrib ptr_at_store)

text \<open>Every other live block keeps its bytes and stays live.\<close>

definition others_kept :: "heap \<Rightarrow> (nat \<times> nat) set \<Rightarrow> nat \<times> nat \<Rightarrow> heap \<Rightarrow> (nat \<times> nat) set \<Rightarrow> bool" where
  "others_kept h L b h' L' \<longleftrightarrow>
     (\<forall>(c, m) \<in> L - {b}. (c, m) \<in> L' \<and> rd_bytes (hmem h') c m = rd_bytes (hmem h) c m)"

lemma da_grow:
  assumes ok: "da_ok arr h L" and full: "da_size arr = da_capacity arr" and cap: "da_capacity arr < 2 ^ 29"
    and serves: "kmalloc_serves (ptr_count (2 * da_capacity arr)) h"
    and mp: "\<And>a p. gd p \<Longrightarrow> \<exists>p'. mp a p = Some p' \<and> gd p'" and gd: "gd p"
  obtains data h' p' where
    "krealloc mp (da_data arr) (ptr_count (2 * da_capacity arr)) h p = Some (data, h', p')"
    "(data, ptr_count (2 * da_capacity arr)) \<notin> L"
    "da_ok (arr\<lparr>da_capacity := 2 * da_capacity arr, da_data := data\<rparr>) h'
       (insert (data, ptr_count (2 * da_capacity arr)) (L - {(da_data arr, ptr_count (da_capacity arr))}))"
    "da_list (arr\<lparr>da_capacity := 2 * da_capacity arr, da_data := data\<rparr>) h' = da_list arr h"
    "\<forall>(c, m) \<in> L - {(da_data arr, ptr_count (da_capacity arr))}. rd_bytes (hmem h') c m = rd_bytes (hmem h) c m"
proof -
  let ?l = "ptr_count (da_capacity arr)" and ?n = "ptr_count (2 * da_capacity arr)"
  have o: "heap_rep h L" "(da_data arr, ?l) \<in> L" "0 < da_capacity arr" using ok by (auto simp: da_ok_def)
  have l: "?l = 8 * nat (da_capacity arr)" "?n = 8 * nat (2 * da_capacity arr)"
    using o(3) cap by (intro ptr_count_small; simp)+
  then have min: "min ?n ?l = ?l" by simp
  obtain data h' p' where k: "krealloc mp (da_data arr) ?n h p = Some (data, h', p')"
    "(data, ?n) \<notin> L" "heap_rep h' (insert (data, ?n) (L - {(da_data arr, ?l)}))"
    "rd_bytes (hmem h') data ?n = rd_bytes (hmem h) (da_data arr) (min ?n ?l) @ replicate (?n - ?l) 0"
    "\<forall>(c, m) \<in> L - {(da_data arr, ?l)}. rd_bytes (hmem h') c m = rd_bytes (hmem h) c m"
    by (atomize_elim, rule krealloc_moves_fresh [where gd = gd, OF o(1,2) serves], erule mp, rule gd)
  have eq: "rd_bytes (hmem h') data ?l = rd_bytes (hmem h) (da_data arr) ?l"
  proof -
    have "take ?l (rd_bytes (hmem h') data ?n) = rd_bytes (hmem h) (da_data arr) ?l" unfolding k(4) min by simp
    moreover have "take ?l (rd_bytes (hmem h') data ?n) = rd_bytes (hmem h') data ?l"
      unfolding rd_bytes_def using l by (simp add: take_map take_upt)
    ultimately show ?thesis by simp
  qed
  have "ptr_at (hmem h') data i = ptr_at (hmem h) (da_data arr) i" if "i < nat (da_capacity arr)" for i
    by (rule ptr_at_prefix [OF _ that]) (use eq in \<open>simp only: l(1)\<close>)
  then have "da_list (arr\<lparr>da_capacity := 2 * da_capacity arr, da_data := data\<rparr>) h' = da_list arr h"
    unfolding da_list_def using full by simp
  moreover have "da_ok (arr\<lparr>da_capacity := 2 * da_capacity arr, da_data := data\<rparr>) h' (insert (data, ?n) (L - {(da_data arr, ?l)}))"
    using ok k(3) cap full by (auto simp: da_ok_def)
  ultimately show thesis by (intro that [OF k(1,2) _ _ k(5)])
qed

lemma da_store:
  fixes e :: u64
  assumes ok: "da_ok arr h L" and room: "da_size arr < da_capacity arr"
  defines "h' \<equiv> h\<lparr>hmem := wr_bytes (hmem h) (nat (int (da_data arr) + 8 * da_size arr)) (ptr_bytes e)\<rparr>"
    and "arr' \<equiv> arr\<lparr>da_size := wrap_s32 (da_size arr + 1)\<rparr>"
  shows "da_ok arr' h' L" "da_list arr' h' = da_list arr h @ [e]"
    "(c, m) \<in> L \<Longrightarrow> (c, m) \<noteq> (da_data arr, ptr_count (da_capacity arr)) \<Longrightarrow> rd_bytes (hmem h') c m = rd_bytes (hmem h) c m"
proof -
  have r: "0 \<le> da_size arr" "da_capacity arr < 2 ^ 30" "0 < da_capacity arr" using ok by (auto simp: da_ok_def)
  have n: "nat (int (da_data arr) + 8 * da_size arr) = da_data arr + 8 * nat (da_size arr)" using r(1) by linarith
  have w: "wrap_s32 (da_size arr + 1) = da_size arr + 1" using r room by (intro wrap_s32_small) auto
  show "da_ok arr' h' L" using ok room unfolding da_ok_def arr'_def h'_def by (simp add: w)
  show "da_list arr' h' = da_list arr h @ [e]"
    unfolding arr'_def h'_def n using r room by (intro da_list_store) auto
  show "rd_bytes (hmem h') c m = rd_bytes (hmem h) c m"
    if b: "(c, m) \<in> L" "(c, m) \<noteq> (da_data arr, ptr_count (da_capacity arr))"
  proof -
    have "apart (c, m) (da_data arr, ptr_count (da_capacity arr))"
      using heap_rep_apart b ok unfolding da_ok_def by blast
    moreover have "ptr_count (da_capacity arr) = 8 * nat (da_capacity arr)" using r by (intro ptr_count_small) auto
    moreover have "nat (da_size arr) + 1 \<le> nat (da_capacity arr)" using r room by linarith
    ultimately have "apart (c, m) (da_data arr + 8 * nat (da_size arr), length (ptr_bytes e))"
      by (auto simp: apart_def)
    then show ?thesis unfolding h'_def n by (simp add: apart_bytes)
  qed
qed

text \<open>
  Adding to a growing array appends to the list it represents, whether it has room or its
  block is moved to one of twice the size, and no other live block of the heap changes.
\<close>

theorem dynarray_add_appends:
  assumes ok: "da_ok arr h L" and cap: "da_capacity arr < 2 ^ 29"
    and serves: "da_size arr = da_capacity arr \<Longrightarrow> kmalloc_serves (ptr_count (2 * da_capacity arr)) h"
    and mp: "\<And>a p. gd p \<Longrightarrow> \<exists>p'. mp a p = Some p' \<and> gd p'" and gd: "gd p"
  shows "\<exists>arr' h' p' L'. dynarray_add mp e arr h p = Some (arr', h', p') \<and> da_ok arr' h' L' \<and>
    da_list arr' h' = da_list arr h @ [e] \<and>
    others_kept h L (da_data arr, ptr_count (da_capacity arr)) h' L'"
proof (cases "da_size arr = da_capacity arr")
  case False
  then have "da_size arr < da_capacity arr" using ok by (auto simp: da_ok_def)
  from da_store [OF ok this, where e = e] False show ?thesis
    by (auto simp: dynarray_add_def others_kept_def)
next
  case True
  have w: "wrap_s32 (da_capacity arr * 2) = 2 * da_capacity arr"
    using cap ok by (subst wrap_s32_small) (auto simp: da_ok_def)
  let ?arr = "\<lambda>data. arr\<lparr>da_capacity := 2 * da_capacity arr, da_data := data\<rparr>"
  let ?b = "(da_data arr, ptr_count (da_capacity arr))"
  let ?L = "\<lambda>data. insert (data, ptr_count (2 * da_capacity arr)) (L - {?b})"
  obtain data h1 p1 where g: "krealloc mp (da_data arr) (ptr_count (2 * da_capacity arr)) h p = Some (data, h1, p1)"
    "(data, ptr_count (2 * da_capacity arr)) \<notin> L"
    "da_ok (?arr data) h1 (?L data)" "da_list (?arr data) h1 = da_list arr h"
    "\<forall>(c, m) \<in> L - {?b}. rd_bytes (hmem h1) c m = rd_bytes (hmem h) c m"
    by (rule da_grow [where gd = gd, OF ok True cap serves [OF True]], erule mp, rule gd, rule that)
  have room: "da_size (?arr data) < da_capacity (?arr data)" using True ok by (simp add: da_ok_def)
  let ?h = "h1\<lparr>hmem := wr_bytes (hmem h1) (nat (int (da_data (?arr data)) + 8 * da_size (?arr data))) (ptr_bytes e)\<rparr>"
  have "dynarray_add mp e arr h p = Some ((?arr data)\<lparr>da_size := wrap_s32 (da_size (?arr data) + 1)\<rparr>, ?h, p1)"
    using g(1) True by (simp add: dynarray_add_def w)
  moreover have "(c, m) \<in> ?L data \<and> rd_bytes (hmem ?h) c m = rd_bytes (hmem h) c m"
    if c: "(c, m) \<in> L" "(c, m) \<noteq> ?b" for c m
  proof -
    have n: "(c, m) \<in> ?L data" "(c, m) \<noteq> (da_data (?arr data), ptr_count (da_capacity (?arr data)))"
      using c g(2) by auto
    from da_store(3) [OF g(3) room n, where e = e] c g(5) n(1) show ?thesis by auto
  qed
  then have "others_kept h L ?b ?h (?L data)" unfolding others_kept_def by blast
  moreover note this
  ultimately show ?thesis using da_store(1,2) [OF g(3) room, where e = e] g(4) by metis
qed

text \<open>A full array of 16 pointers on the heap of two pages; adding one more moves it.\<close>

theorem dynarray_add_appends_witness:
  "\<exists>arr h. length (da_list arr h) = 16 \<and>
     (\<exists>arr' h'. dynarray_add (\<lambda>a p. Some p) 5 arr h () = Some (arr', h', ()) \<and> da_list arr' h' = da_list arr h @ [5])"
proof -
  have "heap_inv heap0 ([] @ (8160, True) # [])" using heap0_inv by simp
  from kmalloc_fit [OF this, of 128 "\<lambda>a p. Some p" "()"]
  obtain h where h: "heap_inv h [(128, False), (8000, True)]" "heap_start h = 0x1000" "heap_end h = 0x3000"
    by (auto simp: heap0_facts hdr_size_def heap_inv_def)
  have rep: "heap_rep h {(0x1020, 128)}"
    unfolding heap_rep_def using h by (intro exI [of _ "[(128, False), (8000, True)]"]) (simp add: hdr_size_def)
  have "kmalloc_scan h 256 (heap_start h) = Some (first_fit 256 (heap_start h) [(128, False), (8000, True)])"
    using h(1) by (rule kmalloc_scan_heap) (simp add: hdr_size_def)
  then have serves: "kmalloc_serves 256 h" using h by (simp add: kmalloc_serves_def hdr_size_def)
  let ?arr = "\<lparr>da_adr = 0, da_data = 0x1020, da_size = 16, da_capacity = 16\<rparr>"
  have n: "ptr_count 16 = 128" "ptr_count 32 = 256" by (simp_all add: ptr_count_def)
  have ok: "da_ok ?arr h {(0x1020, 128)}" using rep by (simp add: da_ok_def n)
  have "length (da_list ?arr h) = 16" by (simp add: da_list_def)
  moreover have "\<exists>arr' h'. dynarray_add (\<lambda>a p. Some p) 5 ?arr h () = Some (arr', h', ()) \<and> da_list arr' h' = da_list ?arr h @ [5]"
    using dynarray_add_appends [OF ok, of "\<lambda>p. True" "\<lambda>a p. Some p" "()" 5] serves by (auto simp: n)
  ultimately show ?thesis by blast
qed

text \<open>Removing an index drops that element, whatever follows it.\<close>

lemma dynarray_remove_drops:
  assumes ok: "da_ok arr h L" and i: "i < length (da_list arr h)"
  shows "da_list (fst (dynarray_remove_index (int i) arr h)) (snd (dynarray_remove_index (int i) arr h))
     = take i (da_list arr h) @ drop (Suc i) (da_list arr h)"
proof -
  have r: "0 \<le> da_size arr" "da_size arr < 2 ^ 30" "int i < da_size arr"
    using ok i by (auto simp: da_ok_def da_list_def)
  define n d where "n = nat (da_size arr)" and "d = da_data arr"
  have s: "da_size arr = int n" "i < n" "nat (da_size arr - int i - 1) = n - i - 1"
    using r by (auto simp: n_def)
  have w: "wrap_s32 (da_size arr - int i - 1) = da_size arr - int i - 1" "wrap_s32 (da_size arr - 1) = da_size arr - 1"
    using r by (auto intro!: wrap_s32_small)
  have c: "ptr_count (da_size arr - int i - 1) = 8 * (n - i - 1)"
    using r s(3) by (subst ptr_count_small) auto
  have n1: "nat (int n - 1) = n - 1" by linarith
  have dst: "nat (int d + 8 * int i) = d + 8 * i" by linarith
  let ?m = "wr_bytes (hmem h) (d + 8 * i) (rd_bytes (hmem h) (d + 8 * i + 8) (8 * (n - i - 1)))"
  have blk: "rd_bytes ?m (d + 8 * i) (8 * (n - i - 1)) = rd_bytes (hmem h) (d + 8 * i + 8) (8 * (n - i - 1))"
    using rd_wr_bytes [of "hmem h" "d + 8 * i" "rd_bytes (hmem h) (d + 8 * i + 8) (8 * (n - i - 1))"]
    unfolding length_rd_bytes .
  have at: "ptr_at ?m d j = ptr_at (hmem h) d (if j < i then j else Suc j)" if j: "j < n - 1" for j
  proof (cases "j < i")
    case True
    then have "d + 8 * j + 8 \<le> d + 8 * i" by simp
    then show ?thesis using True by (simp add: ptr_at_def rd_wr_bytes_other)
  next
    case False
    then have "rd_bytes ?m (d + 8 * i + 8 * (j - i)) 8 = rd_bytes (hmem h) (d + 8 * i + 8 + 8 * (j - i)) 8"
      using j by (intro rd_bytes_sub [OF blk]) auto
    moreover have "d + 8 * i + 8 * (j - i) = d + 8 * j" "d + 8 * i + 8 + 8 * (j - i) = d + 8 * Suc j" using False by auto
    ultimately show ?thesis using False by (simp add: ptr_at_def)
  qed
  have "da_list (fst (dynarray_remove_index (int i) arr h)) (snd (dynarray_remove_index (int i) arr h))
      = map (ptr_at ?m d) [0..<n - 1]"
    unfolding dynarray_remove_index_def Let_def w c
    by (simp add: da_list_def memmove_correct dst s(1) n1 flip: d_def)
  also have "\<dots> = take i (da_list arr h) @ drop (Suc i) (da_list arr h)"
    using s(2) by (intro nth_equalityI) (auto simp: da_list_def at [simplified] nth_append s(1) simp flip: d_def)
  finally show ?thesis .
qed

section \<open>Blocks of other components\<close>

text \<open>The list of processes is a growing array in the kernel's heap; nothing is ever added to it.\<close>

definition init_process_list :: "sched \<Rightarrow> (dynarray \<times> sched) option" where
  "init_process_list s = do {
     (l, h, p) \<leftarrow> dynarray_init map_heap_page (kheap s) (kpages s);
     Some (l, s\<lparr>kheap := h, kpages := p\<rparr>) }"

text \<open>Blocks are named by their addresses: the data of a sorted list, then the list itself.\<close>

definition sorted_list_free :: "nat \<Rightarrow> nat \<Rightarrow> heap \<Rightarrow> heap option" where
  "sorted_list_free l_data l h = do { h \<leftarrow> free l_data h; free l h }"

definition cb_free :: "nat \<Rightarrow> heap \<Rightarrow> heap option" where
  "cb_free cb h = free cb h"

definition de_INIT_FILESYSTEM :: "nat \<Rightarrow> nat \<Rightarrow> nat \<Rightarrow> heap \<Rightarrow> heap option" where
  "de_INIT_FILESYSTEM boot_sector FAT_TABLE root_dir h = do {
     h \<leftarrow> free boot_sector h;
     h \<leftarrow> free FAT_TABLE h;
     free root_dir h }"

lemma sorted_list_free_releases:
  assumes "heap_rep h L" and "(d, n) \<in> L" and "(l, k) \<in> L" and "d \<noteq> l"
  shows "\<exists>h'. sorted_list_free d l h = Some h' \<and> heap_rep h' (L - {(d, n), (l, k)})"
proof -
  from heap_rep_free [OF assms(1,2)] obtain h1 where h1: "free d h = Some h1" "heap_rep h1 (L - {(d, n)})" by blast
  moreover have "(l, k) \<in> L - {(d, n)}" using assms(3,4) by simp
  from heap_rep_free [OF h1(2) this] obtain h2 where "free l h1 = Some h2" "heap_rep h2 (L - {(d, n)} - {(l, k)})"
    by blast
  moreover have "L - {(d, n)} - {(l, k)} = L - {(d, n), (l, k)}" by blast
  ultimately show ?thesis by (simp add: sorted_list_free_def)
qed

lemma de_INIT_FILESYSTEM_releases:
  assumes "heap_rep h {(b, x), (f, y), (r, z)}" and "b \<noteq> f" "b \<noteq> r" "f \<noteq> r"
  shows "\<exists>h'. de_INIT_FILESYSTEM b f r h = Some h' \<and> heap_rep h' {}"
proof -
  from heap_rep_free [OF assms(1), of b x] obtain h1 where h1: "free b h = Some h1"
    "heap_rep h1 ({(b, x), (f, y), (r, z)} - {(b, x)})" by blast
  have "{(b, x), (f, y), (r, z)} - {(b, x)} = {(f, y), (r, z)}" using assms(2,3) by auto
  with h1(2) sorted_list_free_releases [of h1 "{(f, y), (r, z)}" f y r z] assms(4) obtain h2 where
    "sorted_list_free f r h1 = Some h2" "heap_rep h2 {}" by auto
  with h1(1) show ?thesis by (simp add: de_INIT_FILESYSTEM_def sorted_list_free_def)
qed

end
