(* ===== verification/Smp.thy ===== *)
theory Smp
  imports CString
begin

text \<open>
  Counting processors (\<open>kernel/src/smp.c\<close>): the walk over the ACPI tables a root table points to,
  and over the records of the one that describes the interrupt controllers.  The tables are
  bytes of the machine's memory.  The walk over the records is shown to collect the enabled
  local controllers in order, and not to end on a record of length 0.
\<close>

section \<open>The root pointer\<close>

record RSDPDescriptor =
  Signature :: "u8 list"
  Checksum :: u8
  OEMID :: "u8 list"
  Revision :: u8
  RsdtAddress :: u32

record RSDPDescriptor20 =
  firstPart :: RSDPDescriptor
  rsdp_Length :: u32
  XsdtAddress :: u64
  ExtendedChecksum :: u8
  rsdp_reserved :: "u8 list"

section \<open>State\<close>

record cores =
  lapic_ids :: "u8 list"
  numcore :: u8
  lapic_ptr :: u64
  ioapic_ptr :: u64

definition no_cores :: cores where
  "no_cores = \<lparr>lapic_ids = replicate 256 0, numcore = 0, lapic_ptr = 0, ioapic_ptr = 0\<rparr>"

definition rd32 :: "mem \<Rightarrow> nat \<Rightarrow> u32" where
  "rd32 m p = le32 (m p) (m (p + 1)) (m (p + 2)) (m (p + 3))"

definition rd64 :: "mem \<Rightarrow> nat \<Rightarrow> u64" where
  "rd64 m p = ucast (rd32 m p) OR push_bit 32 (ucast (rd32 m (p + 4)))"

section \<open>The walk\<close>

text \<open>The \<open>switch\<close>: an enabled local controller, an I/O controller, a 64-bit controller address.\<close>

definition madt_entry :: "mem \<Rightarrow> nat \<Rightarrow> cores \<Rightarrow> cores" where
  "madt_entry m p c =
     (if m p = 0 then
        (if m (p + 4) AND 1 \<noteq> 0
         then c\<lparr>lapic_ids := (lapic_ids c)[unat (numcore c) := m (p + 3)], numcore := numcore c + 1\<rparr> else c)
      else if m p = 1 then c\<lparr>ioapic_ptr := ucast (rd32 m (p + 4))\<rparr>
      else if m p = 5 then c\<lparr>lapic_ptr := rd64 m (p + 4)\<rparr>
      else c)"

text \<open>\<open>for(ptr += 44; ptr < ptr2; ptr += ptr[1])\<close>: a record of length 0 is visited for ever.\<close>

partial_function (option) madt_loop :: "mem \<Rightarrow> nat \<Rightarrow> nat \<Rightarrow> cores \<Rightarrow> cores option" where
  "madt_loop m ptr2 p c =
     (if p < ptr2 then madt_loop m ptr2 (p + unat (m (p + 1))) (madt_entry m p c) else Some c)"

definition read_madt :: "mem \<Rightarrow> nat \<Rightarrow> cores \<Rightarrow> cores option" where
  "read_madt m p c =
     madt_loop m (p + unat (rd32 m (p + 4))) (p + 44) (c\<lparr>lapic_ptr := rd64 m (p + 0x24)\<rparr>)"

text \<open>The step of the table pointers and the table one of them points at.\<close>

definition is_xsdt :: "mem \<Rightarrow> nat \<Rightarrow> bool" where
  "is_xsdt m rsdt \<longleftrightarrow> m rsdt = 0x58"

definition table_ptr :: "mem \<Rightarrow> nat \<Rightarrow> nat \<Rightarrow> nat" where
  "table_ptr m rsdt p = (if is_xsdt m rsdt then unat (rd64 m p) else unat (rd32 m p))"

function find_madt :: "mem \<Rightarrow> nat \<Rightarrow> nat \<Rightarrow> nat \<Rightarrow> cores \<Rightarrow> cores option" where
  "find_madt m rsdt len ptr2 c =
     (if ptr2 < rsdt + len then
        (let p = table_ptr m rsdt ptr2
         in if rd_bytes m p 4 = of_str ''APIC'' then read_madt m p c
            else find_madt m rsdt len (ptr2 + (if is_xsdt m rsdt then 8 else 4)) c)
      else Some c)"
  by pat_completeness auto
termination
  by (relation "measure (\<lambda>(m, r, l, p, c). r + l - p)") (auto simp: Let_def)

declare find_madt.simps [simp del]

text \<open>The reports go to the console and are left out.\<close>

definition detect_cores :: "mem \<Rightarrow> nat \<Rightarrow> cores \<Rightarrow> cores option" where
  "detect_cores m rsdt c = find_madt m rsdt (unat (rd32 m (rsdt + 4))) (rsdt + 36) c"

section \<open>Well-formed records\<close>

text \<open>The addresses of the records from \<open>p\<close> up to \<open>e\<close>, each at least as long as its header.\<close>

inductive records :: "mem \<Rightarrow> nat \<Rightarrow> nat \<Rightarrow> nat list \<Rightarrow> bool" for m e where
  stop: "e \<le> p \<Longrightarrow> records m e p []"
| more: "p < e \<Longrightarrow> 0 < m (p + 1) \<Longrightarrow> records m e (p + unat (m (p + 1))) ps \<Longrightarrow> records m e p (p # ps)"

inductive_cases records_NilE: "records m e p []"
inductive_cases records_ConsE: "records m e p (q # qs)"
inductive_simps records_Nil [simp]: "records m e p []"
inductive_simps records_Cons: "records m e p (q # qs)"

lemma madt_loop_records: "records m e p ps \<Longrightarrow> madt_loop m e p c = Some (fold (madt_entry m) ps c)"
proof (induction arbitrary: c rule: records.induct)
  case (stop p)
  then show ?case by (subst madt_loop.simps) simp
next
  case (more p ps)
  then show ?case by (subst madt_loop.simps) simp
qed

text \<open>Walks that visit no empty record describe records: the walk ends exactly then.\<close>

lemma madt_loop_zero: "p < e \<Longrightarrow> m (p + 1) = 0 \<Longrightarrow> madt_loop m e p c = None"
proof -
  assume a: "p < e" "m (p + 1) = 0"
  have "madt_loop m' e' p' c' = Some r \<Longrightarrow> m' = m \<and> e' = e \<and> p' = p \<longrightarrow> False" for m' e' p' c' r
  proof (rule madt_loop.raw_induct [of "\<lambda>m' e' p' c' r. m' = m \<and> e' = e \<and> p' = p \<longrightarrow> False" m' e' p' c' r])
    fix f m' ptr2 p' c' y
    assume "\<And>m' e' p' c' y. f m' e' p' c' = Some y \<Longrightarrow> m' = m \<and> e' = e \<and> p' = p \<longrightarrow> False"
      "(if p' < ptr2 then f m' ptr2 (p' + unat (m' (p' + 1))) (madt_entry m' p' c') else Some c') = Some y"
    then show "m' = m \<and> ptr2 = e \<and> p' = p \<longrightarrow> False" using a by fastforce
  qed assumption
  then show ?thesis by (cases "madt_loop m e p c") blast+
qed

lemma madt_loop_total:
  "(\<forall>q. p \<le> q \<and> q < e \<longrightarrow> 0 < m (q + 1)) \<Longrightarrow> \<exists>ps. records m e p ps"
proof (induction "e - p" arbitrary: p rule: less_induct)
  case less
  show ?case
  proof (cases "p < e")
    case True
    then have pos: "0 < m (p + 1)" using less.prems by simp
    then have "0 < unat (m (p + 1))" by (simp add: word_less_nat_alt)
    then have "e - (p + unat (m (p + 1))) < e - p" using True by linarith
    from less.hyps [OF this] less.prems obtain ps where "records m e (p + unat (m (p + 1))) ps" by auto
    then show ?thesis using records.more [OF True] pos by blast
  qed (auto intro: exI [of _ "[]"])
qed

section \<open>The processors found\<close>

text \<open>The identifiers of the enabled local controllers among the records.\<close>

definition enabled_ids :: "mem \<Rightarrow> nat list \<Rightarrow> u8 list" where
  "enabled_ids m ps = map (\<lambda>p. m (p + 3)) (filter (\<lambda>p. m p = 0 \<and> m (p + 4) AND 1 \<noteq> 0) ps)"

lemma entries_collect:
  assumes "length (lapic_ids c) = 256" "unat (numcore c) + length (enabled_ids m ps) < 256"
  shows "unat (numcore (fold (madt_entry m) ps c)) = unat (numcore c) + length (enabled_ids m ps) \<and>
    take (unat (numcore c) + length (enabled_ids m ps)) (lapic_ids (fold (madt_entry m) ps c))
      = take (unat (numcore c)) (lapic_ids c) @ enabled_ids m ps"
  using assms
proof (induction ps arbitrary: c)
  case Nil
  then show ?case by (simp add: enabled_ids_def)
next
  case (Cons p ps)
  show ?case
  proof (cases "m p = 0 \<and> m (p + 4) AND 1 \<noteq> 0")
    case True
    let ?c = "madt_entry m p c"
    have e: "enabled_ids m (p # ps) = m (p + 3) # enabled_ids m ps" using True by (simp add: enabled_ids_def)
    have k: "unat (numcore c) < 255" using Cons.prems(2) e by simp
    have n: "unat (numcore ?c) = Suc (unat (numcore c))"
      using True k by (simp add: madt_entry_def unat_word_ariths)
    have "lapic_ids ?c = (lapic_ids c)[unat (numcore c) := m (p + 3)]" using True by (simp add: madt_entry_def)
    then have l: "length (lapic_ids ?c) = 256"
      "take (Suc (unat (numcore c))) (lapic_ids ?c) = take (unat (numcore c)) (lapic_ids c) @ [m (p + 3)]"
      using Cons.prems(1) k by (simp_all add: take_Suc_conv_app_nth)
    show ?thesis using Cons.IH [of ?c] Cons.prems(2) l n e by simp
  next
    case False
    then have "enabled_ids m (p # ps) = enabled_ids m ps" "lapic_ids (madt_entry m p c) = lapic_ids c"
      "numcore (madt_entry m p c) = numcore c"
      by (auto simp: enabled_ids_def madt_entry_def)
    then show ?thesis using Cons.IH [of "madt_entry m p c"] Cons.prems by simp
  qed
qed

text \<open>The root table's pointers from \<open>p\<close> up to \<open>e\<close>, \<open>s\<close> bytes apart.\<close>

definition table_list :: "mem \<Rightarrow> nat \<Rightarrow> nat \<Rightarrow> nat \<Rightarrow> nat list" where
  "table_list m rsdt p e =
     (let s = (if is_xsdt m rsdt then 8 else 4)
      in map (\<lambda>i. table_ptr m rsdt (p + s * i)) [0..<((s - 1) + (e - p)) div s])"

lemma table_list_end: "e \<le> p \<Longrightarrow> table_list m rsdt p e = []"
  by (simp add: table_list_def)

lemma table_list_step:
  assumes "p < e"
  shows "table_list m rsdt p e = table_ptr m rsdt p # table_list m rsdt (p + (if is_xsdt m rsdt then 8 else 4)) e"
proof -
  have *: "map (\<lambda>i. f (p + s * i)) [0..<((s - 1) + (e - p)) div s] = f p # map (\<lambda>i. f (p + s + s * i)) [0..<((s - 1) + (e - (p + s))) div s]"
    if s: "0 < s" for s and f :: "nat \<Rightarrow> nat"
  proof -
    have "((s - 1) + (e - p)) div s = Suc (((s - 1) + (e - (p + s))) div s)"
    proof (cases "e - p \<le> s")
      case True
      then have "((s - 1) + (e - p)) div s = 1" using assms s by (intro div_nat_eqI) auto
      then show ?thesis using True s by simp
    next
      case False
      then have "(s - 1) + (e - p) = s + ((s - 1) + (e - (p + s)))" by simp
      then show ?thesis using s by (simp only: div_add_self1 Suc_eq_plus1)
    qed
    then show ?thesis
      by (simp only: upt_conv_Cons [OF zero_less_Suc] list.map mult_0_right add_0_right map_Suc_upt [symmetric] map_map)
         (simp add: o_def add.assoc)
  qed
  show ?thesis using * [of 8 "table_ptr m rsdt"] * [of 4 "table_ptr m rsdt"] by (simp add: table_list_def Let_def)
qed

definition is_madt :: "mem \<Rightarrow> nat \<Rightarrow> bool" where
  "is_madt m a \<longleftrightarrow> rd_bytes m a 4 = of_str ''APIC''"

lemma find_madt_first:
  "find_madt m rsdt len p c =
     (case find (is_madt m) (table_list m rsdt p (rsdt + len)) of None \<Rightarrow> Some c | Some a \<Rightarrow> read_madt m a c)"
proof (induction m rsdt len p c rule: find_madt.induct)
  case (1 m rsdt len p c)
  show ?case
  proof (cases "p < rsdt + len")
    case False
    then show ?thesis by (subst find_madt.simps) (simp add: table_list_end)
  next
    case True
    then show ?thesis
      using 1 [OF True refl] by (subst find_madt.simps) (auto simp: table_list_step Let_def is_madt_def [abs_def])
  qed
qed

text \<open>
  When the root table has a table of interrupt controllers and its records have a length,
  the detection returns, and the processors it reports are the enabled local controllers of
  the first such table, in their order.
\<close>

theorem cores_detected:
  assumes "find (is_madt m) (table_list m rsdt (rsdt + 36) (rsdt + unat (rd32 m (rsdt + 4)))) = Some a"
    and "records m (a + unat (rd32 m (a + 4))) (a + 44) ps" "length (enabled_ids m ps) < 256"
  shows "\<exists>c. detect_cores m rsdt no_cores = Some c \<and> unat (numcore c) = length (enabled_ids m ps) \<and>
    take (length (enabled_ids m ps)) (lapic_ids c) = enabled_ids m ps"
  using assms entries_collect [of "no_cores\<lparr>lapic_ptr := rd64 m (a + 0x24)\<rparr>" m ps]
  by (simp add: detect_cores_def find_madt_first read_madt_def madt_loop_records no_cores_def)

text \<open>Two tables, the second of which has one enabled and one disabled controller.\<close>

definition acpi_mem :: mem where
  "acpi_mem = (\<lambda>_. 0)(4 := 44, 36 := 0x30, 40 := 0x40, 0x40 := 65, 0x41 := 80, 0x42 := 73, 0x43 := 67, 0x44 := 60,
     109 := 8, 111 := 7, 112 := 1, 117 := 8, 119 := 9)"

lemma acpi_words: "rd32 acpi_mem 4 = 44" "rd32 acpi_mem 36 = 48" "rd32 acpi_mem 40 = 64" "rd32 acpi_mem 68 = 60"
  by (simp_all add: rd32_def le32_def acpi_mem_def)

lemma acpi_not_xsdt: "\<not> is_xsdt acpi_mem 0"
  by (simp add: is_xsdt_def acpi_mem_def)

lemma acpi_table: "find (is_madt acpi_mem) (table_list acpi_mem 0 36 44) = Some 64"
proof -
  have "table_list acpi_mem 0 36 44 = [48, 64]"
    using acpi_not_xsdt by (simp add: table_list_def Let_def table_ptr_def acpi_words upt_conv_Cons)
  moreover have "rd_bytes acpi_mem 48 4 = [0, 0, 0, 0]" "rd_bytes acpi_mem 64 4 = [65, 80, 73, 67]"
    by (simp_all add: rd_bytes_def upt_conv_Cons acpi_mem_def)
  ultimately show ?thesis by (simp add: is_madt_def of_str_def)
qed

lemma acpi_records: "records acpi_mem 124 108 [108, 116]"
  by (simp add: records_Cons acpi_mem_def)

theorem cores_detected_witness:
  "\<exists>c. detect_cores acpi_mem 0 no_cores = Some c \<and> unat (numcore c) = 1 \<and> take 1 (lapic_ids c) = [7]"
proof -
  have "enabled_ids acpi_mem [108, 116] = [7]" by (simp add: enabled_ids_def acpi_mem_def)
  then show ?thesis
    using cores_detected [of acpi_mem 0 64 "[108, 116]"] acpi_table acpi_records by (simp add: acpi_words)
qed

end
