(* ===== verification/Terminals.thy ===== *)
theory Terminals
  imports Process Console
begin

text \<open>
  Terminals and the kernel threads that feed them: a framebuffer in fresh pages
  (\<open>kernel/src/graphics.c\<close>), the terminal of a number with its pair of pipes (\<open>kernel/src/tty.c\<close>),
  \<open>kprintf\<close> (\<open>kernel/src/stdio.c\<close>), the thread that copies the current terminal to the screen
  (\<open>kernel/src/scheduler.c\<close>), \<open>sleep\<close> (\<open>kernel/src/pit.c\<close>) and the loop in which the kernel
  shows what was written to a terminal's pipe (\<open>kernel/src/kernel.c\<close>).
\<close>

section \<open>Critical sections\<close>

text \<open>Of the flags only the interrupt flag, bit 9, is kept.\<close>

definition enter_critical :: "sched \<Rightarrow> u64 \<times> sched" where
  "enter_critical s = (if interrupts s then 0x200 else 0, s\<lparr>interrupts := False\<rparr>)"

definition exit_critical :: "u64 \<Rightarrow> sched \<Rightarrow> sched" where
  "exit_critical fl s = (if fl AND 0x200 \<noteq> 0 then s\<lparr>interrupts := True\<rparr> else s)"

lemma critical_restores:
  "enter_critical s = (fl, s1) \<Longrightarrow> interrupts s2 = interrupts s1 \<Longrightarrow> interrupts (exit_critical fl s2) = interrupts s"
  by (auto simp: enter_critical_def exit_critical_def split: if_splits)

section \<open>Framebuffers and terminals\<close>

text \<open>
  \<open>width*height*4\<close> is a \<open>uint32_t\<close>.  \<open>fresh n\<close> is what \<open>n\<close> new pixels hold; 32 is
  \<open>sizeof(Framebuffer)\<close>.
\<close>

definition alloc_framebuffer ::
  "(nat \<Rightarrow> u32 list) \<Rightarrow> u32 \<Rightarrow> u32 \<Rightarrow> u64 \<Rightarrow> sched \<Rightarrow> (Framebuffer \<times> sched) option" where
  "alloc_framebuffer fresh width height addr s = do {
     let bytes = unat (width * height * 4);
     p \<leftarrow> request_mapped_pages addr bytes (kpages s);
     (fb, s) \<leftarrow> kmalloc_k 32 (s\<lparr>kpages := p\<rparr>);
     Some (\<lparr>pixels = take (bytes div 4) (fresh (bytes div 4)), Width = width, Height = height,
            PixelsPerScanLine = width\<rparr>, s) }"

definition tty_address :: "int \<Rightarrow> u64" where
  "tty_address n = of_int (0x6000000000 + 0x100000000 * n)"

text \<open>
  \<open>fn\<close> is an uninitialised array of 256 bytes, \<open>junk\<close>.  The graphics context takes 48 bytes and the
  terminal 32.
\<close>

definition init_tty ::
  "'d double_ops \<Rightarrow> u8 list \<Rightarrow> (nat \<Rightarrow> u32 list) \<Rightarrow> graphics_context \<Rightarrow> int \<Rightarrow> bitmap_font \<Rightarrow> sys \<times> sched
     \<Rightarrow> (tty \<times> sys \<times> sched) option" where
  "init_tty D junk fresh global n fnt st = do {
     let (y, s) = st;
     let (fl, s) = enter_critical s;
     (fn, k) \<leftarrow> ksprintf D (take 256 junk) (of_str ''/dev/tty%d'' @ [0]) [Word64 (nat (n mod 2 ^ 64))];
     (r, y) \<leftarrow> mkdir fn y;
     (r, y) \<leftarrow> chdir fn y;
     (r, y) \<leftarrow> mkfifo (of_str ''tty_in'' @ [0]) y;
     (r, y) \<leftarrow> mkfifo (of_str ''tty_out'' @ [0]) y;
     (r, y) \<leftarrow> chdir (of_str ''../..'' @ [0]) y;
     (fb, s) \<leftarrow> alloc_framebuffer fresh (Width (buf global)) (Height (buf global)) (tty_address n) s;
     (ga, s) \<leftarrow> kmalloc_k 48 s;
     gc \<leftarrow> init_text_overlay fb fnt;
     (ta, s) \<leftarrow> kmalloc_k 32 s;
     Some (init_tty_0 gc, y, exit_critical fl s) }"

text \<open>The framebuffers of the ten terminals are mapped at addresses their sizes cannot bridge.\<close>

lemma tty_framebuffers_apart:
  assumes "0 \<le> a" "a < b" "b < 10"
  shows "unat (tty_address a) + unat (w * h * 4 :: u32) \<le> unat (tty_address b)"
proof -
  have u: "int (unat (tty_address n)) = 0x6000000000 + 0x100000000 * n" if "0 \<le> n" "n < 10" for n
  proof -
    have "uint (tty_address n) = 0x6000000000 + 0x100000000 * n"
      unfolding tty_address_def unsigned_of_int using that by (subst take_bit_int_eq_self) simp_all
    then show ?thesis by simp
  qed
  have "uint (w * h * 4) < 2 ^ LENGTH(32)" by (rule unsigned_less)
  then have "int (unat (w * h * 4)) < 0x100000000" by simp
  moreover have "0x100000000 * a + 0x100000000 \<le> 0x100000000 * b" using assms(2) by simp
  ultimately have "int (unat (tty_address a)) + int (unat (w * h * 4)) \<le> int (unat (tty_address b))"
    using u [of a] u [of b] assms by linarith
  then show ?thesis by linarith
qed

section \<open>kprintf\<close>

definition kprintf :: "'d double_ops \<Rightarrow> u8 list \<Rightarrow> 'd va_arg list \<Rightarrow> tty \<Rightarrow> (nat \<times> tty) option" where
  "kprintf D format ap tty0 = do {
     (b, i) \<leftarrow> kprintf_text D format ap;
     tt \<leftarrow> tty_write tty0 b;
     Some (i, tt) }"

text \<open>A text of 512 bytes or more does not fit the array.\<close>

lemma kprintf_overruns: "kvsprintf D format ap = Some s \<Longrightarrow> 512 \<le> length s \<Longrightarrow> kprintf D format ap tt = None"
  by (simp add: kprintf_def kprintf_text_def ksprintf_def blk_put_def)

section \<open>Kernel threads\<close>

text \<open>One round of the demonstration threads; \<open>now100\<close> is \<open>(uint64_t)(TimeSinceBoot*100)\<close>.\<close>

definition thread_function_round :: "'d double_ops \<Rightarrow> u64 \<Rightarrow> 'd \<Rightarrow> tty \<Rightarrow> tty option" where
  "thread_function_round D thread_id now tt =
     map_option snd (kprintf D (of_str ''Thread %u %f'' @ [10, 0]) [Word64 (unat thread_id), Dbl now] tt)"

definition t3_round :: "'d double_ops \<Rightarrow> u64 \<Rightarrow> tty \<Rightarrow> tty option" where
  "t3_round D now100 tt =
     map_option snd (kprintf D ([27] @ of_str ''[s'' @ [27] @ of_str ''[30;0H%u %u %u'' @ [27] @ of_str ''[u'' @ [0])
       [Word64 (unat now100), Word64 30, Word64 0] tt)"

definition sacrificial :: "'d double_ops \<Rightarrow> tty \<Rightarrow> tty option" where
  "sacrificial D tt = map_option snd (kprintf D (of_str ''sac thread started'' @ [0]) [] tt)"

text \<open>The locals of \<open>vsync\<close>.\<close>

record 'd vsync =
  last_frame :: "'d list"
  fps_text :: "u8 list"
  fps :: 'd
  frame_count :: int

definition vsync_start :: "'d \<Rightarrow> 'd vsync" where
  "vsync_start zero = \<lparr>last_frame = replicate 60 zero, fps_text = replicate 32 0, fps = zero, frame_count = 0\<rparr>"

text \<open>
  One round: \<open>cur\<close> is the current context when it is not the global one, \<open>pos\<close> the mouse position,
  \<open>now\<close> the time and \<open>rate newest oldest\<close> the frames per second of 60 frames.
\<close>

definition vsync_round ::
  "'d double_ops \<Rightarrow> ('d \<Rightarrow> 'd \<Rightarrow> 'd) \<Rightarrow> 'd \<Rightarrow> int \<times> int \<Rightarrow> graphics_context option \<Rightarrow> 'd vsync \<times> graphics_context
     \<Rightarrow> ('d vsync \<times> graphics_context) option" where
  "vsync_round D rate now pos cur st = (case (st, cur) of
     ((v, gl), Some gc) \<Rightarrow> do {
       let v = v\<lparr>last_frame := now # butlast (last_frame v)\<rparr>;
       fb \<leftarrow> swap_buffer pos (buf gl) (buf gc);
       let gl = gl\<lparr>buf := fb\<rparr>;
       let x = cursor_x gl;
       let y = cursor_y gl;
       let gl = gl\<lparr>cursor_x := 10, cursor_y := console_height gl - 1\<rparr>;
       let v = v\<lparr>frame_count := frame_count v + 1\<rparr>;
       v \<leftarrow> (if 10 < frame_count v then do {
               old \<leftarrow> arr_get (last_frame v) 59;
               new \<leftarrow> arr_get (last_frame v) 0;
               let f = rate new old;
               (txt, k) \<leftarrow> ksprintf D (replicate 32 0) (of_str ''%f'' @ [0]) [Dbl f];
               Some (v\<lparr>frame_count := 0, fps := f, fps_text := txt\<rparr>) }
             else Some v);
       gl \<leftarrow> Console.print gl (fps_text v);
       Some (v, gl\<lparr>cursor_x := x, cursor_y := y\<rparr>) }
   | ((v, gl), None) \<Rightarrow> do {
       fb \<leftarrow> draw_mouse pos (buf gl);
       Some (v, gl\<lparr>buf := fb\<rparr>) })"

text \<open>The thread leaves the cursor of the global context where it was.\<close>

lemma vsync_keeps_cursor:
  "vsync_round D rate now pos cur (v, gl) = Some (v', gl') \<Longrightarrow> cursor_x gl' = cursor_x gl \<and> cursor_y gl' = cursor_y gl"
  by (cases cur) (auto simp: vsync_round_def Let_def split: Option.bind_splits prod.splits if_splits)

text \<open>
  \<open>sleep\<close>: \<open>now k\<close> is the time at the \<open>k\<close>-th check; the wait is a yield or a halt, of which the
  next check is all that is seen.  The result is the number of waits.
\<close>

partial_function (option) sleep_loop :: "('d \<Rightarrow> 'd \<Rightarrow> bool) \<Rightarrow> (nat \<Rightarrow> 'd) \<Rightarrow> 'd \<Rightarrow> nat \<Rightarrow> nat option" where
  "sleep_loop before now until k = (if before (now k) until then sleep_loop before now until (k + 1) else Some k)"

definition sleep :: "('d \<Rightarrow> 'd \<Rightarrow> bool) \<Rightarrow> ('d \<Rightarrow> u64 \<Rightarrow> 'd) \<Rightarrow> (nat \<Rightarrow> 'd) \<Rightarrow> u64 \<Rightarrow> nat option" where
  "sleep before later now miliseconds = sleep_loop before now (later (now 0) miliseconds) 0"

lemma sleep_loop_first:
  "\<not> before (now (k + n)) until \<Longrightarrow> \<exists>j. sleep_loop before now until k = Some j \<and> k \<le> j \<and> j \<le> k + n \<and> \<not> before (now j) until"
proof (induction n arbitrary: k)
  case 0
  then show ?case by (subst sleep_loop.simps) auto
next
  case (Suc n)
  show ?case
  proof (cases "before (now k) until")
    case True
    then show ?thesis using Suc.IH [of "k + 1"] Suc.prems by (subst sleep_loop.simps) fastforce
  next
    case False
    then show ?thesis by (subst sleep_loop.simps) auto
  qed
qed

text \<open>If time reaches the end, \<open>sleep\<close> returns, and not before the end.\<close>

lemma sleep_returns:
  "\<not> before (now n) (later (now 0) ms) \<Longrightarrow> \<exists>j. sleep before later now ms = Some j \<and> j \<le> n \<and> \<not> before (now j) (later (now 0) ms)"
  using sleep_loop_first [of before now 0 n "later (now 0) ms"] by (auto simp: sleep_def)

section \<open>The kernel's loop\<close>

text \<open>One round of the \<open>while(1)\<close> of \<open>_start\<close>: the pipe is read into a cleared array and written to the terminal.\<close>

definition pump_round :: "int \<Rightarrow> sys \<times> tty \<Rightarrow> (sys \<times> tty) option" where
  "pump_round tout st = (case st of (y, tt) \<Rightarrow> do {
     (r, b, y) \<leftarrow> sys_read tout (replicate 64 0) 63 y;
     c \<leftarrow> arr_get b 0;
     tt \<leftarrow> (if c \<noteq> 0 then tty_write tt b else Some tt);
     Some (y, tt) })"

section \<open>From a write to the screen\<close>

lemma tty_write_rest: "cstr s \<Longrightarrow> tty_write tt (s @ 0 # r) = tty_write tt (s @ [0])"
  by (induction s arbitrary: tt) auto

lemma slots_1: "map (slot 1 (bs @ r)) [0..<length bs] = map (\<lambda>b. [b]) bs"
proof -
  have "concat (map (\<lambda>b. [b]) bs) = bs" by (induction bs) auto
  then show ?thesis using concat_slots [of "map (\<lambda>b. [b]) bs" 1 "length bs" r] by simp
qed

lemma concat_single [simp]: "concat (map (\<lambda>b. [b]) bs) = bs"
  by (induction bs) auto

text \<open>\<open>pipe_holds y b N bs\<close>: node \<open>b\<close> is a pipe of capacity \<open>N\<close> holding the bytes \<open>bs\<close>.\<close>

definition pipe_holds :: "vfs \<Rightarrow> nat \<Rightarrow> nat \<Rightarrow> u8 list \<Rightarrow> bool" where
  "pipe_holds s b N bs \<longleftrightarrow> (\<exists>n cb. nodes s b = Some n \<and> flags n AND VFS_PIPE \<noteq> 0 \<and> data_cache n = Queue cb \<and>
     cb_rep 1 N cb (map (\<lambda>b. [b]) bs))"

lemma pipe_write:
  assumes "pipe_holds s b N bs" "length bs + length w \<le> N"
  shows "\<exists>s'. vfs_write b w off (length w) s = Some (int (length w), s') \<and> pipe_holds s' b N (bs @ w)"
proof -
  obtain n cb where n: "nodes s b = Some n" "flags n AND VFS_PIPE \<noteq> 0" "data_cache n = Queue cb"
    "cb_rep 1 N cb (map (\<lambda>b. [b]) bs)" using assms(1) by (auto simp: pipe_holds_def)
  have k: "min (length w) (N - length (map (\<lambda>b. [b]) bs)) = length w" using assms(2) by simp
  obtain cb' x' where p: "cb_push cb (exp_false s) w (length w) = Some (cb', x', length w)"
    "cb_rep 1 N cb' (map (\<lambda>b. [b]) bs @ map (slot 1 w) [0..<length w])"
    using cb_push_rep [OF n(4), of "length w" w "exp_false s"] unfolding k by auto
  then show ?thesis using n slots_1 [of w "[]"]
    by (auto simp: vfs_write_def vfs_pipe_write_def pipe_holds_def put_node_def)
qed

lemma pipe_read:
  assumes "pipe_holds s b N bs" "k \<le> length dst"
  shows "\<exists>s'. vfs_read b dst off k s = Some (int (min k (length bs)), take k bs @ drop (min k (length bs)) dst, s') \<and>
    pipe_holds s' b N (drop k bs)"
proof -
  obtain n cb where n: "nodes s b = Some n" "flags n AND VFS_PIPE \<noteq> 0" "data_cache n = Queue cb"
    "cb_rep 1 N cb (map (\<lambda>b. [b]) bs)" using assms(1) by (auto simp: pipe_holds_def)
  obtain cb' x' where p: "cb_pop cb (exp_false s) dst k =
      Some (cb', x', concat (take k (map (\<lambda>b. [b]) bs)) @ drop (min k (length (map (\<lambda>b. [b]) bs)) * 1) dst,
        min k (length (map (\<lambda>b. [b]) bs)))" "cb_rep 1 N cb' (drop k (map (\<lambda>b. [b]) bs))"
    using cb_pop_rep [OF n(4), of k dst "exp_false s"] assms(2) by auto
  then show ?thesis using n
    by (auto simp: vfs_read_def vfs_pipe_read_def pipe_holds_def put_node_def take_map drop_map)
qed

text \<open>A round of the kernel's loop shows what the pipe holds, up to 63 bytes, and takes it out.\<close>

lemma pump_shows:
  assumes "ft_get (process_file_table y) f = Some (p, e)" "pipe_holds (fs y) (base e) N bs" "cstr bs"
    "tty_write tt (take 63 bs @ [0]) = Some tt'"
  shows "\<exists>y'. pump_round f (y, tt) = Some (y', tt') \<and> pipe_holds (fs y') (base e) N (drop 63 bs)"
proof -
  let ?k = "min 63 (length bs)"
  let ?b = "take 63 bs @ drop ?k (replicate 64 0)"
  obtain s' where s: "vfs_read (base e) (replicate 64 0) (size_of (seek_offset e)) 63 (fs y)
      = Some (int ?k, ?b, s')" "pipe_holds s' (base e) N (drop 63 bs)"
    using pipe_read [OF assms(2), of 63 "replicate 64 0"] by auto
  then obtain n where n: "nodes s' (base e) = Some n" by (auto simp: pipe_holds_def)
  have b: "?b = take 63 bs @ 0 # replicate (63 - ?k) 0"
  proof -
    have "64 - ?k = Suc (63 - ?k)" by linarith
    then show ?thesis by (simp only: drop_replicate replicate_Suc)
  qed
  have c: "cstr (take 63 bs)" using assms(3) by (auto simp: cstr_def dest: in_set_takeD)
  have first: "\<exists>x. arr_get ?b 0 = Some x \<and> (x = 0 \<longleftrightarrow> bs = [])"
    unfolding b using c by (cases bs) auto
  have "tty_write tt ?b = Some tt'" unfolding b by (rule trans [OF tty_write_rest [OF c] assms(4)])
  moreover have "bs = [] \<Longrightarrow> tt' = tt" using assms(4) by simp
  ultimately show ?thesis using assms(1) s n first
    by (auto simp: pump_round_def sys_read_def file_read_def Let_def simp del: drop_replicate)
qed

text \<open>
  C14.  What a process writes into a terminal's pipe, up to 63 bytes at a time, is what the next
  round of the kernel's loop writes on the terminal: through the descriptor tables of both,
  the file system and the circular buffer between them.
\<close>

theorem written_text_is_shown:
  assumes "ft_get (process_file_table y) f = Some (p, e)" "ft_get K g = Some (q, e')" "base e' = base e"
    and "pipe_holds (fs y) (base e) N []" "cstr s" "length s \<le> 63" "length s \<le> N"
    and "tty_write tt (s @ [0]) = Some tt'"
  shows "\<exists>y1 y2. sys_write f s (length s) y = Some (int (length s), y1) \<and>
    pump_round g (y1\<lparr>process_file_table := K\<rparr>, tt) = Some (y2, tt') \<and> pipe_holds (fs y2) (base e) N []"
proof -
  obtain s1 where s1: "vfs_write (base e) s (size_of (seek_offset e)) (length s) (fs y) = Some (int (length s), s1)"
    "pipe_holds s1 (base e) N s"
    using pipe_write [OF assms(4), of s "size_of (seek_offset e)"] assms(7) by auto
  then obtain y1 where y1: "sys_write f s (length s) y = Some (int (length s), y1)" "fs y1 = s1"
    using assms(1) by (auto simp: sys_write_def file_write_def)
  have "\<exists>y2. pump_round g (y1\<lparr>process_file_table := K\<rparr>, tt) = Some (y2, tt') \<and> pipe_holds (fs y2) (base e') N (drop 63 s)"
    by (rule pump_shows) (use assms s1(2) y1(2) in simp_all)
  then show ?thesis using y1(1) assms(3,6) by auto
qed

text \<open>A process with two descriptors of an empty pipe writes the start of an escape sequence.\<close>

definition sys_pipe :: sys where
  "sys_pipe = sys0\<lparr>fs := put_node 2 (boot0\<lparr>flags := VFS_PIPE, data_cache := Queue (cb_init 8 1 (replicate 8 0))\<rparr>) vfs0\<rparr>"

definition tty_blank :: tty where
  "tty_blank = init_tty_0 \<lparr>buf = \<lparr>pixels = [], Width = 0, Height = 0, PixelsPerScanLine = 0\<rparr>,
     font = \<lparr>numglyph = 0, bytesperglyph = 0, fheight = 0, fwidth = 0, glyphs = []\<rparr>, console_width = 0,
     console_height = 0, cursor_x = 0, cursor_y = 0, foreground_color = 0, background_color = 0\<rparr>"

theorem written_text_is_shown_witness:
  "\<exists>y1 y2 tt'. sys_write 0 [27, 91] 2 sys_pipe = Some (2, y1) \<and>
     pump_round 1 (y1\<lparr>process_file_table := process_file_table sys_pipe\<rparr>, tty_blank) = Some (y2, tt') \<and> reading_escape tt'"
proof -
  let ?K = "process_file_table sys_pipe"
  let ?e = "\<lparr>fd = 0, base = 2, seek_offset = 5\<rparr>" and ?e' = "\<lparr>fd = 1, base = 2, seek_offset = 0\<rparr>"
  have v: "ft_view ?K [8, 9]"
    by (simp add: ft_view_def sys_pipe_def sys0_def ft0_def ft_list_def sl_rep_def sl_holds_def fd_ok_def fd_of_def numeral_2_eq_2)
      (rule exI [of _ 1], simp)
  have e: "ft_get ?K 0 = Some (8, ?e)" "ft_get ?K 1 = Some (9, ?e')"
    using ft_get_present [OF v, of 8 ?e] ft_get_present [OF v, of 9 ?e']
    by (simp_all add: sys_pipe_def sys0_def ft0_def)
  have p: "pipe_holds (fs sys_pipe) (base ?e) 8 []"
    using cb_init_rep [of 8 "replicate 8 0" 1] by (simp add: pipe_holds_def sys_pipe_def put_node_def VFS_PIPE_def)
  obtain tt' where t: "tty_write tty_blank ([27, 91] @ [0]) = Some tt'" "reading_escape tt'"
    by (simp add: tty_blank_def init_tty_0_def tty_char_def)
  have l: "length [27, 91 :: u8] = 2" by simp
  have h: "base ?e' = base ?e" "cstr [27, 91]" "(2 :: nat) \<le> 63" "(2 :: nat) \<le> 8" by (simp_all add: cstr_def)
  from written_text_is_shown [OF e h(1) p h(2) _ _ t(1), unfolded l, OF h(3,4)] t(2) show ?thesis
    by (metis of_nat_numeral)
qed

end
