(* ===== verification/Handlers.thy ===== *)
theory Handlers
  imports Terminals Input Descriptors
begin

text \<open>
  The interrupt handlers (\<open>kernel/src/interrupt_handlers.c\<close>), which compose the port reads, the
  keyboard and mouse handlers and the acknowledgement, and the shell (\<open>kernel/src/shell.c\<close>).
\<close>

section \<open>Device interrupts\<close>

record interrupt_frame =
  if_ip :: u64
  if_cs :: u64
  if_flags :: u64
  if_sp :: u64
  if_ss :: u64
  if_err :: u64
  if_pad :: u64
  if_pad2 :: u64

definition Keyboard_Handler_c :: "device \<Rightarrow> keyboard \<times> io_trace \<Rightarrow> (key_result \<times> keyboard \<times> io_trace) option" where
  "Keyboard_Handler_c d st = (case st of (s, tr) \<Rightarrow> do {
     let (key, tr) = inb d 0x60 tr;
     (r, s) \<leftarrow> handle_key key s;
     Some (r, s, PIC_EndMaster tr) })"

definition Mouse_Handler_c ::
  "device \<Rightarrow> (mouse \<times> graphics_context) \<times> io_trace \<Rightarrow> ((mouse \<times> graphics_context) \<times> io_trace) option" where
  "Mouse_Handler_c d st = (case st of (s, tr) \<Rightarrow> do {
     let (key, tr) = inb d 0x60 tr;
     s \<leftarrow> HANDLE_PS2_MOUSE key s;
     Some (s, PIC_EndSlave tr) })"

text \<open>Each handler reads its device once and acknowledges to the controllers the interrupt came through.\<close>

lemma keyboard_acknowledged:
  "Keyboard_Handler_c d (s, tr) = Some (r, s', tr') \<Longrightarrow>
   tr' = [Outb 0x20 0x20, Inb 0x60 (dev8 d tr 0x60)] @ tr \<and> handle_key (dev8 d tr 0x60) s = Some (r, s')"
  by (auto simp: Keyboard_Handler_c_def inb_def outb_def PIC_EndMaster_def Let_def split: Option.bind_splits)

lemma mouse_acknowledged:
  "Mouse_Handler_c d (s, tr) = Some (s', tr') \<Longrightarrow>
   tr' = [Outb 0x20 0x20, Outb 0xA0 0x20, Inb 0x60 (dev8 d tr 0x60)] @ tr \<and> HANDLE_PS2_MOUSE (dev8 d tr 0x60) s = Some s'"
  by (auto simp: Mouse_Handler_c_def inb_def outb_def PIC_EndSlave_def Let_def split: Option.bind_splits)

text \<open>A run of keyboard interrupts.\<close>

fun key_interrupts :: "device \<Rightarrow> nat \<Rightarrow> keyboard \<times> io_trace \<Rightarrow> (keyboard \<times> io_trace) option" where
  "key_interrupts d 0 st = Some st"
| "key_interrupts d (Suc n) st = do { (r, st) \<leftarrow> Keyboard_Handler_c d st; key_interrupts d n st }"

section \<open>Faults\<close>

text \<open>What the handlers do before they halt for ever.\<close>

fun delete_chars :: "nat \<Rightarrow> graphics_context \<Rightarrow> graphics_context option" where
  "delete_chars 0 g = Some g"
| "delete_chars (Suc n) g = do { g \<leftarrow> deletechar g; delete_chars n g }"

definition fault_report :: "string \<Rightarrow> graphics_context \<Rightarrow> graphics_context option" where
  "fault_report msg g = do {
     g \<leftarrow> delete_chars 19 (move_cursor g 29 0);
     Console.print g (of_str msg @ [0]) }"

definition Unhandled_Handler_c :: "graphics_context \<Rightarrow> graphics_context option" where
  "Unhandled_Handler_c g = fault_report ''Unhandled Fault detected'' g"

definition DoubleFault_Handler_c :: "graphics_context \<Rightarrow> graphics_context option" where
  "DoubleFault_Handler_c g = fault_report ''Double FAULT DETECTED'' g"

text \<open>\<open>frame\<close> is the frame's address; \<open>err_buf\<close> is what the buffer of 64 bytes held.\<close>

definition GeneralFault_Handler_c ::
  "device \<Rightarrow> 'd double_ops \<Rightarrow> u64 \<Rightarrow> u8 list \<Rightarrow> graphics_context \<times> io_trace \<Rightarrow> (graphics_context \<times> u8 list \<times> io_trace) option" where
  "GeneralFault_Handler_c d D frame err_buf st = (case st of (g, tr) \<Rightarrow> do {
     tr \<leftarrow> print_serial d (of_str ''GENERAL FAULT DETECTED'' @ [0]) tr;
     (err_buf, k) \<leftarrow> ksprintf D err_buf (of_str ''%x'' @ [0]) [Word64 (unat frame)];
     tr \<leftarrow> print_serial d err_buf tr;
     g \<leftarrow> Console.print g (of_str ''GENERAL FAULT DETECTED'' @ [0]);
     Some (g, err_buf, tr) })"

definition test_handler :: "'d double_ops \<Rightarrow> tty \<Rightarrow> tty option" where
  "test_handler D tt = map_option snd (kprintf D (of_str ''test signal recieved'' @ [0]) [] tt)"

section \<open>The shell\<close>

record shell =
  cursor_present :: bool
  cursor_flash :: bool
  cursor_active :: bool
  isLeftShift :: bool
  isRightShift :: bool
  sh_tty :: tty

definition num_shift :: "u8 list" where
  "num_shift = of_str '')!@#$%^&*(''"

definition say :: "'d double_ops \<Rightarrow> u8 list \<Rightarrow> 'd va_arg list \<Rightarrow> shell \<Rightarrow> shell option" where
  "say D format ap s = do { (i, tt) \<leftarrow> kprintf D (format @ [0]) ap (sh_tty s); Some (s\<lparr>sh_tty := tt\<rparr>) }"

abbreviation left_seq :: "u8 list" where "left_seq \<equiv> [27, 91, 68]"

definition show_cursor :: "'d double_ops \<Rightarrow> shell \<Rightarrow> shell option" where
  "show_cursor D s =
     (if cursor_flash s \<and> \<not> cursor_present s
      then map_option (\<lambda>s. s\<lparr>cursor_present := True\<rparr>) (say D (of_str ''%c'' @ left_seq) [Chr 0x18] s)
      else Some s)"

definition hide_cursor :: "'d double_ops \<Rightarrow> shell \<Rightarrow> shell option" where
  "hide_cursor D s =
     (if cursor_present s
      then map_option (\<lambda>s. s\<lparr>cursor_present := False\<rparr>) (say D (32 # left_seq) [] s)
      else Some s)"

text \<open>With shift, characters that are neither letters nor digits are not printed.\<close>

definition print_character :: "'d double_ops \<Rightarrow> u8 \<Rightarrow> shell \<Rightarrow> shell option" where
  "print_character D key s =
     (if isLeftShift s \<or> isRightShift s then
        (if isalpha (scast key) then say D (of_str ''%c'') [Chr (key - 32)] s
         else if isdigit (scast key) then do {
           c \<leftarrow> arr_get num_shift (nat (sint key - 0x30));
           say D (of_str ''%c'') [Chr c] s }
         else Some s)
      else say D (of_str ''%c'') [Chr key] s)"

definition username :: "u8 list" where "username = of_str ''pat'' @ [0]"
definition hostname :: "u8 list" where "hostname = of_str ''efios'' @ [0]"

definition new_console_line :: "'d double_ops \<Rightarrow> shell \<Rightarrow> shell option" where
  "new_console_line D s = do {
     s \<leftarrow> say D (10 # of_str ''[%s@%s: ~]$'') [Text username, Text hostname] s;
     say D ([27, 91, 115, 10] @ of_str ''hello1'' @ [27, 91, 117] @ of_str ''hello2'' @ [10]) [] s }"

text \<open>One round of the \<open>while\<close> of \<open>run_shell\<close>, which never ends: the prompt and a cleared command.\<close>

definition shell_round :: "'d double_ops \<Rightarrow> u8 list \<Rightarrow> sys \<Rightarrow> shell \<Rightarrow> (u8 list \<times> u8 list \<times> shell) option" where
  "shell_round D pwd_buf y s = do {
     pwd_buf \<leftarrow> getcwd pwd_buf 1024 y;
     s \<leftarrow> say D (of_str ''[%s@%s: %s]$'') [Text username, Text hostname, Text pwd_buf] s;
     Some (pwd_buf, replicate 1024 0, s) }"

text \<open>\<open>argv[i]\<close>: a pointer behind the last section is not read.\<close>

definition argv_at :: "nat list \<Rightarrow> u8 list \<Rightarrow> nat \<Rightarrow> u8 list option" where
  "argv_at secs start i = do { k \<leftarrow> arr_get secs i; Some (drop k start) }"

definition say_kb :: "'d double_ops \<Rightarrow> string \<Rightarrow> u64 \<Rightarrow> shell \<Rightarrow> shell option" where
  "say_kb D what v s = say D (of_str what @ of_str '' memory: %ukb'' @ [10]) [Word64 (unat (v div 1024))] s"

definition run_cmd :: "'d double_ops \<Rightarrow> u8 list \<Rightarrow> page_alloc \<Rightarrow> sys \<times> shell \<Rightarrow> (sys \<times> shell) option" where
  "run_cmd D cmd p st = (case st of (y, s) \<Rightarrow> do {
     (argc, secs, start) \<leftarrow> split_string_by_char cmd 32;
     let s = s\<lparr>cursor_active := False\<rparr>;
     s \<leftarrow> (if cursor_present s then say D (left_seq @ [32]) [] (s\<lparr>cursor_present := False\<rparr>) else Some s);
     arg0 \<leftarrow> argv_at secs start 0;
     isfree \<leftarrow> strcmp arg0 (of_str ''free'' @ [0]);
     s \<leftarrow> (if isfree = 0 then do {
             s \<leftarrow> say_kb D ''Free'' (get_free_memory p) s;
             s \<leftarrow> say_kb D ''Used'' (get_used_memory p) s;
             say_kb D ''Reserved'' (get_reserved_memory p) s }
           else Some s);
     iscd \<leftarrow> strcmp arg0 (of_str ''cd'' @ [0]);
     (y, s) \<leftarrow> (if iscd = 0 \<and> argc > 1 then do {
             arg1 \<leftarrow> argv_at secs start 1;
             (r, y) \<leftarrow> chdir arg1 y;
             s \<leftarrow> (if r = - 1 then say D (of_str ''sh: cd: %s: No such file or directory'') [Text arg1] s else Some s);
             Some (y, s) }
           else Some (y, s));
     isls \<leftarrow> (if iscd = 0 then Some 0 else strcmp arg0 (of_str ''ls'' @ [0]));
     Some (y, s\<lparr>cursor_active := True\<rparr>) })"

text \<open>A shifted digit is always looked up inside the table.\<close>

lemma num_shift_inside: "isdigit (scast k) \<Longrightarrow> \<exists>c. arr_get num_shift (nat (sint k - 0x30)) = Some c" for k :: u8
proof -
  assume "isdigit (scast k)"
  then have "48 \<le> sint k" "sint k \<le> 57" by (simp_all add: isdigit_def sint_char)
  moreover have "length num_shift = 10" by (simp add: num_shift_def of_str_def)
  ultimately show ?thesis by simp
qed

end
