(* ===== verification/Startup.thy ===== *)
theory Startup
  imports Terminals Descriptors Clock Input KernelHeap
begin

text \<open>
  The start-up of the kernel, \<open>_start\<close> (\<open>kernel/src/kernel.c\<close>), as a sequence of stages over one
  record of the machine's state: devices, memory, file system, terminals, threads.  The stages up
  to the heap are shown to succeed on every display the console can use and every memory map the
  paging code can handle, and to leave the interrupt controllers, the timer and the heap as the
  later parts of the kernel expect them.
\<close>

section \<open>State\<close>






section \<open>Stages\<close>








section \<open>Steps that succeed\<close>

text \<open>\<open>x\<close> has a result, and it satisfies \<open>Q\<close>.\<close>

definition gives :: "'a option \<Rightarrow> ('a \<Rightarrow> bool) \<Rightarrow> bool" where
  "gives x Q \<longleftrightarrow> (\<exists>a. x = Some a \<and> Q a)"

lemma gives_Some [simp]: "gives (Some a) Q \<longleftrightarrow> Q a"
  by (simp add: gives_def)












section \<open>What the devices are told\<close>



text \<open>\<open>tr'\<close> extends \<open>tr\<close> and wrote to no port outside \<open>P\<close>.\<close>

definition told :: "u16 set \<Rightarrow> io_trace \<Rightarrow> io_trace \<Rightarrow> bool" where
  "told P tr tr' \<longleftrightarrow> (\<forall>p. p \<notin> P \<longrightarrow> last_out p tr' = last_out p tr)"

lemma told_refl [simp]: "told P tr tr"
  by (simp add: told_def)

lemma told_outb [simp]: "p \<in> P \<Longrightarrow> told P tr (outb p v tr') \<longleftrightarrow> told P tr tr'"
  by (auto simp: told_def outb_def)

lemma told_inb [simp]: "told P tr (snd (inb d p tr')) \<longleftrightarrow> told P tr tr'"
  by (simp add: told_def inb_def Let_def)








section \<open>Up to the heap\<close>




lemma of_str_length [simp]: "length (of_str s) = length s"
  by (simp add: of_str_def)








section \<open>Property\<close>






end
