(* ===== verification/Spec2Isabelle.thy ===== *)
theory Spec2Isabelle
  imports Prelude MemPrims CString Heap SortedList RingBuffer PageAlloc PageTable PagingInit KernelHeap Fat FatDir Vfs FileTable NumText
    PortIO AtaPio Clock Threads Elf Process Console Input Descriptors Boot DynArray Smp Terminals Handlers Startup
begin

text \<open>
  A model of the kernel of efi-os (\<open>kernel/src\<close> and the parts of \<open>gnu-efi\<close> it is built with),
  with the theorems that say what its components do.

  Conventions.  Every C function is a HOL function of the state it reads; the state it
  changes is returned.  Machine integers are words, or numbers with the wrap-around written
  out (\<open>wrap64\<close>, \<open>wrap_s32\<close>).  An execution without defined behaviour (an access outside an
  object, a null dereference, a division by zero, a call that never returns, the overflow of an
  \<open>int\<close> that counts pages or positions in a text) is \<^const>\<open>None\<close>.  Other \<open>int\<close> arithmetic is
  written with \<open>wrap_s32\<close>; under the bounds the theorems state it stays in the range of \<open>int\<close>,
  except in \<open>EXPAND_HEAP\<close>, whose page offsets overflow for a single request of 2 GiB or more.
  Loops that may not end are partial functions, so that ending is part of what is proved;
  no fuel is used: every other recursion is structural or has a measure.

  The program.  The boot loader reads a configuration and the kernel's segments and jumps to
  \<open>_start\<close>, which sets up the console, the interrupt tables, the timer and the mouse, then the
  page allocator, the page tables and the heap, then the file system, the terminals and the
  threads.  From then on it is driven by interrupts (keyboard, mouse, timer) and by the system
  calls on descriptors.

  Theories and code (files of \<open>kernel/src\<close> where no other place is named).
    \<^item> \<open>Prelude\<close>: C integer types, the byte store, little-endian packing, block access.
    \<^item> \<open>MemPrims\<close> (\<open>typedef.c\<close>): copying, comparing, filling memory, the CRC.
    \<^item> \<open>CString\<close> (\<open>string.c\<close>, \<open>ctype.h\<close>): strings as byte blocks with a terminating zero.
    \<^item> \<open>Heap\<close> (\<open>memory.c\<close>): headers in a store from addresses; the state is the header store, the
      end of the heap and the last header.  The lemmas tie it to the list of its blocks and
      give each of \<open>kmalloc\<close>, \<open>free\<close>, \<open>krealloc\<close> its effect on the set of blocks in use.
    \<^item> \<open>SortedList\<close> (\<open>sorted_list.c\<close>), \<open>RingBuffer\<close> (\<open>circular_buffer.c\<close>), \<open>DynArray\<close> (\<open>dynarray.c\<close>):
      the containers, refined to a sorted list, a queue and a list; the spin lock of the buffer
      is a step relation of two threads.
    \<^item> \<open>PageAlloc\<close> (\<open>paging.c\<close>, \<open>efimemory.c\<close>): the page map, its counters and its search index.
    \<^item> \<open>PageTable\<close> (\<open>paging.c\<close>): four-level tables in physical memory; mapping a page changes
      the translation of that page only, and takes at most three pages for tables.
    \<^item> \<open>PagingInit\<close> (\<open>INIT_PAGING\<close>): the loops of the start-up.  With at most 2 GiB of memory, the
      memory and the frame buffer are mapped to themselves and nothing else of the 48-bit address
      space is; with more, the loop over the memory overflows its \<open>int\<close>.
    \<^item> \<open>KernelHeap\<close>: \<open>Heap\<close> over the real page tables and page allocator; every byte of a block
      lies in a mapped frame of its own that holds no page table.
    \<^item> \<open>Fat\<close>, \<open>FatDir\<close> (\<open>fat.c\<close>): the FAT12 volume: packed table, cluster chains, directories with
      long names, files by path.
    \<^item> \<open>Vfs\<close> (\<open>vfs.c\<close>): nodes in a store, navigation, creation, file and pipe contents.
    \<^item> \<open>FileTable\<close> (\<open>file_table.c\<close>, \<open>filesystem.c\<close>): descriptors and the file system calls.
    \<^item> \<open>NumText\<close> (\<open>stdlib.c\<close>, \<open>stdio.c\<close>): numbers to text and back, formatted output.
    \<^item> \<open>PortIO\<close> (\<open>io.c\<close>, \<open>serial.c\<close>), \<open>AtaPio\<close> (\<open>ata-pio.c\<close>): port access as events, devices as
      functions of the events so far, the disk driver against the sector interface of \<open>Fat\<close>.
    \<^item> \<open>Clock\<close> (\<open>time.c\<close>, \<open>pit.c\<close>): the real-time clock, the software clock, the interval timer.
    \<^item> \<open>Threads\<close> (\<open>thread.c\<close>, \<open>scheduler.c\<close>): creation, switching and destruction of threads; the
      pool is a round-robin queue, so every live thread runs again from the stack it was stopped on.
    \<^item> \<open>Elf\<close> (\<open>elf.h\<close>), \<open>Process\<close> (\<open>process.c\<close>): the headers and segments of an executable, and a new
      process with its address space and its first thread.
    \<^item> \<open>Console\<close> (\<open>graphics.c\<close>, \<open>bitmap-font.c\<close>, \<open>tty.c\<close>): glyphs, cursor, scrolling, the mouse
      pointer and escape sequences over an array of pixels.
    \<^item> \<open>Input\<close> (\<open>keyboard.c\<close>, \<open>mouse.c\<close>): scan codes to keys and modifiers, packets to a position.
    \<^item> \<open>Descriptors\<close> (\<open>gdt.c\<close>, \<open>idt.c\<close>): the segment and interrupt tables.
    \<^item> \<open>Terminals\<close> (\<open>tty.c\<close>, \<open>graphics.c\<close>, the loop of \<open>kernel.c\<close>): terminals with their pipes, and the
      threads that feed them.
    \<^item> \<open>Handlers\<close> (\<open>interrupt_handlers.c\<close>, \<open>shell.c\<close>): what each interrupt does, and the shell.
    \<^item> \<open>Smp\<close> (\<open>smp.c\<close>): the processors the ACPI tables name.
    \<^item> \<open>Boot\<close> (\<open>gnu-efi/bootloader\<close>): configuration, files, segments, memory map and mode.
    \<^item> \<open>Startup\<close> (\<open>kernel.c\<close>): the stages of \<open>_start\<close> over one record of the kernel's globals.

  How the parts meet.
    \<^item> \<open>SortedList\<close> states the interface \<open>sorted_dir\<close>, over \<open>keyed_cmp\<close> for its two comparators; the
      children of a \<open>Vfs\<close> node and the descriptor table of \<open>FileTable\<close> interpret it.
    \<^item> \<open>Heap\<close> states \<open>block_allocator\<close> and interprets it for any source of pages; \<open>KernelHeap\<close>
      interprets it for \<open>map_mem\<close> and \<open>REQUEST_PAGE\<close> of \<open>PageTable\<close> and \<open>PageAlloc\<close>.
    \<^item> \<open>PageAlloc\<close> states and interprets \<open>page_source\<close>, \<open>RingBuffer\<close> states and interprets
      \<open>bounded_fifo\<close>; the pool of \<open>Threads\<close> is such a buffer.
    \<^item> \<open>Fat\<close> reads and writes sectors, \<open>AtaPio\<close> shows that the driver provides them.  \<open>Vfs\<close> is
      filled from \<open>FatDir\<close>; \<open>Terminals\<close> write and read the pipes of \<open>Vfs\<close> through \<open>FileTable\<close>;
      \<open>Process\<close> reads its executable the same way.
    \<^item> \<open>Startup\<close> puts the devices, \<open>PagingInit\<close> and \<open>KernelHeap\<close> in their order.

  Bounds.  \<open>paging_memory\<close> admits memory maps of at most 2 GiB whose reserved regions, page map,
  kernel and frame buffer fit, with enough pages for the tables.  A transfer of the disk driver
  has 1 to 127 sectors.  Configuration texts are shorter than 2 GiB, and so are the strings
  \<open>split_string_by_char\<close> is given (its \<open>int\<close> positions are natural numbers here).  The display of
  the mouse is less than 2^30 pixels wide and high, so that a movement never overflows.
  \<open>kernel_serves\<close> asks for twelve free pages
  for each page a request needs: the heap grows in at most three rounds, and a mapped page
  costs itself and at most three tables.

  Not modelled.  Assembly (the entry code of interrupts and system calls, loading the table
  registers), the two demonstration programs, the firmware library apart from the comparison
  of identifiers, the text the boot loader and the processor search put on the console, and
  what follows the endless loop of \<open>_start\<close>.  Floating-point arithmetic, the devices, the
  firmware and the contents of fresh memory are parameters.
\<close>

end
